(* ===== verification/Prelude.thy ===== *)
theory Prelude
  imports Main "HOL-Library.Char_ord" "HOL-Library.List_Lexorder" "HOL-Library.Multiset"
begin

text \<open>
  What every component of the model shares: the outcome of running a piece of C code,
  bounds-checked array access, C strings and \<open>strcmp\<close>, the C library's white space, and
  the generic list lemmas.

  A C string held in a \<open>char\<close> array is modelled by the characters before its terminating
  NUL, as a HOL \<open>string\<close>; a HOL \<open>char\<close> is one byte. Where the bytes after the terminator
  matter (packets on the wire, buffers filled by the kernel) the whole array is a
  \<open>char list\<close> and \<open>cstring\<close> reads the string in it.
\<close>

named_theorems outcome_simps

section \<open>Outcomes of C code\<close>

text \<open>
  A piece of C code returns a value, runs into undefined behaviour, never returns, leaves
  the process through \<open>exit\<close>, or aborts (a failed \<open>assert\<close>).
\<close>

datatype ub = OutOfBounds | NullPointer | IntOverflow | Unset

datatype 'a outcome = Val 'a | Undefined ub | Hangs | Exits int | Aborts

primrec bind_out :: "'a outcome \<Rightarrow> ('a \<Rightarrow> 'b outcome) \<Rightarrow> 'b outcome" where
  "bind_out (Val x) f = f x"
| "bind_out (Undefined u) f = Undefined u"
| "bind_out Hangs f = Hangs"
| "bind_out (Exits n) f = Exits n"
| "bind_out Aborts f = Aborts"

lemma bind_out_cong [fundef_cong]:
  "m = m' \<Longrightarrow> (\<And>x. m' = Val x \<Longrightarrow> f x = g x) \<Longrightarrow> bind_out m f = bind_out m' g"
  by (cases m') auto

lemma bind_out_Val_iff [outcome_simps]:
  "bind_out m f = Val y \<longleftrightarrow> (\<exists>x. m = Val x \<and> f x = Val y)"
  by (cases m) auto

lemma bind_out_assoc [outcome_simps]:
  "bind_out (bind_out m f) g = bind_out m (\<lambda>x. bind_out (f x) g)"
  by (cases m) auto

lemma bind_out_Val_right [simp]: "bind_out m Val = m"
  by (cases m) auto

lemma bind_out_if [outcome_simps]:
  "bind_out (if b then m else m') f = (if b then bind_out m f else bind_out m' f)"
  by simp

primrec map_out :: "('a \<Rightarrow> 'b) \<Rightarrow> 'a outcome \<Rightarrow> 'b outcome" where
  "map_out f (Val x) = Val (f x)"
| "map_out f (Undefined u) = Undefined u"
| "map_out f Hangs = Hangs"
| "map_out f (Exits n) = Exits n"
| "map_out f Aborts = Aborts"

lemma map_out_Val_iff [outcome_simps]: "map_out f m = Val y \<longleftrightarrow> (\<exists>x. m = Val x \<and> y = f x)"
  by (cases m) auto

section \<open>Arrays\<close>

text \<open>A read or a write outside the array is undefined behaviour.\<close>

definition array_get :: "'a list \<Rightarrow> int \<Rightarrow> 'a outcome" where
  "array_get xs i =
     (if 0 \<le> i \<and> i < int (length xs) then Val (xs ! nat i) else Undefined OutOfBounds)"

definition array_put :: "'a list \<Rightarrow> int \<Rightarrow> 'a \<Rightarrow> 'a list outcome" where
  "array_put xs i x =
     (if 0 \<le> i \<and> i < int (length xs) then Val (xs[nat i := x]) else Undefined OutOfBounds)"

lemma array_get_int [simp]:
  "array_get xs (int i) = (if i < length xs then Val (xs ! i) else Undefined OutOfBounds)"
  by (simp add: array_get_def)

lemma array_put_int [simp]:
  "array_put xs (int i) x = (if i < length xs then Val (xs[i := x]) else Undefined OutOfBounds)"
  by (simp add: array_put_def)

lemma array_get_append_mid [simp]: "array_get (xs @ y # ys) (int (length xs)) = Val y"
  by simp

lemma array_get_Val_iff [outcome_simps]:
  "array_get xs i = Val x \<longleftrightarrow> 0 \<le> i \<and> i < int (length xs) \<and> x = xs ! nat i"
  by (auto simp: array_get_def)

lemma array_put_Val_iff [outcome_simps]:
  "array_put xs i x = Val ys \<longleftrightarrow> 0 \<le> i \<and> i < int (length xs) \<and> ys = xs[nat i := x]"
  by (auto simp: array_put_def)

section \<open>C strings\<close>

abbreviation NUL :: char where "NUL \<equiv> CHR 0x00"
abbreviation LF :: char where "LF \<equiv> CHR 0x0A"

text \<open>
  \<open>strcmp\<close>: bytes compare as unsigned characters; the C standard fixes only the sign of the
  result, so it is normalised to \<open>-1\<close>, \<open>0\<close>, \<open>1\<close>.
\<close>

fun strcmp :: "string \<Rightarrow> string \<Rightarrow> int" where
  "strcmp [] [] = 0"
| "strcmp [] (d # ds) = -1"
| "strcmp (c # cs) [] = 1"
| "strcmp (c # cs) (d # ds) = (if c = d then strcmp cs ds else if c < d then -1 else 1)"

lemma strcmp_eq_0 [simp]: "strcmp s t = 0 \<longleftrightarrow> s = t"
  by (induction s t rule: strcmp.induct) auto

lemma strcmp_pos [simp]: "0 < strcmp s t \<longleftrightarrow> t < s"
  by (induction s t rule: strcmp.induct) auto

lemma strcmp_neg [simp]: "strcmp s t < 0 \<longleftrightarrow> s < t"
  by (induction s t rule: strcmp.induct) auto

lemma strcmp_le_0 [simp]: "strcmp s t \<le> 0 \<longleftrightarrow> s \<le> t"
  using strcmp_pos [of s t] by (simp add: linorder_not_less [symmetric])

text \<open>The string in a \<open>char\<close> array: reading past an array with no terminator is undefined.\<close>

definition cstring :: "char list \<Rightarrow> string outcome" where
  "cstring a = (if NUL \<in> set a then Val (takeWhile (\<lambda>c. c \<noteq> NUL) a) else Undefined OutOfBounds)"

text \<open>\<open>strcpy\<close> of a string into an array: the terminator has to fit, the bytes after it stay.\<close>

definition strcpy_into :: "char list \<Rightarrow> string \<Rightarrow> char list outcome" where
  "strcpy_into dst s =
     (if length s < length dst then Val (s @ NUL # drop (Suc (length s)) dst)
      else Undefined OutOfBounds)"

definition strcpy :: "char list \<Rightarrow> char list \<Rightarrow> char list outcome" where
  "strcpy dst src = bind_out (cstring src) (strcpy_into dst)"

lemma cstring_append_NUL [simp]: "NUL \<notin> set s \<Longrightarrow> cstring (s @ NUL # t) = Val s"
proof -
  assume s: "NUL \<notin> set s"
  then have "takeWhile (\<lambda>c. c \<noteq> NUL) (s @ NUL # t) = s"
    by (subst takeWhile_append2) auto
  then show ?thesis by (simp add: cstring_def)
qed

lemma cstring_Val_iff:
  "cstring a = Val s \<longleftrightarrow> NUL \<notin> set s \<and> (\<exists>t. a = s @ NUL # t)"
proof
  assume "cstring a = Val s"
  then have in_a: "NUL \<in> set a" and s: "s = takeWhile (\<lambda>c. c \<noteq> NUL) a"
    by (auto simp: cstring_def split: if_splits)
  from in_a have "dropWhile (\<lambda>c. c \<noteq> NUL) a \<noteq> []" by auto
  then obtain c t where ct: "dropWhile (\<lambda>c. c \<noteq> NUL) a = c # t" by (meson list.exhaust)
  then have "c = NUL" using hd_dropWhile [of "\<lambda>c. c \<noteq> NUL" a] by simp
  with ct s have "a = s @ NUL # t" using takeWhile_dropWhile_id [of "\<lambda>c. c \<noteq> NUL" a] by simp
  moreover have "NUL \<notin> set s" using s by (auto dest: set_takeWhileD)
  ultimately show "NUL \<notin> set s \<and> (\<exists>t. a = s @ NUL # t)" by blast
qed auto

lemma strcpy_into_length: "strcpy_into dst s = Val d \<Longrightarrow> length d = length dst"
  by (auto simp: strcpy_into_def split: if_splits)

text \<open>\<open>isspace\<close> of the C locale, as the \<open>scanf\<close> family uses it.\<close>

definition c_isspace :: "char \<Rightarrow> bool" where
  "c_isspace c \<longleftrightarrow> c \<in> {CHR 0x20, CHR 0x09, CHR 0x0A, CHR 0x0B, CHR 0x0C, CHR 0x0D}"

abbreviation wordy :: "string \<Rightarrow> bool" where
  "wordy s \<equiv> (\<forall>c \<in> set s. \<not> c_isspace c)"

lemma c_isspace_simps [simp]:
  "c_isspace (CHR '' '')" "c_isspace LF"
  by (simp_all add: c_isspace_def)

section \<open>Lists\<close>

lemma takeWhile_wordy_append:
  "\<forall>x \<in> set xs. P x \<Longrightarrow> \<not> P y \<Longrightarrow> takeWhile P (xs @ y # ys) = xs"
  by (induction xs) auto

lemma list_update_mid [simp]: "(xs @ y # ys)[length xs := z] = xs @ z # ys"
  by (induction xs) auto

lemma take_mid_append [simp]: "take (length xs) (xs @ ys) = xs"
  by simp

text \<open>Counting up an index that is a natural number.\<close>

lemma int_plus_1: "int k + 1 = int (Suc k)"
  by simp

lemma array_get_mid:
  "k = length pre + 1 + length mid \<Longrightarrow> array_get (pre @ x # mid @ y # post) (int k) = Val y"
  by (simp add: nth_append del: of_nat_add of_nat_Suc)

end
