(* ===== verification/Parsebat_Reader.thy ===== *)
theory Parsebat_Reader
  imports Prelude
begin

text \<open>
  The buffered character reader of \<open>kernel/parsebat.c\<close>: the static variables \<open>buf\<close>,
  \<open>bufsize\<close>, \<open>offset\<close> and \<open>state\<close>, \<open>getchar_from_fd\<close> and the three skipping helpers.
  The pipe behind the descriptor is the list of what is still to come from it; what
  \<open>sys_read\<close> returns is at most \<open>PIPE_BUF\<close> bytes of its first element.

  The stream of characters still to be delivered is the reader's abstract value, and the
  locale \<open>stream_op\<close> is the contract of every operation on the reader: it computes the
  same as a function on that stream, whatever the sizes of the reads.
\<close>

section \<open>The pipe and \<open>sys_read\<close>\<close>

definition PIPE_BUF :: int where "PIPE_BUF = 4096"

definition EFAULT :: int where "EFAULT = 14"
definition EINVAL :: int where "EINVAL = 22"

datatype addr_limit = USER_DS | KERNEL_DS

text \<open>
  What the pipe holds: pieces of data as the writer wrote them, or a failing read with its
  \<open>errno\<close>. After the last element the writer has closed the pipe.
\<close>

datatype pending = Bytes "char list" | Fails nat

datatype bufstate = BUF_OK | BUF_EOF | BUF_ERR

record reader =
  buf :: "char list"
  bufsize :: int
  offset :: int
  state :: bufstate
  pipe_data :: "pending list"
  limit :: addr_limit

text \<open>The static variables as they are when the module is loaded.\<close>

definition boot_reader :: "pending list \<Rightarrow> addr_limit \<Rightarrow> reader" where
  "boot_reader ps l =
     \<lparr>buf = replicate (nat PIPE_BUF) NUL, bufsize = 0, offset = 0, state = BUF_OK,
      pipe_data = ps, limit = l\<rparr>"

text \<open>
  \<open>sys_read(fd, buf, sizeof buf)\<close>: the number of bytes stored at the start of \<open>buf\<close>, 0 at
  the end of the data, or a negated error number. The buffer is in kernel memory, so a
  thread whose address limit is not \<open>KERNEL_DS\<close> gets \<open>-EFAULT\<close>.
\<close>

definition sys_read :: "reader \<Rightarrow> int \<times> reader" where
  "sys_read r =
     (if limit r = USER_DS then (- EFAULT, r)
      else case pipe_data r of
        [] \<Rightarrow> (0, r)
      | Fails e # ps \<Rightarrow> (- int e, r\<lparr>pipe_data := ps\<rparr>)
      | Bytes bs # ps \<Rightarrow>
          let n = length (buf r); got = take n bs; left = drop n bs in
          (int (length got),
           r\<lparr>buf := got @ drop (length got) (buf r),
             pipe_data := (if left = [] then ps else Bytes left # ps)\<rparr>))"

section \<open>The reader\<close>

definition parsebat_reset :: "reader \<Rightarrow> reader" where
  "parsebat_reset r = r\<lparr>bufsize := 0, offset := 0, state := BUF_OK\<rparr>"

definition fd_err :: "reader \<Rightarrow> bool" where "fd_err r \<longleftrightarrow> state r = BUF_ERR"
definition fd_eof :: "reader \<Rightarrow> bool" where "fd_eof r \<longleftrightarrow> state r = BUF_EOF"
definition fd_ok :: "reader \<Rightarrow> bool" where "fd_ok r \<longleftrightarrow> state r = BUF_OK"

text \<open>
  A \<open>char\<close> as an \<open>int\<close>: signed on x86 (\<open>CONFIG_X86\<close>), unsigned on ARM (\<open>CONFIG_ARM\<close>).
  The first argument says whether \<open>char\<close> is signed. Storing an \<open>int\<close> into a \<open>char\<close>
  keeps its low byte either way.
\<close>

definition char_to_int :: "bool \<Rightarrow> char \<Rightarrow> int" where
  "char_to_int sc c =
     (if sc \<and> 128 \<le> (of_char c :: int) then of_char c - 256 else of_char c)"

definition int_to_char :: "int \<Rightarrow> char" where
  "int_to_char i = char_of (nat (i mod 256))"

text \<open>The last step of \<open>getchar_from_fd\<close>: \<open>return buf[offset++]\<close>.\<close>

definition take_char :: "bool \<Rightarrow> reader \<Rightarrow> (int \<times> reader) outcome" where
  "take_char sc r =
     bind_out (array_get (buf r) (offset r))
       (\<lambda>c. Val (char_to_int sc c, r\<lparr>offset := offset r + 1\<rparr>))"

definition getchar_from_fd :: "bool \<Rightarrow> reader \<Rightarrow> (int \<times> reader) outcome" where
  "getchar_from_fd sc r =
     (if \<not> fd_ok r then Val (-1, r)
      else if offset r = bufsize r then
        (case sys_read r of (n, r1) \<Rightarrow>
           let r2 = r1\<lparr>bufsize := n\<rparr> in
           if n = 0 then Val (-1, r2\<lparr>state := BUF_EOF\<rparr>)
           else if n < 0 then Val (-1, r2\<lparr>state := BUF_ERR\<rparr>)
           else take_char sc (r2\<lparr>offset := 0\<rparr>))
      else take_char sc r)"

definition isspace :: "int \<Rightarrow> bool" where
  "isspace ch \<longleftrightarrow> ch = 10 \<or> ch = 32 \<or> ch = 9 \<or> ch = 11 \<or> ch = 13"

text \<open>
  The loops of the helpers stop because every delivered character shrinks the data left
  in the pipe or moves \<open>offset\<close> towards the end of \<open>buf\<close>.
\<close>

fun pending_size :: "pending \<Rightarrow> nat" where
  "pending_size (Bytes bs) = Suc (length bs)"
| "pending_size (Fails e) = 1"

definition pipe_size :: "reader \<Rightarrow> nat" where
  "pipe_size r = sum_list (map pending_size (pipe_data r))"

definition room :: "reader \<Rightarrow> nat" where
  "room r = nat (int (length (buf r)) - offset r)"

lemma sys_read_shrinks: "sys_read r = (n, r') \<Longrightarrow> 0 < n \<Longrightarrow> pipe_size r' < pipe_size r"
  by (auto simp: sys_read_def pipe_size_def EFAULT_def Let_def length_greater_0_conv [symmetric]
      simp del: length_greater_0_conv split: if_splits list.splits pending.splits)

lemma take_char_measure:
  assumes "take_char sc r = Val (ch, r')"
  shows "pipe_size r' = pipe_size r \<and> room r' < room r"
  using assms by (auto simp: take_char_def pipe_size_def room_def outcome_simps)

lemma getchar_from_fd_measure:
  assumes get: "getchar_from_fd sc r = Val (ch, r')" and ch: "ch \<noteq> -1"
  shows "pipe_size r' < pipe_size r \<or> pipe_size r' = pipe_size r \<and> room r' < room r"
proof (cases "fd_ok r \<and> offset r = bufsize r")
  case True
  obtain n r1 where rd: "sys_read r = (n, r1)" by fastforce
  with True get ch have n: "0 < n" and
    tk: "take_char sc (r1\<lparr>bufsize := n, offset := 0\<rparr>) = Val (ch, r')"
    by (auto simp: getchar_from_fd_def Let_def split: if_splits)
  from take_char_measure [OF tk] have "pipe_size r' = pipe_size r1"
    by (simp add: pipe_size_def)
  with sys_read_shrinks [OF rd n] show ?thesis by simp
next
  case False
  with get ch have "take_char sc r = Val (ch, r')"
    by (auto simp: getchar_from_fd_def split: if_splits)
  then show ?thesis using take_char_measure by blast
qed

abbreviation reader_order :: "(reader \<times> reader) set" where
  "reader_order \<equiv> measures [pipe_size, room]"

text \<open>
  The inner loop of \<open>skip_line\<close>; its result says whether it reached a newline, so that
  \<open>skip_line\<close> can return at once when it did not.
\<close>

function skip_to_newline :: "bool \<Rightarrow> reader \<Rightarrow> (bool \<times> reader) outcome" where
  "skip_to_newline sc r =
     bind_out (getchar_from_fd sc r) (\<lambda>(ch, r').
       if ch = 10 then Val (True, r')
       else if ch = -1 then Val (False, r')
       else skip_to_newline sc r')"
  by pat_completeness auto
termination
  by (relation "inv_image reader_order snd") (auto dest!: getchar_from_fd_measure)

fun skip_line :: "bool \<Rightarrow> nat \<Rightarrow> reader \<Rightarrow> (unit \<times> reader) outcome" where
  "skip_line sc 0 r = Val ((), r)"
| "skip_line sc (Suc n) r =
     bind_out (skip_to_newline sc r) (\<lambda>(found, r').
       if found then skip_line sc n r' else Val ((), r'))"

text \<open>
  The loop of \<open>skip_space\<close> and of \<open>skip_nospace\<close>: read while a character came and the
  test holds of it; the last character read is the result.
\<close>

function skip_while :: "(int \<Rightarrow> bool) \<Rightarrow> bool \<Rightarrow> reader \<Rightarrow> (int \<times> reader) outcome" where
  "skip_while p sc r =
     bind_out (getchar_from_fd sc r) (\<lambda>(ch, r').
       if ch \<noteq> -1 \<and> p ch then skip_while p sc r' else Val (ch, r'))"
  by pat_completeness auto
termination
  by (relation "inv_image reader_order (snd \<circ> snd)") (auto dest!: getchar_from_fd_measure)

declare skip_to_newline.simps [simp del] skip_while.simps [simp del]

definition step_back :: "int \<Rightarrow> reader \<Rightarrow> reader" where
  "step_back ch r = (if ch \<noteq> -1 then r\<lparr>offset := offset r - 1\<rparr> else r)"

definition skip_space :: "bool \<Rightarrow> reader \<Rightarrow> (unit \<times> reader) outcome" where
  "skip_space sc r = bind_out (skip_while isspace sc r) (\<lambda>(ch, r'). Val ((), step_back ch r'))"

definition skip_nospace :: "bool \<Rightarrow> reader \<Rightarrow> (unit \<times> reader) outcome" where
  "skip_nospace sc r =
     bind_out (skip_while (\<lambda>ch. \<not> isspace ch) sc r) (\<lambda>(ch, r'). Val ((), step_back ch r'))"

section \<open>What stays in the pipe\<close>

text \<open>The bytes the writer has still to get rid of. No operation of the reader adds any.\<close>

fun pending_bytes :: "pending \<Rightarrow> nat" where
  "pending_bytes (Bytes bs) = length bs"
| "pending_bytes (Fails e) = 0"

definition outstanding :: "reader \<Rightarrow> nat" where
  "outstanding r = sum_list (map pending_bytes (pipe_data r))"

named_theorems drains

lemma outstanding_cong [simp]:
  "outstanding (r\<lparr>offset := i\<rparr>) = outstanding r" "outstanding (r\<lparr>bufsize := n\<rparr>) = outstanding r"
  "outstanding (r\<lparr>state := b\<rparr>) = outstanding r" "outstanding (r\<lparr>limit := l\<rparr>) = outstanding r"
  by (simp_all add: outstanding_def)

lemma sys_read_drains: "sys_read r = (n, r') \<Longrightarrow> outstanding r' \<le> outstanding r"
  by (auto simp: sys_read_def outstanding_def Let_def split: if_splits list.splits pending.splits)

lemma take_char_drains: "take_char sc r = Val (ch, r') \<Longrightarrow> outstanding r' = outstanding r"
  by (auto simp: take_char_def outcome_simps)

lemma getchar_drains [drains]: "getchar_from_fd sc r = Val (ch, r') \<Longrightarrow> outstanding r' \<le> outstanding r"
  by (auto simp: getchar_from_fd_def Let_def dest!: take_char_drains dest: sys_read_drains
      split: if_splits prod.splits)

lemma skip_to_newline_drains [drains]:
  "skip_to_newline sc r = Val (b, r') \<Longrightarrow> outstanding r' \<le> outstanding r"
proof (induction sc r rule: skip_to_newline.induct)
  case (1 sc r)
  from "1.prems" obtain ch q where q: "getchar_from_fd sc r = Val (ch, q)"
    by (subst (asm) skip_to_newline.simps) (auto simp: outcome_simps)
  with "1.prems" have "r' = q \<or> ch \<noteq> 10 \<and> ch \<noteq> -1 \<and> skip_to_newline sc q = Val (b, r')"
    by (subst (asm) skip_to_newline.simps) (auto split: if_splits)
  with "1.IH" [OF q refl] getchar_drains [OF q] show ?case by (auto intro: order_trans)
qed

lemma skip_line_drains [drains]: "skip_line sc n r = Val (u, r') \<Longrightarrow> outstanding r' \<le> outstanding r"
  by (induction n arbitrary: r)
    (auto simp: outcome_simps split: if_splits dest!: skip_to_newline_drains intro: order_trans)

lemma skip_while_drains [drains]:
  "skip_while p sc r = Val (ch, r') \<Longrightarrow> outstanding r' \<le> outstanding r"
proof (induction p sc r rule: skip_while.induct)
  case (1 p sc r)
  from "1.prems" obtain c q where q: "getchar_from_fd sc r = Val (c, q)"
    by (subst (asm) skip_while.simps) (auto simp: outcome_simps)
  with "1.prems" have "r' = q \<or> c \<noteq> -1 \<and> p c \<and> skip_while p sc q = Val (ch, r')"
    by (subst (asm) skip_while.simps) (auto split: if_splits)
  with "1.IH" [OF q refl] getchar_drains [OF q] show ?case by (auto intro: order_trans)
qed

lemma skip_space_drains [drains]: "skip_space sc r = Val (u, r') \<Longrightarrow> outstanding r' \<le> outstanding r"
  by (auto simp: skip_space_def step_back_def outcome_simps dest: skip_while_drains split: if_splits)

lemma skip_nospace_drains [drains]: "skip_nospace sc r = Val (u, r') \<Longrightarrow> outstanding r' \<le> outstanding r"
  by (auto simp: skip_nospace_def step_back_def outcome_simps dest: skip_while_drains split: if_splits)

section \<open>The stream behind the reader\<close>

text \<open>
  \<open>Live cs e\<close>: the characters \<open>cs\<close> are still to be delivered, then the data ends with
  code \<open>e\<close> (0 at the end of the file, otherwise a negated error number). \<open>Done e\<close>: that
  end has been reported.
\<close>

datatype stream = Live string int | Done int

fun pipe_chars :: "pending list \<Rightarrow> string" where
  "pipe_chars [] = []"
| "pipe_chars (Fails e # ps) = []"
| "pipe_chars (Bytes bs # ps) = (if bs = [] then [] else bs @ pipe_chars ps)"

fun pipe_end :: "pending list \<Rightarrow> int" where
  "pipe_end [] = 0"
| "pipe_end (Fails e # ps) = - int e"
| "pipe_end (Bytes bs # ps) = (if bs = [] then 0 else pipe_end ps)"

definition pipe_stream :: "pending list \<Rightarrow> stream" where
  "pipe_stream ps = Live (pipe_chars ps) (pipe_end ps)"

definition unread :: "reader \<Rightarrow> string" where
  "unread r = drop (nat (offset r)) (take (nat (bufsize r)) (buf r))"

definition stream_of :: "reader \<Rightarrow> stream" where
  "stream_of r =
     (if fd_ok r then Live (unread r @ pipe_chars (pipe_data r)) (pipe_end (pipe_data r))
      else Done (bufsize r))"

text \<open>The invariant of the reader: the cursor is inside what the last read stored.\<close>

definition reader_inv :: "reader \<Rightarrow> bool" where
  "reader_inv r \<longleftrightarrow>
     int (length (buf r)) = PIPE_BUF \<and> limit r = KERNEL_DS \<and>
     (case state r of
        BUF_OK \<Rightarrow> 0 \<le> offset r \<and> offset r \<le> bufsize r \<and> bufsize r \<le> PIPE_BUF
      | BUF_EOF \<Rightarrow> bufsize r = 0
      | BUF_ERR \<Rightarrow> bufsize r < 0)"

fun s_getchar :: "bool \<Rightarrow> stream \<Rightarrow> int \<times> stream" where
  "s_getchar sc (Live [] e) = (-1, Done e)"
| "s_getchar sc (Live (c # cs) e) = (char_to_int sc c, Live cs e)"
| "s_getchar sc (Done e) = (-1, Done e)"

lemma fd_err_stream: "reader_inv r \<Longrightarrow> fd_err r \<longleftrightarrow> (\<exists>e < 0. stream_of r = Done e)"
  by (auto simp: stream_of_def fd_err_def fd_ok_def reader_inv_def split: bufstate.splits)

lemma fd_eof_stream: "reader_inv r \<Longrightarrow> fd_eof r \<longleftrightarrow> stream_of r = Done 0"
  by (auto simp: stream_of_def fd_eof_def fd_ok_def reader_inv_def split: bufstate.splits)

lemma pipe_end_le_0: "pipe_end ps \<le> 0"
  by (induction ps rule: pipe_end.induct) auto

lemma stream_of_reset [simp]: "stream_of (parsebat_reset r) = pipe_stream (pipe_data r)"
  by (simp add: stream_of_def parsebat_reset_def fd_ok_def unread_def pipe_stream_def)

section \<open>The contract of the reader's operations\<close>

text \<open>
  An operation of the reader is correct when, from a state in which the invariant holds, it
  returns (no undefined access), keeps the invariant and computes the function \<open>spec\<close> on
  the stream.
\<close>

locale stream_op =
  fixes op :: "reader \<Rightarrow> ('a \<times> reader) outcome"
    and spec :: "stream \<Rightarrow> 'a \<times> stream"
  assumes refines:
    "reader_inv r \<Longrightarrow>
       \<exists>x r'. op r = Val (x, r') \<and> reader_inv r' \<and> spec (stream_of r) = (x, stream_of r')"
begin

lemma returns: "reader_inv r \<Longrightarrow> \<exists>x r'. op r = Val (x, r')"
  using refines by blast

lemma keeps_inv: "reader_inv r \<Longrightarrow> op r = Val (x, r') \<Longrightarrow> reader_inv r'"
  using refines [of r] by auto

lemma computes: "reader_inv r \<Longrightarrow> op r = Val (x, r') \<Longrightarrow> spec (stream_of r) = (x, stream_of r')"
  using refines [of r] by auto

lemma chunking:
  assumes "reader_inv r" "reader_inv q" "stream_of r = stream_of q"
    and "op r = Val (x, r')" "op q = Val (y, q')"
  shows "x = y \<and> stream_of r' = stream_of q'"
  using computes [of r x r'] computes [of q y q'] assms by simp

end

lemma take_char_unread:
  assumes "0 \<le> offset r" "offset r < bufsize r" "bufsize r \<le> int (length (buf r))"
  shows "\<exists>c. take_char sc r = Val (char_to_int sc c, r\<lparr>offset := offset r + 1\<rparr>) \<and>
    unread r = c # unread (r\<lparr>offset := offset r + 1\<rparr>)"
proof -
  let ?t = "take (nat (bufsize r)) (buf r)" and ?i = "nat (offset r)"
  have i: "?i < length ?t" using assms by auto
  then have "drop ?i ?t = ?t ! ?i # drop (Suc ?i) ?t"
    by (rule Cons_nth_drop_Suc [symmetric])
  moreover have "nat (offset r + 1) = Suc ?i" using assms by simp
  ultimately have "unread r = buf r ! ?i # unread (r\<lparr>offset := offset r + 1\<rparr>)"
    using i by (simp add: unread_def)
  moreover have "take_char sc r =
      Val (char_to_int sc (buf r ! ?i), r\<lparr>offset := offset r + 1\<rparr>)"
    using assms by (simp add: take_char_def array_get_def)
  ultimately show ?thesis by blast
qed

text \<open>A refilled buffer holds exactly the bytes the read moved out of the pipe.\<close>

lemma sys_read_refill:
  assumes inv: "reader_inv r" and rd: "sys_read r = (n, r1)" and n: "0 < n"
  shows "reader_inv (r1\<lparr>bufsize := n, offset := 0, state := BUF_OK\<rparr>) \<and>
    stream_of (r1\<lparr>bufsize := n, offset := 0, state := BUF_OK\<rparr>) = pipe_stream (pipe_data r)"
proof -
  from inv have len: "int (length (buf r)) = PIPE_BUF" and lim: "limit r = KERNEL_DS"
    by (auto simp: reader_inv_def)
  from rd n lim obtain bs ps where pd: "pipe_data r = Bytes bs # ps"
    by (auto simp: sys_read_def split: list.splits pending.splits)
  let ?got = "take (length (buf r)) bs" and ?left = "drop (length (buf r)) bs"
  from rd n lim pd have nn: "n = int (length ?got)" and bs: "bs \<noteq> []"
    and r1: "r1 = r\<lparr>buf := ?got @ drop (length ?got) (buf r),
             pipe_data := (if ?left = [] then ps else Bytes ?left # ps)\<rparr>"
    by (auto simp: sys_read_def Let_def split: if_splits)
  have "?got @ pipe_chars (if ?left = [] then ps else Bytes ?left # ps) = bs @ pipe_chars ps"
    by (cases "?left = []") (auto simp flip: append_assoc)
  moreover have "pipe_end (if ?left = [] then ps else Bytes ?left # ps) = pipe_end ps"
    by simp
  ultimately show ?thesis
    using len lim bs nn
    by (simp add: r1 pd pipe_stream_def stream_of_def unread_def fd_ok_def reader_inv_def)
qed

lemma sys_read_stop:
  assumes inv: "reader_inv r" and rd: "sys_read r = (n, r1)" and n: "n \<le> 0"
  shows "pipe_stream (pipe_data r) = Live [] n \<and> buf r1 = buf r \<and> limit r1 = limit r"
proof -
  from inv have len: "length (buf r) \<noteq> 0" and lim: "limit r = KERNEL_DS"
    by (auto simp: reader_inv_def PIPE_BUF_def)
  with rd n show ?thesis
    by (auto simp: sys_read_def pipe_stream_def Let_def
        split: if_splits list.splits pending.splits)
qed

lemma getchar_live:
  assumes inv: "reader_inv r" and ok: "fd_ok r" and lt: "offset r < bufsize r"
  shows "\<exists>c r'. getchar_from_fd sc r = Val (char_to_int sc c, r') \<and> reader_inv r' \<and> fd_ok r' \<and>
    r = r'\<lparr>offset := offset r' - 1\<rparr> \<and> s_getchar sc (stream_of r) = (char_to_int sc c, stream_of r')"
proof -
  let ?r' = "r\<lparr>offset := offset r + 1\<rparr>"
  from inv ok have b: "0 \<le> offset r" "bufsize r \<le> int (length (buf r))"
    by (auto simp: reader_inv_def fd_ok_def)
  then obtain c where c: "take_char sc r = Val (char_to_int sc c, ?r')"
    "unread r = c # unread ?r'"
    using take_char_unread [OF _ lt] by blast
  from lt ok c(1) have "getchar_from_fd sc r = Val (char_to_int sc c, ?r')"
    by (simp add: getchar_from_fd_def)
  moreover from inv ok lt have "reader_inv ?r'" by (auto simp: reader_inv_def fd_ok_def)
  moreover from c(2) ok have "s_getchar sc (stream_of r) = (char_to_int sc c, stream_of ?r')"
    by (simp add: stream_of_def fd_ok_def)
  ultimately show ?thesis using ok by (intro exI [of _ c] exI [of _ ?r']) (simp add: fd_ok_def)
qed

lemma getchar_from_fd_cases:
  assumes inv: "reader_inv r"
  shows "(\<exists>r'. getchar_from_fd sc r = Val (-1, r') \<and> reader_inv r' \<and> \<not> fd_ok r' \<and>
            s_getchar sc (stream_of r) = (-1, stream_of r')) \<or>
         (\<exists>c r'. getchar_from_fd sc r = Val (char_to_int sc c, r') \<and> reader_inv r' \<and> fd_ok r' \<and>
            reader_inv (r'\<lparr>offset := offset r' - 1\<rparr>) \<and>
            stream_of (r'\<lparr>offset := offset r' - 1\<rparr>) = stream_of r \<and>
            s_getchar sc (stream_of r) = (char_to_int sc c, stream_of r'))"
proof (cases "fd_ok r")
  case False
  with inv show ?thesis by (simp add: getchar_from_fd_def stream_of_def)
next
  case ok: True
  show ?thesis
  proof (cases "offset r = bufsize r")
    case False
    with inv ok have "offset r < bufsize r" by (auto simp: reader_inv_def fd_ok_def)
    from getchar_live [OF inv ok this, of sc] obtain c r' where
      "getchar_from_fd sc r = Val (char_to_int sc c, r')" "reader_inv r'" "fd_ok r'"
      "r = r'\<lparr>offset := offset r' - 1\<rparr>"
      "s_getchar sc (stream_of r) = (char_to_int sc c, stream_of r')" by blast
    then show ?thesis using inv by (intro disjI2 exI [of _ c] exI [of _ r']) simp
  next
    case full: True
    then have st: "stream_of r = pipe_stream (pipe_data r)"
      using ok by (simp add: stream_of_def unread_def pipe_stream_def)
    obtain n r1 where rd: "sys_read r = (n, r1)" by fastforce
    show ?thesis
    proof (cases "0 < n")
      case True
      let ?r2 = "r1\<lparr>bufsize := n, offset := 0, state := BUF_OK\<rparr>"
      from sys_read_refill [OF inv rd True] have r2: "reader_inv ?r2" "stream_of ?r2 = stream_of r"
        using st by simp_all
      have "state r1 = state r" using rd
        by (auto simp: sys_read_def Let_def split: if_splits list.splits pending.splits)
      with ok have same: "?r2 = r1\<lparr>bufsize := n, offset := 0\<rparr>" by (simp add: fd_ok_def)
      have eq: "getchar_from_fd sc r = getchar_from_fd sc ?r2"
        using ok full rd True by (simp add: getchar_from_fd_def Let_def same fd_ok_def
            \<open>state r1 = state r\<close>)
      have "fd_ok ?r2" "offset ?r2 < bufsize ?r2" using True by (simp_all add: fd_ok_def)
      from getchar_live [OF r2(1) this, of sc] obtain c r' where
        "getchar_from_fd sc ?r2 = Val (char_to_int sc c, r')" "reader_inv r'" "fd_ok r'"
        "?r2 = r'\<lparr>offset := offset r' - 1\<rparr>"
        "s_getchar sc (stream_of ?r2) = (char_to_int sc c, stream_of r')" by blast
      then show ?thesis using eq r2
        by (intro disjI2 exI [of _ c] exI [of _ r']) simp
    next
      case False
      with sys_read_stop [OF inv rd] have stop: "stream_of r = Live [] n" "buf r1 = buf r"
        "limit r1 = limit r" using st by simp_all
      let ?r2 = "r1\<lparr>bufsize := n, state := if n = 0 then BUF_EOF else BUF_ERR\<rparr>"
      have "getchar_from_fd sc r = Val (-1, ?r2)"
        using ok full rd False by (simp add: getchar_from_fd_def Let_def)
      moreover have "reader_inv ?r2" "stream_of ?r2 = Done n" "\<not> fd_ok ?r2"
        using inv stop False by (auto simp: reader_inv_def stream_of_def fd_ok_def)
      ultimately show ?thesis using stop by simp
    qed
  qed
qed

section \<open>The helpers as functions on the stream\<close>

primrec stream_chars :: "stream \<Rightarrow> string" where
  "stream_chars (Live cs e) = cs"
| "stream_chars (Done e) = []"

function s_to_newline :: "bool \<Rightarrow> stream \<Rightarrow> bool \<times> stream" where
  "s_to_newline sc (Done e) = (False, Done e)"
| "s_to_newline sc (Live [] e) = (False, Done e)"
| "s_to_newline sc (Live (c # cs) e) =
     (if char_to_int sc c = 10 then (True, Live cs e)
      else if char_to_int sc c = -1 then (False, Live cs e)
      else s_to_newline sc (Live cs e))"
  by pat_completeness auto
termination
  by (relation "measure (\<lambda>(sc, s). length (stream_chars s))") auto

fun s_skip_line :: "bool \<Rightarrow> nat \<Rightarrow> stream \<Rightarrow> unit \<times> stream" where
  "s_skip_line sc 0 s = ((), s)"
| "s_skip_line sc (Suc n) s =
     (case s_to_newline sc s of (found, s') \<Rightarrow> if found then s_skip_line sc n s' else ((), s'))"

function s_skip :: "(int \<Rightarrow> bool) \<Rightarrow> bool \<Rightarrow> stream \<Rightarrow> unit \<times> stream" where
  "s_skip p sc (Done e) = ((), Done e)"
| "s_skip p sc (Live [] e) = ((), Done e)"
| "s_skip p sc (Live (c # cs) e) =
     (if char_to_int sc c = -1 then ((), Live cs e)
      else if p (char_to_int sc c) then s_skip p sc (Live cs e)
      else ((), Live (c # cs) e))"
  by pat_completeness auto
termination
  by (relation "measure (\<lambda>(p, sc, s). length (stream_chars s))") auto

lemma s_to_newline_getchar:
  "s_to_newline sc s =
     (case s_getchar sc s of (ch, s') \<Rightarrow>
        if ch = 10 then (True, s') else if ch = -1 then (False, s') else s_to_newline sc s')"
  by (cases "(sc, s)" rule: s_getchar.cases) auto

lemma s_skip_getchar:
  "s_skip p sc s =
     (case s_getchar sc s of (ch, s') \<Rightarrow>
        if ch = -1 then ((), s') else if p ch then s_skip p sc s' else ((), s))"
  by (cases "(sc, s)" rule: s_getchar.cases) auto

lemma skip_to_newline_refines:
  "reader_inv r \<Longrightarrow> \<exists>x r'. skip_to_newline sc r = Val (x, r') \<and> reader_inv r' \<and>
     s_to_newline sc (stream_of r) = (x, stream_of r')"
proof (induction sc r rule: skip_to_newline.induct)
  case (1 sc r)
  from getchar_from_fd_cases [OF "1.prems", of sc] obtain ch r' where
    get: "getchar_from_fd sc r = Val (ch, r')" and inv: "reader_inv r'" and
    s: "s_getchar sc (stream_of r) = (ch, stream_of r')"
    by blast
  show ?case
  proof (cases "ch = 10 \<or> ch = -1")
    case True
    with get inv s show ?thesis
      by (subst skip_to_newline.simps, subst s_to_newline_getchar) auto
  next
    case False
    from "1.IH" [OF get refl _ _ inv] False obtain x q where
      "skip_to_newline sc r' = Val (x, q)" "reader_inv q"
      "s_to_newline sc (stream_of r') = (x, stream_of q)" by auto
    with False get s show ?thesis
      by (subst skip_to_newline.simps, subst s_to_newline_getchar) simp
  qed
qed

lemma skip_while_refines:
  "reader_inv r \<Longrightarrow> \<exists>ch r'. skip_while p sc r = Val (ch, r') \<and> reader_inv (step_back ch r') \<and>
     s_skip p sc (stream_of r) = ((), stream_of (step_back ch r'))"
proof (induction p sc r rule: skip_while.induct)
  case (1 p sc r)
  from getchar_from_fd_cases [OF "1.prems", of sc] obtain ch r' where
    get: "getchar_from_fd sc r = Val (ch, r')" and inv: "reader_inv r'" and
    s: "s_getchar sc (stream_of r) = (ch, stream_of r')" and
    undo: "ch \<noteq> -1 \<Longrightarrow> reader_inv (r'\<lparr>offset := offset r' - 1\<rparr>) \<and>
            stream_of (r'\<lparr>offset := offset r' - 1\<rparr>) = stream_of r"
    by blast
  show ?case
  proof (cases "ch \<noteq> -1 \<and> p ch")
    case False
    with get inv s undo show ?thesis
      by (subst skip_while.simps, subst s_skip_getchar) (auto simp: step_back_def)
  next
    case True
    from "1.IH" [OF get refl True inv] obtain x q where
      "skip_while p sc r' = Val (x, q)" "reader_inv (step_back x q)"
      "s_skip p sc (stream_of r') = ((), stream_of (step_back x q))" by auto
    with True get s show ?thesis
      by (subst skip_while.simps, subst s_skip_getchar) auto
  qed
qed

lemma skip_line_refines:
  "reader_inv r \<Longrightarrow> \<exists>x r'. skip_line sc n r = Val (x, r') \<and> reader_inv r' \<and>
     s_skip_line sc n (stream_of r) = (x, stream_of r')"
proof (induction n arbitrary: r)
  case (Suc n)
  from skip_to_newline_refines [OF Suc.prems, of sc] obtain x q where
    "skip_to_newline sc r = Val (x, q)" "reader_inv q"
    "s_to_newline sc (stream_of r) = (x, stream_of q)" by blast
  then show ?case using Suc.IH [of q] by (cases x) auto
qed auto

interpretation getchar_op: stream_op "getchar_from_fd sc" "s_getchar sc" for sc
  by unfold_locales (use getchar_from_fd_cases in blast)

interpretation line_op: stream_op "skip_line sc n" "s_skip_line sc n" for sc n
  by unfold_locales (rule skip_line_refines)

interpretation space_op: stream_op "skip_space sc" "s_skip isspace sc" for sc
  by unfold_locales
    (use skip_while_refines [of _ isspace sc] in \<open>force simp: skip_space_def\<close>)

interpretation nospace_op: stream_op "skip_nospace sc" "s_skip (\<lambda>ch. \<not> isspace ch) sc" for sc
  by unfold_locales
    (use skip_while_refines [of _ "\<lambda>ch. \<not> isspace ch" sc] in \<open>force simp: skip_nospace_def\<close>)

end
