(* ===== verification/Parsebat.thy ===== *)
theory Parsebat
  imports Parsebat_Reader
begin

text \<open>
  The system call \<open>parsebat\<close> of \<open>kernel/parsebat.c\<close> over the reader of
  \<open>Parsebat_Reader\<close>: one iteration of its loop (\<open>parse_device\<close>), the loop and the whole
  call with the two header lines and the saved address limit. Each is shown to compute a
  function on the stream of characters (\<open>s_device\<close>, \<open>s_parse_loop\<close>, \<open>s_parsebat\<close>), from
  which the properties follow.

  In the source the two \<open>break\<close> statements before the loop stand outside any loop, which a
  compiler rejects; the model reads them as the \<open>goto out\<close> of the branch above them.
\<close>

section \<open>The data\<close>

definition DEVINFO_MAX :: int where "DEVINFO_MAX = 256"
definition MAC_NAME_MAX :: int where "MAC_NAME_MAX = 18"
definition IP_NAME_MAX :: int where "IP_NAME_MAX = 16"

record devinfo =
  mac :: "char list"
  ip :: "char list"

definition devinfo_ok :: "devinfo \<Rightarrow> bool" where
  "devinfo_ok d \<longleftrightarrow> int (length (mac d)) = MAC_NAME_MAX \<and> int (length (ip d)) = IP_NAME_MAX"

section \<open>The system call\<close>

text \<open>
  The test after every helper: a read error ends the call with the error number that
  \<open>sys_read\<close> returned, the end of the data with \<open>at_eof\<close>.
\<close>

definition stopped :: "reader \<Rightarrow> int \<Rightarrow> int option" where
  "stopped r at_eof =
     (if fd_err r then Some (bufsize r) else if fd_eof r then Some at_eof else None)"

definition put_mac :: "devinfo list \<Rightarrow> int \<Rightarrow> int \<Rightarrow> char \<Rightarrow> devinfo list outcome" where
  "put_mac devs n i c =
     bind_out (array_get devs n) (\<lambda>d.
     bind_out (array_put (mac d) i c) (\<lambda>m.
     array_put devs n (d\<lparr>mac := m\<rparr>)))"

text \<open>The loop that copies the MAC address; a result \<open>Some k\<close> is \<open>ndev = k; goto out\<close>.\<close>

function read_mac ::
  "bool \<Rightarrow> int \<Rightarrow> int \<Rightarrow> devinfo list \<Rightarrow> reader \<Rightarrow> ((int option \<times> devinfo list) \<times> reader) outcome"
where
  "read_mac sc n i devs r =
     (if i < MAC_NAME_MAX - 1 then
        bind_out (getchar_from_fd sc r) (\<lambda>(ch, r).
        case stopped r (- EINVAL) of
          Some k \<Rightarrow> Val ((Some k, devs), r)
        | None \<Rightarrow>
            bind_out (put_mac devs n i (int_to_char ch)) (\<lambda>devs.
            read_mac sc n (i + 1) devs r))
      else Val ((None, devs), r))"
  by pat_completeness auto
termination
  by (relation "measure (\<lambda>(sc, n, i, devs, r). nat (MAC_NAME_MAX - i))") auto

declare read_mac.simps [simp del]

text \<open>
  One iteration of the loop for device number \<open>n\<close>: \<open>Some k\<close> leaves the loop with
  \<open>ndev = k\<close>, \<open>None\<close> goes on with \<open>n + 1\<close>.
\<close>

definition parse_device ::
  "bool \<Rightarrow> int \<Rightarrow> devinfo list \<Rightarrow> reader \<Rightarrow> ((int option \<times> devinfo list) \<times> reader) outcome"
where
  "parse_device sc n devs r =
     bind_out (skip_space sc r) (\<lambda>(u, r).
     case stopped r (- EINVAL) of Some k \<Rightarrow> Val ((Some k, devs), r) | None \<Rightarrow>
     bind_out (skip_nospace sc r) (\<lambda>(u, r).
     case stopped r (- EINVAL) of Some k \<Rightarrow> Val ((Some k, devs), r) | None \<Rightarrow>
     bind_out (skip_space sc r) (\<lambda>(u, r).
     case stopped r (- EINVAL) of Some k \<Rightarrow> Val ((Some k, devs), r) | None \<Rightarrow>
     bind_out (read_mac sc n 0 devs r) (\<lambda>((k, devs), r).
     case k of Some k \<Rightarrow> Val ((Some k, devs), r) | None \<Rightarrow>
     bind_out (put_mac devs n (MAC_NAME_MAX - 1) NUL) (\<lambda>devs.
     bind_out (skip_line sc 1 r) (\<lambda>(u, r).
     bind_out (getchar_from_fd sc r) (\<lambda>(ch, r).
     Val ((stopped r (n + 1), devs), r))))))))"

function parse_loop ::
  "bool \<Rightarrow> int \<Rightarrow> int \<Rightarrow> devinfo list \<Rightarrow> reader \<Rightarrow> ((int \<times> devinfo list) \<times> reader) outcome"
where
  "parse_loop sc maxdev n devs r =
     (if n < maxdev then
        bind_out (parse_device sc n devs r) (\<lambda>((k, devs), r).
        case k of Some k \<Rightarrow> Val ((k, devs), r) | None \<Rightarrow> parse_loop sc maxdev (n + 1) devs r)
      else Val ((n, devs), r))"
  by pat_completeness auto
termination
  by (relation "measure (\<lambda>(sc, maxdev, n, devs, r). nat (maxdev - n))") auto

declare parse_loop.simps [simp del]

definition parse_body ::
  "bool \<Rightarrow> int \<Rightarrow> devinfo list \<Rightarrow> reader \<Rightarrow> ((int \<times> devinfo list) \<times> reader) outcome"
where
  "parse_body sc maxdev devs r =
     bind_out (skip_line sc 2 r) (\<lambda>(u, r).
     case stopped r 0 of Some k \<Rightarrow> Val ((k, devs), r) | None \<Rightarrow>
     bind_out (getchar_from_fd sc r) (\<lambda>(ch, r).
     case stopped r 0 of Some k \<Rightarrow> Val ((k, devs), r) | None \<Rightarrow>
     parse_loop sc maxdev 0 devs r))"

text \<open>The whole call: the address limit is saved, raised, and put back at \<open>out:\<close>.\<close>

definition sys_parsebat ::
  "bool \<Rightarrow> int \<Rightarrow> devinfo list \<Rightarrow> reader \<Rightarrow> ((int \<times> devinfo list) \<times> reader) outcome"
where
  "sys_parsebat sc maxdev devs r =
     (let oldfs = limit r in
      bind_out (parse_body sc maxdev devs ((parsebat_reset r)\<lparr>limit := KERNEL_DS\<rparr>))
        (\<lambda>(res, r'). Val (res, r'\<lparr>limit := oldfs\<rparr>)))"

section \<open>The call only takes bytes out of the pipe\<close>

lemma read_mac_drains [drains]:
  "read_mac sc n i devs r = Val ((k, devs'), r') \<Longrightarrow> outstanding r' \<le> outstanding r"
proof (induction sc n i devs r rule: read_mac.induct)
  case (1 sc n i devs r)
  show ?case
  proof (cases "i < MAC_NAME_MAX - 1")
    case True
    with "1.prems" obtain ch q where q: "getchar_from_fd sc r = Val (ch, q)"
      by (subst (asm) read_mac.simps) (auto simp: outcome_simps)
    show ?thesis
    proof (cases "stopped q (- EINVAL)")
      case None
      with True "1.prems" q obtain devs1 where p: "put_mac devs n i (int_to_char ch) = Val devs1"
        "read_mac sc n (i + 1) devs1 q = Val ((k, devs'), r')"
        by (subst (asm) read_mac.simps) (auto simp: outcome_simps)
      from "1.IH" [OF True q refl None p] getchar_drains [OF q] show ?thesis by simp
    next
      case (Some c)
      with True "1.prems" q have "r' = q" by (subst (asm) read_mac.simps) simp
      with getchar_drains [OF q] show ?thesis by simp
    qed
  next
    case False
    with "1.prems" show ?thesis by (subst (asm) read_mac.simps) simp
  qed
qed

lemma parse_device_drains [drains]:
  "parse_device sc n devs r = Val ((k, devs'), r') \<Longrightarrow> outstanding r' \<le> outstanding r"
  by (auto simp: parse_device_def outcome_simps simp del: skip_line.simps split: option.splits dest!: drains)

lemma parse_loop_drains [drains]:
  "parse_loop sc maxdev n devs r = Val ((k, devs'), r') \<Longrightarrow> outstanding r' \<le> outstanding r"
proof (induction sc maxdev n devs r rule: parse_loop.induct)
  case (1 sc maxdev n devs r)
  show ?case
  proof (cases "n < maxdev")
    case True
    with "1.prems" obtain c devs1 q where q: "parse_device sc n devs r = Val ((c, devs1), q)"
      by (subst (asm) parse_loop.simps) (auto simp: outcome_simps)
    with True "1.prems" have "r' = q \<or> c = None \<and> parse_loop sc maxdev (n + 1) devs1 q = Val ((k, devs'), r')"
      by (subst (asm) parse_loop.simps) (auto split: option.splits)
    with "1.IH" [OF True q refl refl] parse_device_drains [OF q] show ?thesis by (auto intro: order_trans)
  next
    case False
    with "1.prems" show ?thesis by (subst (asm) parse_loop.simps) simp
  qed
qed

lemma sys_parsebat_drains:
  "sys_parsebat sc maxdev devs r = Val ((k, devs'), r') \<Longrightarrow> outstanding r' \<le> outstanding r"
  by (auto simp: sys_parsebat_def parse_body_def parsebat_reset_def Let_def outcome_simps
      simp del: skip_line.simps split: option.splits dest!: drains)

section \<open>The call as a function on the stream\<close>

definition s_stopped :: "stream \<Rightarrow> int \<Rightarrow> int option" where
  "s_stopped s at_eof =
     (case s of Done e \<Rightarrow> Some (if e = 0 then at_eof else e) | Live cs e \<Rightarrow> None)"

fun s_take :: "nat \<Rightarrow> stream \<Rightarrow> string \<times> stream" where
  "s_take 0 s = ([], s)"
| "s_take (Suc k) (Done e) = ([], Done e)"
| "s_take (Suc k) (Live [] e) = ([], Done e)"
| "s_take (Suc k) (Live (c # cs) e) = (case s_take k (Live cs e) of (w, s) \<Rightarrow> (c # w, s))"

text \<open>Bytes \<open>i\<close>, \<open>i + 1\<close>, \dots of the address of device \<open>n\<close> become \<open>w\<close>.\<close>

definition write_mac_at :: "nat \<Rightarrow> nat \<Rightarrow> string \<Rightarrow> devinfo list \<Rightarrow> devinfo list" where
  "write_mac_at n i w devs =
     devs[n := (devs ! n)\<lparr>mac := take i (mac (devs ! n)) @ w @ drop (i + length w) (mac (devs ! n))\<rparr>]"

abbreviation write_mac :: "nat \<Rightarrow> string \<Rightarrow> devinfo list \<Rightarrow> devinfo list" where
  "write_mac n w devs \<equiv> write_mac_at n 0 w devs"

text \<open>Copying \<open>k\<close> characters: what was copied, and why it stopped before the last one.\<close>

definition s_copy :: "nat \<Rightarrow> stream \<Rightarrow> (int option \<times> string) \<times> stream" where
  "s_copy k s =
     (case s_take k s of (w, s') \<Rightarrow>
        ((if length w = k then None else s_stopped s' (- EINVAL), w), s'))"

text \<open>One iteration on the stream: where it stops, and what it wrote into the address.\<close>

definition s_device :: "bool \<Rightarrow> int \<Rightarrow> stream \<Rightarrow> (int option \<times> string) \<times> stream" where
  "s_device sc n s0 =
     (case s_skip isspace sc s0 of (u, s1) \<Rightarrow>
      case s_stopped s1 (- EINVAL) of Some k \<Rightarrow> ((Some k, []), s1) | None \<Rightarrow>
      case s_skip (\<lambda>ch. \<not> isspace ch) sc s1 of (u, s2) \<Rightarrow>
      case s_stopped s2 (- EINVAL) of Some k \<Rightarrow> ((Some k, []), s2) | None \<Rightarrow>
      case s_skip isspace sc s2 of (u, s3) \<Rightarrow>
      case s_stopped s3 (- EINVAL) of Some k \<Rightarrow> ((Some k, []), s3) | None \<Rightarrow>
      case s_copy 17 s3 of ((k, w), s4) \<Rightarrow>
      case k of Some k \<Rightarrow> ((Some k, w), s4) | None \<Rightarrow>
      case s_skip_line sc 1 s4 of (u, s5) \<Rightarrow>
      case s_getchar sc s5 of (ch, s6) \<Rightarrow> ((s_stopped s6 (n + 1), w @ [NUL]), s6))"

function s_parse_loop :: "bool \<Rightarrow> int \<Rightarrow> int \<Rightarrow> stream \<Rightarrow> (int \<times> string list) \<times> stream" where
  "s_parse_loop sc maxdev n s =
     (if n < maxdev then
        (case s_device sc n s of ((k, w), s) \<Rightarrow>
         case k of
           Some k \<Rightarrow> ((k, [w]), s)
         | None \<Rightarrow> (case s_parse_loop sc maxdev (n + 1) s of ((k, ws), s) \<Rightarrow> ((k, w # ws), s)))
      else ((n, []), s))"
  by pat_completeness auto
termination
  by (relation "measure (\<lambda>(sc, maxdev, n, s). nat (maxdev - n))") auto

declare s_parse_loop.simps [simp del]

definition s_parsebat :: "bool \<Rightarrow> int \<Rightarrow> stream \<Rightarrow> (int \<times> string list) \<times> stream" where
  "s_parsebat sc maxdev s0 =
     (case s_skip_line sc 2 s0 of (u, s1) \<Rightarrow>
      case s_stopped s1 0 of Some k \<Rightarrow> ((k, []), s1) | None \<Rightarrow>
      case s_getchar sc s1 of (ch, s2) \<Rightarrow>
      case s_stopped s2 0 of Some k \<Rightarrow> ((k, []), s2) | None \<Rightarrow>
      s_parse_loop sc maxdev 0 s2)"

fun write_macs :: "nat \<Rightarrow> string list \<Rightarrow> devinfo list \<Rightarrow> devinfo list" where
  "write_macs n [] devs = devs"
| "write_macs n (w # ws) devs = write_macs (Suc n) ws (write_mac n w devs)"

section \<open>The call refines its stream function\<close>

lemma stopped_stream: "reader_inv r \<Longrightarrow> stopped r k = s_stopped (stream_of r) k"
  by (cases "state r")
    (auto simp: stopped_def s_stopped_def stream_of_def fd_ok_def fd_err_def fd_eof_def reader_inv_def)

lemma stream_op_return: "stream_op (\<lambda>r. Val (x, r)) (\<lambda>s. (x, s))"
  by unfold_locales simp

lemma stream_op_bind:
  assumes f: "stream_op f F" and g: "\<And>s x s'. F s = (x, s') \<Longrightarrow> stream_op (g x) (G x)"
  shows "stream_op (\<lambda>r. bind_out (f r) (\<lambda>(x, r). g x r)) (\<lambda>s. case F s of (x, s) \<Rightarrow> G x s)"
proof
  fix r assume "reader_inv r"
  from stream_op.refines [OF f this] obtain x r' where
    f': "f r = Val (x, r')" "reader_inv r'" "F (stream_of r) = (x, stream_of r')" by blast
  from stream_op.refines [OF g [OF f'(3)] f'(2)] f'
  show "\<exists>x r'. bind_out (f r) (\<lambda>(x, r). g x r) = Val (x, r') \<and> reader_inv r' \<and>
      (case F (stream_of r) of (x, s) \<Rightarrow> G x s) = (x, stream_of r')" by simp
qed

lemma stream_op_stopped:
  assumes "stream_op g G"
  shows "stream_op (\<lambda>r. case stopped r k of Some c \<Rightarrow> Val (h c, r) | None \<Rightarrow> g r)
    (\<lambda>s. case s_stopped s k of Some c \<Rightarrow> (h c, s) | None \<Rightarrow> G s)"
  using stream_op.refines [OF assms] by unfold_locales (simp add: stopped_stream split: option.split)

lemma int_to_char_to_int [simp]: "int_to_char (char_to_int sc c) = c"
proof -
  have "char_to_int sc c mod 256 = of_char c" by (simp add: char_to_int_def)
  moreover have "nat (of_char c :: int) = of_char c"
    by (metis nat_int of_nat_of_char)
  ultimately show ?thesis by (simp add: int_to_char_def)
qed

definition devs_ok :: "int \<Rightarrow> devinfo list \<Rightarrow> bool" where
  "devs_ok maxdev devs \<longleftrightarrow> maxdev \<le> int (length devs) \<and> (\<forall>d \<in> set devs. devinfo_ok d)"

lemma write_mac_at_ok:
  assumes "devs_ok m devs" "n < length devs" "i + length w \<le> 18"
  shows "devs_ok m (write_mac_at n i w devs)"
proof -
  from assms have "length (mac (devs ! n)) = 18" "devinfo_ok (devs ! n)"
    by (auto simp: devs_ok_def devinfo_ok_def MAC_NAME_MAX_def)
  then have "devinfo_ok ((devs ! n)\<lparr>mac := take i (mac (devs ! n)) @ w @
      drop (i + length w) (mac (devs ! n))\<rparr>)"
    using assms(3) by (simp add: devinfo_ok_def MAC_NAME_MAX_def)
  with assms(1) show ?thesis
    by (auto simp: devs_ok_def write_mac_at_def dest!: subsetD [OF set_update_subset_insert])
qed

lemma write_mac_at_length [simp]: "length (write_mac_at n i w devs) = length devs"
  by (simp add: write_mac_at_def)

lemma write_mac_at_Nil [simp]: "write_mac_at n i [] devs = devs"
  by (simp add: write_mac_at_def)

lemma write_mac_at_append:
  assumes "n < length devs" "i + length v + length w \<le> length (mac (devs ! n))"
  shows "write_mac_at n (i + length v) w (write_mac_at n i v devs) = write_mac_at n i (v @ w) devs"
  using assms by (simp add: write_mac_at_def ac_simps)

lemma put_mac_eq:
  assumes "devs_ok m devs" "n < length devs" "i < 18"
  shows "put_mac devs (int n) (int i) c = Val (write_mac_at n i [c] devs)"
proof -
  from assms have "i < length (mac (devs ! n))"
    by (auto simp: devs_ok_def devinfo_ok_def MAC_NAME_MAX_def)
  with assms(2) show ?thesis
    by (simp add: put_mac_def write_mac_at_def upd_conv_take_nth_drop)
qed

lemma s_take_length: "s_take k s = (w, s') \<Longrightarrow> length w \<le> k"
  by (induction k s arbitrary: w s' rule: s_take.induct) (auto split: prod.splits)

lemma s_take_getchar:
  "s_take (Suc k) s =
     (case s_getchar sc s of (ch, s') \<Rightarrow>
        case s' of Done e \<Rightarrow> ([], s')
        | Live cs e \<Rightarrow> (case s_take k s' of (w, s) \<Rightarrow> (int_to_char ch # w, s)))"
  by (cases "(sc, s)" rule: s_getchar.cases) auto

lemma read_mac_op:
  "devs_ok m devs \<Longrightarrow> n < length devs \<Longrightarrow> i + k = 17 \<Longrightarrow>
   stream_op (read_mac sc (int n) (int i) devs)
     (\<lambda>s. case s_copy k s of ((c, w), s) \<Rightarrow> ((c, write_mac_at n i w devs), s))"
proof (induction k arbitrary: i devs)
  case 0
  then show ?case
    by (subst read_mac.simps) (simp add: s_copy_def MAC_NAME_MAX_def stream_op_return)
next
  case (Suc k)
  from Suc.prems have i: "int i < MAC_NAME_MAX - 1" "i < 18" by (auto simp: MAC_NAME_MAX_def)
  have m: "length (mac (devs ! n)) = 18"
    using Suc.prems by (auto simp: devs_ok_def devinfo_ok_def MAC_NAME_MAX_def)
  show ?case
  proof
    fix r assume inv: "reader_inv r"
    obtain ch q where get: "getchar_from_fd sc r = Val (ch, q)" using getchar_op.returns [OF inv] by blast
    note q = getchar_op.keeps_inv [OF inv get] and s = getchar_op.computes [OF inv get]
    let ?devs = "write_mac_at n i [int_to_char ch] devs"
    show "\<exists>x r'. read_mac sc (int n) (int i) devs r = Val (x, r') \<and> reader_inv r' \<and>
        (case s_copy (Suc k) (stream_of r) of ((c, w), s) \<Rightarrow> ((c, write_mac_at n i w devs), s)) =
        (x, stream_of r')"
    proof (cases "stream_of q")
      case (Done e)
      with get q s i Suc.prems show ?thesis
        by (subst read_mac.simps)
          (simp add: stopped_stream s_stopped_def s_copy_def s_take_getchar [where sc = sc])
    next
      case (Live cs e)
      have dev: "devs_ok m ?devs" using Suc.prems by (intro write_mac_at_ok) simp_all
      have "stream_op (read_mac sc (int n) (int i + 1) ?devs)
          (\<lambda>s. case s_copy k s of ((c, w), s) \<Rightarrow> ((c, write_mac_at n (Suc i) w ?devs), s))"
        using Suc.IH [OF dev, of "Suc i"] Suc.prems by (simp add: add.commute)
      from stream_op.refines [OF this q] obtain x r' where
        rec: "read_mac sc (int n) (int i + 1) ?devs q = Val (x, r')" "reader_inv r'"
        "(case s_copy k (stream_of q) of ((c, w), s) \<Rightarrow> ((c, write_mac_at n (Suc i) w ?devs), s)) =
           (x, stream_of r')" by blast
      obtain w s' where tk: "s_take k (stream_of q) = (w, s')" by fastforce
      have "length w \<le> k" using s_take_length [OF tk] .
      then have "write_mac_at n (Suc i) w ?devs = write_mac_at n i (int_to_char ch # w) devs"
        using write_mac_at_append [of n devs i "[int_to_char ch]" w] Suc.prems m by simp
      then show ?thesis
        using get q s i Live rec Suc.prems tk
        by (subst read_mac.simps)
          (auto simp: stopped_stream s_stopped_def s_copy_def s_take_getchar [where sc = sc]
            put_mac_eq [where m = m])
    qed
  qed
qed

lemma s_take_live: "s_take k s = (w, Live cs e) \<Longrightarrow> length w = k"
  by (induction k s arbitrary: w rule: s_take.induct) (auto split: prod.splits)

lemma s_copy_length: "s_copy k s = ((c, w), s') \<Longrightarrow> length w \<le> k \<and> (c = None \<longrightarrow> length w = k)"
  by (auto simp: s_copy_def s_stopped_def split: prod.splits if_splits stream.splits
      dest: s_take_length s_take_live)

lemma stream_op_cong:
  "(\<And>r. op r = op' r) \<Longrightarrow> (\<And>s. spec s = spec' s) \<Longrightarrow> stream_op op' spec' \<Longrightarrow> stream_op op spec"
  by (simp add: stream_op_def)

text \<open>The end of an iteration: terminate the address, skip the line, look one character ahead.\<close>

lemma finish_device_op:
  assumes "devs_ok m devs" "n < length devs"
  shows "stream_op
    (\<lambda>r. bind_out (put_mac devs (int n) (MAC_NAME_MAX - 1) NUL) (\<lambda>devs.
      bind_out (skip_line sc 1 r) (\<lambda>(u, r). bind_out (getchar_from_fd sc r) (\<lambda>(ch, r).
      Val ((stopped r (int n + 1), devs), r)))))
    (\<lambda>s. case s_skip_line sc 1 s of (u, s) \<Rightarrow> case s_getchar sc s of (ch, s) \<Rightarrow>
      ((s_stopped s (int n + 1), write_mac_at n 17 [NUL] devs), s))"
proof
  fix r assume inv: "reader_inv r"
  obtain u q where q: "skip_line sc 1 r = Val (u, q)" using line_op.returns [OF inv] by blast
  note qi = line_op.keeps_inv [OF inv q] and qs = line_op.computes [OF inv q]
  obtain ch p where p: "getchar_from_fd sc q = Val (ch, p)" using getchar_op.returns [OF qi] by blast
  note pi = getchar_op.keeps_inv [OF qi p] and ps = getchar_op.computes [OF qi p]
  from put_mac_eq [OF assms, of 17 NUL] q qi qs p pi ps
  show "\<exists>x r'. bind_out (put_mac devs (int n) (MAC_NAME_MAX - 1) NUL) (\<lambda>devs.
      bind_out (skip_line sc 1 r) (\<lambda>(u, r). bind_out (getchar_from_fd sc r) (\<lambda>(ch, r).
      Val ((stopped r (int n + 1), devs), r)))) = Val (x, r') \<and> reader_inv r' \<and>
      (case s_skip_line sc 1 (stream_of r) of (u, s) \<Rightarrow> case s_getchar sc s of (ch, s) \<Rightarrow>
      ((s_stopped s (int n + 1), write_mac_at n 17 [NUL] devs), s)) = (x, stream_of r')"
    by (simp add: MAC_NAME_MAX_def stopped_stream)
qed

lemma parse_device_op:
  assumes ok: "devs_ok m devs" and n: "n < length devs"
  shows "stream_op (parse_device sc (int n) devs)
    (\<lambda>s. case s_device sc (int n) s of ((k, w), s) \<Rightarrow> ((k, write_mac n w devs), s))"
proof -
  have len: "length (mac (devs ! n)) = 18"
    using assms by (auto simp: devs_ok_def devinfo_ok_def MAC_NAME_MAX_def)
  have tail: "stream_op
     (\<lambda>r. case fst x of Some k \<Rightarrow> Val ((Some k, snd x), r) | None \<Rightarrow>
        bind_out (put_mac (snd x) (int n) (MAC_NAME_MAX - 1) NUL) (\<lambda>devs.
        bind_out (skip_line sc 1 r) (\<lambda>(u, r). bind_out (getchar_from_fd sc r) (\<lambda>(ch, r).
        Val ((stopped r (int n + 1), devs), r)))))
     (\<lambda>s. case fst x of Some k \<Rightarrow> ((Some k, snd x), s) | None \<Rightarrow>
        case s_skip_line sc 1 s of (u, s) \<Rightarrow> case s_getchar sc s of (ch, s) \<Rightarrow>
        ((s_stopped s (int n + 1), write_mac_at n 17 [NUL] (snd x)), s))"
    if "(case s_copy 17 s of ((c, w), s) \<Rightarrow> ((c, write_mac_at n 0 w devs), s)) = (x, s')" for s s' x
  proof -
    from that obtain w where w: "snd x = write_mac n w devs" "length w \<le> 17"
      using s_copy_length by (fastforce split: prod.splits)
    then have "devs_ok m (snd x)" using ok n by (simp add: write_mac_at_ok)
    then show ?thesis
      using finish_device_op [of m "snd x" n sc] n w
      by (cases "fst x") (simp_all add: stream_op_return)
  qed
  have end_mac: "write_mac_at n 17 [NUL] (write_mac n w devs) = write_mac n (w @ [NUL]) devs"
    if "s_copy 17 s = ((None, w), s')" for s s' w
    using s_copy_length [OF that] write_mac_at_append [of n devs 0 w "[NUL]"] n len by simp
  note stop = stream_op_stopped [where k = "- EINVAL" and h = "\<lambda>k. (Some k, devs)"]
  show ?thesis
    apply (rule stream_op_cong [OF _ _ stream_op_bind [OF space_op.stream_op_axioms [of sc]
      stop [OF stream_op_bind [OF nospace_op.stream_op_axioms [of sc]
      stop [OF stream_op_bind [OF space_op.stream_op_axioms [of sc]
      stop [OF stream_op_bind [OF read_mac_op [OF ok n, of 0 17 sc] tail]]]]]]]])
       prefer 4 apply assumption
      apply (simp add: parse_device_def split_beta' cong: option.case_cong)
     apply (auto simp: s_device_def end_mac split: prod.splits option.splits)
    done
qed

lemma s_device_length: "s_device sc n s = ((k, w), s') \<Longrightarrow> length w \<le> 18"
  by (auto simp: s_device_def split: prod.splits option.splits dest!: s_copy_length)

lemma parse_loop_op:
  "devs_ok maxdev devs \<Longrightarrow>
   stream_op (parse_loop sc maxdev (int n) devs)
     (\<lambda>s. case s_parse_loop sc maxdev (int n) s of ((k, ws), s) \<Rightarrow> ((k, write_macs n ws devs), s))"
proof (induction "nat (maxdev - int n)" arbitrary: n devs)
  case 0
  then have "\<not> int n < maxdev" by simp
  then show ?case by (subst parse_loop.simps, subst s_parse_loop.simps) (simp add: stream_op_return)
next
  case (Suc j)
  then have n: "int n < maxdev" and len: "n < length devs" by (auto simp: devs_ok_def)
  show ?case
  proof
    fix r assume inv: "reader_inv r"
    note dev = parse_device_op [OF Suc.prems len, of sc]
    obtain k w s where d: "s_device sc (int n) (stream_of r) = ((k, w), s)" by (metis prod.exhaust)
    from stream_op.refines [OF dev inv] d obtain q where
      q: "parse_device sc (int n) devs r = Val ((k, write_mac n w devs), q)"
        "reader_inv q" "stream_of q = s" by auto
    have ok: "devs_ok maxdev (write_mac n w devs)"
      using s_device_length [OF d] Suc.prems len by (intro write_mac_at_ok) auto
    have "j = nat (maxdev - int (Suc n))" using Suc.hyps(2) by linarith
    from Suc.hyps(1) [OF this ok]
    have "stream_op (parse_loop sc maxdev (int n + 1) (write_mac n w devs))
      (\<lambda>s. case s_parse_loop sc maxdev (int n + 1) s of
        ((k, ws), s) \<Rightarrow> ((k, write_macs (Suc n) ws (write_mac n w devs)), s))"
      by (simp add: add.commute)
    from stream_op.refines [OF this q(2)] q n d
    show "\<exists>x r'. parse_loop sc maxdev (int n) devs r = Val (x, r') \<and> reader_inv r' \<and>
        (case s_parse_loop sc maxdev (int n) (stream_of r) of
          ((k, ws), s) \<Rightarrow> ((k, write_macs n ws devs), s)) = (x, stream_of r')"
      by (cases k; subst parse_loop.simps; subst s_parse_loop.simps)
        (auto split: prod.splits)
  qed
qed

lemma parse_body_op:
  assumes "devs_ok maxdev devs"
  shows "stream_op (parse_body sc maxdev devs)
    (\<lambda>s. case s_parsebat sc maxdev s of ((k, ws), s) \<Rightarrow> ((k, write_macs 0 ws devs), s))"
proof -
  note stop = stream_op_stopped [where k = 0 and h = "\<lambda>k. (k, devs)"]
  from parse_loop_op [OF assms, of sc 0]
  have loop: "stream_op (parse_loop sc maxdev 0 devs)
    (\<lambda>s. case s_parse_loop sc maxdev 0 s of ((k, ws), s) \<Rightarrow> ((k, write_macs 0 ws devs), s))"
    by simp
  show ?thesis
    by (rule stream_op_cong [OF _ _ stream_op_bind [OF line_op.stream_op_axioms [of sc 2]
      stop [OF stream_op_bind [OF getchar_op.stream_op_axioms [of sc] stop [OF loop]]]]])
      (auto simp: parse_body_def s_parsebat_def split_beta' cong: option.case_cong
        split: prod.splits option.splits)
qed

text \<open>
  The call as a whole, from any state of the static variables and whatever the caller's
  address limit is.
\<close>

definition buf_ok :: "reader \<Rightarrow> bool" where
  "buf_ok r \<longleftrightarrow> int (length (buf r)) = PIPE_BUF"

lemma sys_parsebat_stream:
  assumes "buf_ok r" and "devs_ok maxdev devs"
    and "s_parsebat sc maxdev (pipe_stream (pipe_data r)) = ((k, ws), s)"
  shows "\<exists>r'. sys_parsebat sc maxdev devs r = Val ((k, write_macs 0 ws devs), r') \<and>
    limit r' = limit r \<and> stream_of r' = s \<and> reader_inv (r'\<lparr>limit := KERNEL_DS\<rparr>)"
proof -
  let ?r = "(parsebat_reset r)\<lparr>limit := KERNEL_DS\<rparr>"
  have inv: "reader_inv ?r" using assms(1)
    by (simp add: reader_inv_def parsebat_reset_def buf_ok_def PIPE_BUF_def)
  have "stream_of ?r = pipe_stream (pipe_data r)"
    by (simp add: stream_of_def parsebat_reset_def fd_ok_def unread_def pipe_stream_def)
  with stream_op.refines [OF parse_body_op [OF assms(2), of sc] inv] assms(3) obtain q where
    "parse_body sc maxdev devs ?r = Val ((k, write_macs 0 ws devs), q)" "reader_inv q"
    "stream_of q = s" by auto
  then show ?thesis
    by (auto simp: sys_parsebat_def stream_of_def unread_def fd_ok_def reader_inv_def
        split: bufstate.splits)
qed

section \<open>What the call writes\<close>

lemma write_macs_length [simp]: "length (write_macs n ws devs) = length devs"
  by (induction n ws devs rule: write_macs.induct) auto

lemma write_macs_nth:
  "n + length ws \<le> length devs \<Longrightarrow> write_macs n ws devs ! j =
     (if n \<le> j \<and> j < n + length ws
      then (devs ! j)\<lparr>mac := ws ! (j - n) @ drop (length (ws ! (j - n))) (mac (devs ! j))\<rparr>
      else devs ! j)"
proof (induction n ws devs arbitrary: j rule: write_macs.induct)
  case (2 n w ws devs)
  have "write_mac n w devs ! j =
      (if j = n then (devs ! j)\<lparr>mac := w @ drop (length w) (mac (devs ! j))\<rparr> else devs ! j)"
    using "2.prems" by (simp add: write_mac_at_def)
  moreover have "Suc n \<le> j \<Longrightarrow> j - n = Suc (j - Suc n)" by simp
  ultimately show ?case using "2.IH" [of j] "2.prems" by (auto simp: not_less_eq_eq)
qed auto

primrec stream_end :: "stream \<Rightarrow> int" where
  "stream_end (Live cs e) = e"
| "stream_end (Done e) = e"

lemma s_getchar_end: "s_getchar sc s = (ch, s') \<Longrightarrow> stream_end s' = stream_end s"
  by (cases "(sc, s)" rule: s_getchar.cases) auto

lemma s_to_newline_end: "s_to_newline sc s = (x, s') \<Longrightarrow> stream_end s' = stream_end s"
  by (induction sc s rule: s_to_newline.induct) (auto split: if_splits)

lemma s_skip_line_end: "s_skip_line sc n s = (u, s') \<Longrightarrow> stream_end s' = stream_end s"
  by (induction n arbitrary: s) (auto split: prod.splits if_splits dest!: s_to_newline_end)

lemma s_skip_end: "s_skip p sc s = (u, s') \<Longrightarrow> stream_end s' = stream_end s"
  by (induction p sc s rule: s_skip.induct) (auto split: if_splits)

lemma s_take_end: "s_take k s = (w, s') \<Longrightarrow> stream_end s' = stream_end s"
  by (induction k s arbitrary: w rule: s_take.induct) (auto split: prod.splits)

lemma s_copy_end: "s_copy k s = (x, s') \<Longrightarrow> stream_end s' = stream_end s"
  by (auto simp: s_copy_def split: prod.splits dest: s_take_end)

lemmas stream_ends = s_getchar_end s_skip_line_end s_skip_end s_copy_end

text \<open>
  The contract of one iteration: it goes on, or stops with the next count at the end of the
  data, or with the error number of a failed read, or with \<open>-EINVAL\<close> inside a record.
\<close>

lemma s_device_end: "s_device sc n s = (x, s') \<Longrightarrow> stream_end s' = stream_end s"
  by (auto simp: s_device_def simp del: s_skip_line.simps
      split: prod.splits option.splits dest!: stream_ends)

lemma s_device_result:
  assumes "s_device sc n s = ((k, w), s')" and "stream_end s \<le> 0"
  shows "(k = None \<longrightarrow> (\<exists>cs e. s' = Live cs e) \<and> (\<exists>v. w = v @ [NUL] \<and> length v = 17)) \<and>
    (\<forall>i. k = Some i \<longrightarrow> (i = n + 1 \<and> s' = Done 0 \<and> (\<exists>v. w = v @ [NUL] \<and> length v = 17)) \<or>
       (i < 0 \<and> s' = Done i) \<or> (i = - EINVAL \<and> s' = Done 0))"
proof -
  from s_device_end [OF assms(1)] assms(2) have "\<And>e. s' = Done e \<Longrightarrow> e \<le> 0" by auto
  with assms(1) show ?thesis
    by (auto simp: s_device_def s_stopped_def s_copy_def simp del: s_skip_line.simps
        split: prod.splits option.splits stream.splits if_splits dest: s_take_live)
qed

abbreviation full_macs :: "string list \<Rightarrow> bool" where
  "full_macs ws \<equiv> (\<forall>w \<in> set ws. \<exists>v. w = v @ [NUL] \<and> length v = 17)"

lemma s_parse_loop_result:
  "s_parse_loop sc maxdev n s = ((k, ws), s') \<Longrightarrow> stream_end s \<le> 0 \<Longrightarrow> 0 \<le> n \<Longrightarrow> n \<le> maxdev \<Longrightarrow>
     (\<exists>cs e. s = Live cs e) \<Longrightarrow>
     stream_end s' = stream_end s \<and> n + int (length ws) \<le> maxdev \<and> (\<forall>w \<in> set ws. length w \<le> 18) \<and>
     (0 \<le> k \<and> k = n + int (length ws) \<and> full_macs ws \<and> (\<forall>e. s' = Done e \<longrightarrow> e = 0) \<or>
      k < 0 \<and> s' = Done k \<or> k = - EINVAL \<and> s' = Done 0)"
proof (induction sc maxdev n s arbitrary: k ws s' rule: s_parse_loop.induct)
  case (1 sc maxdev n s)
  show ?case
  proof (cases "n < maxdev")
    case False
    with "1.prems" show ?thesis by (subst (asm) s_parse_loop.simps) auto
  next
    case True
    obtain c w t where d: "s_device sc n s = ((c, w), t)" by (metis prod.exhaust)
    note dev = s_device_result [OF d "1.prems"(2)] s_device_end [OF d] s_device_length [OF d]
    show ?thesis
    proof (cases c)
      case None
      obtain k1 ws1 t1 where rest: "s_parse_loop sc maxdev (n + 1) t = ((k1, ws1), t1)"
        by (metis prod.exhaust)
      with "1.prems"(1) True d None have eq: "k = k1" "ws = w # ws1" "s' = t1"
        by (subst (asm) s_parse_loop.simps, simp)+
      have "stream_end t \<le> 0" "\<exists>cs e. t = Live cs e" using dev "1.prems"(2) None by auto
      with "1.IH" [OF True d [symmetric] refl None rest] "1.prems" True
      show ?thesis using dev None by (auto simp: eq)
    next
      case (Some i)
      with "1.prems"(1) True d have "k = i" "ws = [w]" "s' = t"
        by (subst (asm) s_parse_loop.simps, simp)+
      with dev Some "1.prems" True show ?thesis by auto
    qed
  qed
qed

lemma s_parsebat_result:
  assumes p: "s_parsebat sc maxdev s = ((k, ws), s')" and e: "stream_end s \<le> 0"
  shows "int (length ws) \<le> max 0 maxdev \<and> (\<forall>w \<in> set ws. length w \<le> 18) \<and>
     stream_end s' = stream_end s \<and>
     (0 \<le> k \<and> k = int (length ws) \<and> full_macs ws \<and> k \<le> max 0 maxdev \<and>
        (\<forall>e. s' = Done e \<longrightarrow> e = 0) \<or>
      k < 0 \<and> s' = Done k \<or> k = - EINVAL \<and> s' = Done 0)"
proof -
  obtain u s1 where l: "s_skip_line sc 2 s = (u, s1)" by (meson surj_pair)
  obtain ch s2 where g: "s_getchar sc s1 = (ch, s2)" by fastforce
  note ends = s_skip_line_end [OF l] s_getchar_end [OF g]
  show ?thesis
  proof (cases "s_stopped s1 0 = None \<and> s_stopped s2 0 = None")
    case True
    with p l g have loop: "s_parse_loop sc maxdev 0 s2 = ((k, ws), s')"
      by (simp add: s_parsebat_def)
    have live: "\<exists>cs e. s2 = Live cs e" using True by (cases s2) (auto simp: s_stopped_def)
    show ?thesis
    proof (cases "0 < maxdev")
      case True
      from s_parse_loop_result [OF loop _ _ _ live] e ends True show ?thesis by auto
    next
      case False
      with loop have "k = 0" "ws = []" "s' = s2" by (subst (asm) s_parse_loop.simps, simp)+
      with e ends live show ?thesis by auto
    qed
  next
    case False
    with p l g e ends show ?thesis
      by (auto simp: s_parsebat_def s_stopped_def simp del: s_skip_line.simps
          split: stream.splits option.splits if_splits)
  qed
qed

section \<open>The output of \<open>batctl n\<close>\<close>

text \<open>
  Two header lines, then one line per neighbour: white space, the interface, white space,
  the 17 characters of the MAC address and the rest of the line. All of it is ASCII.
\<close>

datatype batrow =
  BatRow (lead: string) (iface: string) (gap: string) (addr: string) (after: string)

definition print_row :: "batrow \<Rightarrow> string" where
  "print_row r = lead r @ iface r @ gap r @ addr r @ after r @ [LF]"

definition print_batctl :: "string \<Rightarrow> string \<Rightarrow> batrow list \<Rightarrow> string" where
  "print_batctl h1 h2 rows = h1 @ LF # h2 @ LF # concat (map print_row rows)"

abbreviation ascii :: "string \<Rightarrow> bool" where
  "ascii s \<equiv> (\<forall>c \<in> set s. (of_char c :: int) < 128)"

abbreviation blank :: "char \<Rightarrow> bool" where
  "blank c \<equiv> isspace (of_char c)"

definition row_ok :: "batrow \<Rightarrow> bool" where
  "row_ok r \<longleftrightarrow>
     ascii (lead r @ iface r @ gap r @ addr r @ after r) \<and>
     lead r \<noteq> [] \<and> (\<forall>c \<in> set (lead r). blank c) \<and>
     iface r \<noteq> [] \<and> (\<forall>c \<in> set (iface r). \<not> blank c) \<and>
     gap r \<noteq> [] \<and> (\<forall>c \<in> set (gap r). blank c) \<and>
     length (addr r) = 17 \<and> \<not> blank (hd (addr r)) \<and> LF \<notin> set (after r)"

lemma char_to_int_ascii: "(of_char c :: int) < 128 \<Longrightarrow> char_to_int sc c = of_char c"
  by (simp add: char_to_int_def)

lemma of_char_LF_iff: "(of_char c :: int) = 10 \<longleftrightarrow> c = LF"
proof
  assume "(of_char c :: int) = 10"
  then have "of_char c = (of_char LF :: int)" by simp
  then show "c = LF" by (simp only: of_char_eq_iff)
qed simp

lemma of_char_neq_minus [simp]: "(of_char c :: int) \<noteq> -1"
  by (metis not_one_le_zero of_nat_0_le_iff of_nat_of_char neg_0_le_iff_le)

lemma s_to_newline_line:
  "ascii h \<Longrightarrow> LF \<notin> set h \<Longrightarrow> s_to_newline sc (Live (h @ LF # t) e) = (True, Live t e)"
  by (induction h) (auto simp: char_to_int_ascii of_char_LF_iff)

lemma s_skip_over:
  "ascii w \<Longrightarrow> (of_char c :: int) < 128 \<Longrightarrow> \<forall>d \<in> set w. p (of_char d) \<Longrightarrow> \<not> p (of_char c) \<Longrightarrow>
     s_skip p sc (Live (w @ c # t) e) = ((), Live (c # t) e)"
  by (induction w) (auto simp: char_to_int_ascii)

lemma s_take_append: "length w = k \<Longrightarrow> s_take k (Live (w @ t) e) = (w, Live t e)"
  by (induction k arbitrary: w) (auto simp: length_Suc_conv)

lemma s_device_row:
  assumes ok: "row_ok r"
  shows "s_device sc n (Live (tl (print_row r) @ t) 0) =
    (case t of [] \<Rightarrow> ((Some (n + 1), addr r @ [NUL]), Done 0)
     | c # cs \<Rightarrow> ((None, addr r @ [NUL]), Live cs 0))"
proof -
  obtain i il where i: "iface r = i # il" using ok by (cases "iface r") (auto simp: row_ok_def)
  obtain g gs where g: "gap r = g # gs" using ok by (cases "gap r") (auto simp: row_ok_def)
  obtain a al where a: "addr r = a # al" using ok by (cases "addr r") (auto simp: row_ok_def)
  let ?tail = "after r @ LF # t"
  have lay: "tl (print_row r) @ t = tl (lead r) @ iface r @ gap r @ addr r @ ?tail"
    using ok by (cases "lead r") (auto simp: row_ok_def print_row_def)
  have tll: "set (tl (lead r)) \<subseteq> set (lead r)" by (cases "lead r") auto
  have 1: "s_skip isspace sc (Live (tl (lead r) @ iface r @ gap r @ addr r @ ?tail) 0) =
      ((), Live (iface r @ gap r @ addr r @ ?tail) 0)"
    using ok i tll s_skip_over [of "tl (lead r)" i isspace sc "il @ gap r @ addr r @ ?tail" 0]
    by (auto simp: row_ok_def)
  have 2: "s_skip (\<lambda>ch. \<not> isspace ch) sc (Live (iface r @ gap r @ addr r @ ?tail) 0) =
      ((), Live (gap r @ addr r @ ?tail) 0)"
    using ok g s_skip_over [of "iface r" g "\<lambda>ch. \<not> isspace ch" sc "gs @ addr r @ ?tail" 0]
    by (auto simp: row_ok_def)
  have 3: "s_skip isspace sc (Live (gap r @ addr r @ ?tail) 0) = ((), Live (addr r @ ?tail) 0)"
    using ok a s_skip_over [of "gap r" a isspace sc "al @ ?tail" 0] by (auto simp: row_ok_def)
  have 4: "s_copy 17 (Live (addr r @ ?tail) 0) = ((None, addr r), Live ?tail 0)"
    using ok s_take_append [of "addr r" 17 ?tail 0] by (simp add: s_copy_def row_ok_def)
  have 5: "s_skip_line sc (Suc 0) (Live ?tail 0) = ((), Live t 0)"
    using ok s_to_newline_line [of "after r" sc t 0] by (simp add: row_ok_def)
  show ?thesis
    by (simp add: lay s_device_def 1 2 3 4 5 s_stopped_def del: s_skip_line.simps
        split: list.split)
qed

lemma print_rows_nonempty: "rows \<noteq> [] \<Longrightarrow> \<exists>c cs. concat (map print_row rows) = c # cs"
  by (cases "concat (map print_row rows)") (auto simp: print_row_def)

lemma s_parse_loop_rows:
  "\<forall>r \<in> set rows. row_ok r \<Longrightarrow> rows \<noteq> [] \<Longrightarrow>
   \<exists>s. s_parse_loop sc maxdev n (Live (tl (concat (map print_row rows))) 0) =
     (let m = min (length rows) (nat (maxdev - n)) in
      ((n + int m, map (\<lambda>r. addr r @ [NUL]) (take m rows)), s))"
proof (induction rows arbitrary: n)
  case (Cons r rows)
  have ne: "print_row r \<noteq> []" by (simp add: print_row_def)
  then have lay: "tl (concat (map print_row (r # rows))) = tl (print_row r) @ concat (map print_row rows)"
    by simp
  show ?case
  proof (cases "n < maxdev")
    case False
    then show ?thesis by (subst s_parse_loop.simps) simp
  next
    case True
    then have m: "nat (maxdev - n) = Suc (nat (maxdev - (n + 1)))" by simp
    note dev = s_device_row [of r sc n "concat (map print_row rows)"]
    show ?thesis
    proof (cases rows)
      case Nil
      with dev Cons.prems lay True m show ?thesis by (subst s_parse_loop.simps) simp
    next
      case rest: (Cons q qs)
      then obtain c cs where c: "concat (map print_row rows) = c # cs"
        using print_rows_nonempty [of rows] by blast
      with Cons.IH [of "n + 1"] Cons.prems rest obtain s where
        "s_parse_loop sc maxdev (n + 1) (Live cs 0) =
          (let m = min (length rows) (nat (maxdev - (n + 1))) in
            ((n + 1 + int m, map (\<lambda>r. addr r @ [NUL]) (take m rows)), s))" by auto
      with dev Cons.prems lay True m c show ?thesis
        by (subst s_parse_loop.simps) (simp add: Let_def)
    qed
  qed
qed simp

lemma s_parsebat_rows:
  assumes "ascii h1" "ascii h2" "LF \<notin> set h1" "LF \<notin> set h2" "\<forall>r \<in> set rows. row_ok r"
  shows "\<exists>s. s_parsebat sc maxdev (Live (print_batctl h1 h2 rows) 0) =
    (let m = min (length rows) (nat maxdev) in ((int m, map (\<lambda>r. addr r @ [NUL]) (take m rows)), s))"
proof -
  let ?t = "concat (map print_row rows)"
  have 2: "s_skip_line sc 2 (Live (print_batctl h1 h2 rows) 0) = ((), Live ?t 0)"
    using assms s_to_newline_line [of h1 sc "h2 @ LF # ?t" 0] s_to_newline_line [of h2 sc ?t 0]
    by (simp add: print_batctl_def numeral_2_eq_2)
  show ?thesis
  proof (cases rows)
    case Nil
    with 2 show ?thesis by (simp add: s_parsebat_def s_stopped_def)
  next
    case (Cons q qs)
    then obtain c cs where c: "?t = c # cs" using print_rows_nonempty [of rows] by blast
    from s_parse_loop_rows [OF assms(5), of sc maxdev 0] Cons c
    have "\<exists>s. s_parse_loop sc maxdev 0 (Live cs 0) =
      (let m = min (length rows) (nat maxdev) in ((int m, map (\<lambda>r. addr r @ [NUL]) (take m rows)), s))"
      by simp
    with 2 c show ?thesis by (simp add: s_parsebat_def s_stopped_def)
  qed
qed

section \<open>Properties\<close>

lemma buf_ok_boot [simp]: "buf_ok (boot_reader ps l)"
  by (simp add: buf_ok_def boot_reader_def PIPE_BUF_def)

lemma pipe_data_boot [simp]: "pipe_data (boot_reader ps l) = ps"
  by (simp add: boot_reader_def)

lemma limit_boot [simp]: "limit (boot_reader ps l) = l"
  by (simp add: boot_reader_def)

definition blank_devs :: "nat \<Rightarrow> devinfo list" where
  "blank_devs n = replicate n \<lparr>mac = replicate 18 NUL, ip = replicate 16 NUL\<rparr>"

lemma devs_ok_blank [simp]: "m \<le> int n \<Longrightarrow> devs_ok m (blank_devs n)"
  by (simp add: devs_ok_def blank_devs_def devinfo_ok_def MAC_NAME_MAX_def IP_NAME_MAX_def)

lemma final_state:
  assumes "reader_inv (r\<lparr>limit := KERNEL_DS\<rparr>)"
  shows "fd_err r \<longleftrightarrow> (\<exists>e < 0. stream_of r = Done e)" "fd_eof r \<longleftrightarrow> stream_of r = Done 0"
  using fd_err_stream [OF assms] fd_eof_stream [OF assms]
  by (simp_all add: fd_err_def fd_eof_def stream_of_def fd_ok_def unread_def)

lemma pipe_stream_end [simp]: "stream_end (pipe_stream ps) \<le> 0"
  by (simp add: pipe_stream_def pipe_end_le_0)

text \<open>
  What a call returns, by cases: from any caller's state with a buffer of \<open>PIPE_BUF\<close> bytes
  and an array of at least \<open>maxdev\<close> well-formed entries.
\<close>

lemma sys_parsebat_cases:
  assumes "buf_ok r" "devs_ok maxdev devs"
  obtains k ws r' where
    "sys_parsebat sc maxdev devs r = Val ((k, write_macs 0 ws devs), r')"
    "limit r' = limit r" "reader_inv (r'\<lparr>limit := KERNEL_DS\<rparr>)"
    "s_parsebat sc maxdev (pipe_stream (pipe_data r)) = ((k, ws), stream_of r')"
    "length ws \<le> length devs" "\<forall>w \<in> set ws. length w \<le> 18" "int (length ws) \<le> max 0 maxdev"
proof -
  obtain k ws s where p: "s_parsebat sc maxdev (pipe_stream (pipe_data r)) = ((k, ws), s)"
    by (metis prod.exhaust)
  from s_parsebat_result [OF p] have "int (length ws) \<le> max 0 maxdev" "\<forall>w \<in> set ws. length w \<le> 18"
    by simp_all
  moreover from this(1) assms(2) have "length ws \<le> length devs" by (auto simp: devs_ok_def)
  ultimately show ?thesis
    using that sys_parsebat_stream [OF assms p] p by blast
qed

lemma write_macs_ok:
  assumes "devs_ok m devs" "length ws \<le> length devs" "\<forall>w \<in> set ws. length w \<le> 18"
  shows "devs_ok m (write_macs 0 ws devs) \<and> map ip (write_macs 0 ws devs) = map ip devs"
proof -
  have nth: "write_macs 0 ws devs ! j =
     (if j < length ws then (devs ! j)\<lparr>mac := ws ! j @ drop (length (ws ! j)) (mac (devs ! j))\<rparr>
      else devs ! j)" for j
    using write_macs_nth [of 0 ws devs j] assms(2) by simp
  have "devinfo_ok (write_macs 0 ws devs ! j)" if "j < length devs" for j
    using assms that nth [of j] by (force simp: devs_ok_def devinfo_ok_def MAC_NAME_MAX_def)
  then have "\<forall>d \<in> set (write_macs 0 ws devs). devinfo_ok d" by (auto simp: in_set_conv_nth)
  moreover have "map ip (write_macs 0 ws devs) = map ip devs"
    by (rule nth_equalityI) (auto simp: nth)
  ultimately show ?thesis using assms(1) by (simp add: devs_ok_def)
qed

text \<open>
  C1: the system call is memory safe and always returns. Whatever the pipe delivers (any
  data in any pieces, a failing read, an early end), from any values left in its static
  variables, with an array of at least \<open>maxdev\<close> entries it makes no access outside the
  buffer or the array, touches only the \<open>mac\<close> fields of the first \<open>maxdev\<close> entries, and
  restores the caller's address limit.
\<close>

theorem parsebat_safe:
  assumes "buf_ok r" "devs_ok maxdev devs"
  shows "\<exists>k devs' r'. sys_parsebat sc maxdev devs r = Val ((k, devs'), r') \<and>
    limit r' = limit r \<and> devs_ok maxdev devs' \<and> map ip devs' = map ip devs \<and>
    (\<forall>j < length devs. maxdev \<le> int j \<longrightarrow> devs' ! j = devs ! j)"
proof -
  from sys_parsebat_cases [OF assms, of sc] obtain k ws r' where
    p: "sys_parsebat sc maxdev devs r = Val ((k, write_macs 0 ws devs), r')" "limit r' = limit r"
      "length ws \<le> length devs" "\<forall>w \<in> set ws. length w \<le> 18" "int (length ws) \<le> max 0 maxdev"
    by metis
  moreover have "write_macs 0 ws devs ! j = devs ! j" if "j < length devs" "maxdev \<le> int j" for j
    using that p(3,5) write_macs_nth [of 0 ws devs j] by simp
  ultimately show ?thesis using write_macs_ok [OF assms(2)] by blast
qed

theorem parsebat_safe_witness:
  "\<exists>k devs' r'. sys_parsebat True 1 (blank_devs 1) (boot_reader [Bytes ''a'', Fails 5] USER_DS) =
      Val ((k, devs'), r') \<and> limit r' = USER_DS"
  using parsebat_safe [of "boot_reader [Bytes ''a'', Fails 5] USER_DS" 1 "blank_devs 1" True]
  by auto

text \<open>
  C5: what a caller sees does not depend on how the output of \<open>batctl\<close> is cut into reads:
  two pipes with the same characters and the same ending give the same return value and the
  same array, whatever the contents of the static buffer.
\<close>

theorem parsebat_chunking:
  assumes "buf_ok r" "buf_ok q" "devs_ok maxdev devs"
    and "pipe_stream (pipe_data r) = pipe_stream (pipe_data q)"
  shows "map_out fst (sys_parsebat sc maxdev devs r) = map_out fst (sys_parsebat sc maxdev devs q)"
proof -
  obtain k ws s where p: "s_parsebat sc maxdev (pipe_stream (pipe_data r)) = ((k, ws), s)"
    by (metis prod.exhaust)
  with sys_parsebat_stream [OF assms(1,3) p] sys_parsebat_stream [OF assms(2,3), of sc k ws s] assms(4)
  show ?thesis by auto
qed

theorem parsebat_chunking_witness:
  "map_out fst (sys_parsebat True 3 (blank_devs 4) (boot_reader [Bytes ''ab'', Fails 4] USER_DS)) =
   map_out fst (sys_parsebat True 3 (blank_devs 4)
     (boot_reader [Bytes ''a'', Bytes ''b'', Fails 4, Bytes ''c''] KERNEL_DS))"
  by (rule parsebat_chunking) (simp_all add: pipe_stream_def)

text \<open>
  C23: the return value. It is the number of addresses written, at most \<open>maxdev\<close>, each 17
  characters and a terminator; or, exactly when a read failed, that read's negated error
  number; or \<open>-EINVAL\<close>, only when the data ended inside a record.
\<close>

theorem parsebat_result:
  assumes "buf_ok r" "devs_ok maxdev devs"
    and "sys_parsebat sc maxdev devs r = Val ((k, devs'), r')"
  shows "0 \<le> k \<and> k \<le> max 0 maxdev \<and> \<not> fd_err r' \<and>
      (\<forall>j < nat k. \<exists>v. length v = 17 \<and> mac (devs' ! j) = v @ [NUL]) \<or>
    k < 0 \<and> fd_err r' \<and> k = pipe_end (pipe_data r) \<or>
    k = - EINVAL \<and> fd_eof r'"
proof -
  from sys_parsebat_cases [OF assms(1,2), of sc] assms(3) obtain ws where
    p: "devs' = write_macs 0 ws devs" "reader_inv (r'\<lparr>limit := KERNEL_DS\<rparr>)"
      "s_parsebat sc maxdev (pipe_stream (pipe_data r)) = ((k, ws), stream_of r')"
      "length ws \<le> length devs" by auto
  have mac_j: "mac (devs' ! j) = ws ! j" if "j < length ws" "length (ws ! j) = 18" for j
  proof -
    have "length (mac (devs ! j)) = 18"
      using assms(2) that p(4) by (auto simp: devs_ok_def devinfo_ok_def MAC_NAME_MAX_def)
    with that show ?thesis using write_macs_nth [of 0 ws devs j] p(1,4) by simp
  qed
  note res = s_parsebat_result [OF p(3) pipe_stream_end] and fin = final_state [OF p(2)]
  have stop: "stream_end (stream_of r') = pipe_end (pipe_data r)"
    using res by (simp add: pipe_stream_def)
  from res consider
      (count) "0 \<le> k" "k = int (length ws)" "full_macs ws" "k \<le> max 0 maxdev"
        "\<forall>e. stream_of r' = Done e \<longrightarrow> e = 0"
    | (failed) "k < 0" "stream_of r' = Done k" | (short) "k = - EINVAL" "stream_of r' = Done 0"
    by blast
  then show ?thesis
  proof cases
    case count
    have "\<exists>v. length v = 17 \<and> mac (devs' ! j) = v @ [NUL]" if "j < nat k" for j
    proof -
      from that count have "j < length ws" by simp
      with count(3) obtain v where "ws ! j = v @ [NUL]" "length v = 17" by (meson nth_mem)
      with mac_j [OF \<open>j < length ws\<close>] show ?thesis by simp
    qed
    with count fin show ?thesis by auto
  next
    case failed
    with fin stop show ?thesis by simp
  next
    case short
    with fin show ?thesis by simp
  qed
qed

theorem parsebat_result_witness:
  "\<exists>devs' r'. sys_parsebat False 2 (blank_devs 2) (boot_reader [Bytes ''a'', Fails 5] USER_DS) =
     Val ((-5, devs'), r') \<and> fd_err r'"
proof -
  let ?r = "boot_reader [Bytes ''a'', Fails 5] USER_DS"
  have ok: "buf_ok ?r" "devs_ok 2 (blank_devs 2)" by simp_all
  have s: "s_parsebat False 2 (pipe_stream (pipe_data ?r)) = ((-5, []), Done (-5))"
    by (simp add: pipe_stream_def s_parsebat_def s_stopped_def numeral_2_eq_2 char_to_int_def)
  then obtain devs' r' where p: "sys_parsebat False 2 (blank_devs 2) ?r = Val ((-5, devs'), r')"
    using sys_parsebat_cases [OF ok, of False] by (metis Pair_inject)
  from parsebat_result [OF ok p] have "fd_err r'" by (simp add: EINVAL_def)
  with p show ?thesis by blast
qed

text \<open>
  C4: the round trip with \<open>batctl\<close>. A table of neighbours, printed as \<open>batctl n\<close> prints it
  and delivered in any pieces, comes back as the MAC addresses of its rows, in order, up to
  \<open>maxdev\<close>; the entries after them are untouched.
\<close>

theorem parsebat_roundtrip:
  assumes "buf_ok r" "devs_ok maxdev devs"
    and "ascii h1" "ascii h2" "LF \<notin> set h1" "LF \<notin> set h2" "\<forall>w \<in> set rows. row_ok w"
    and "pipe_chars (pipe_data r) = print_batctl h1 h2 rows" "pipe_end (pipe_data r) = 0"
    and m: "m = min (length rows) (nat maxdev)"
  shows "\<exists>devs' r'. sys_parsebat sc maxdev devs r = Val ((int m, devs'), r') \<and>
    map mac (take m devs') = map (\<lambda>w. addr w @ [NUL]) (take m rows) \<and>
    drop m devs' = drop m devs"
proof -
  let ?ws = "map (\<lambda>w. addr w @ [NUL]) (take m rows)"
  from s_parsebat_rows [OF assms(3-7), of sc maxdev] obtain s where
    "s_parsebat sc maxdev (pipe_stream (pipe_data r)) = ((int m, ?ws), s)"
    using assms(8,9) m by (auto simp: pipe_stream_def Let_def)
  from sys_parsebat_stream [OF assms(1,2) this] obtain r' where
    p: "sys_parsebat sc maxdev devs r = Val ((int m, write_macs 0 ?ws devs), r')" by blast
  have len: "length ?ws = m" "m \<le> length devs" using m assms(2) by (auto simp: devs_ok_def)
  note nth = write_macs_nth [of 0 ?ws devs, unfolded len(1)]
  have "map mac (take m (write_macs 0 ?ws devs)) = ?ws"
  proof (rule nth_equalityI)
    fix j assume "j < length (map mac (take m (write_macs 0 ?ws devs)))"
    then have j: "j < m" using len by simp
    then have "length (mac (devs ! j)) = 18" "length (?ws ! j) = 18"
      using assms(2,7) len m by (auto simp: devs_ok_def devinfo_ok_def MAC_NAME_MAX_def row_ok_def)
    with j len nth [of j] show "map mac (take m (write_macs 0 ?ws devs)) ! j = ?ws ! j" by simp
  qed (use len in simp)
  moreover have "drop m (write_macs 0 ?ws devs) = drop m devs"
    by (rule nth_equalityI) (use len nth in auto)
  ultimately show ?thesis using p by blast
qed

theorem parsebat_roundtrip_witness:
  "\<exists>devs' r'. sys_parsebat True 256 (blank_devs 256) (boot_reader
      [Bytes (''[B.A.T.M.A.N. adv]'' @ [LF] @ ''  IF  Neighbor  last-seen'' @ [LF] @ ''        wl''),
       Bytes (''an0   90:9f:33:ec:04:8a    0.190s'' @ [LF])] USER_DS) = Val ((1, devs'), r') \<and>
    map mac (take 1 devs') = [''90:9f:33:ec:04:8a'' @ [NUL]] \<and> drop 1 devs' = drop 1 (blank_devs 256)"
  using parsebat_roundtrip [of "boot_reader
      [Bytes (''[B.A.T.M.A.N. adv]'' @ [LF] @ ''  IF  Neighbor  last-seen'' @ [LF] @ ''        wl''),
       Bytes (''an0   90:9f:33:ec:04:8a    0.190s'' @ [LF])] USER_DS" 256 "blank_devs 256"
      "''[B.A.T.M.A.N. adv]''" "''  IF  Neighbor  last-seen''"
      "[BatRow ''        '' ''wlan0'' ''   '' ''90:9f:33:ec:04:8a'' ''    0.190s'']" 1 True]
  by (simp add: row_ok_def print_batctl_def print_row_def isspace_def)

end
