(* ===== verification/Devinfo.thy ===== *)
theory Devinfo
  imports Parsebat
begin

text \<open>
  \<open>studysys/devinfo.c\<close>: the fixed table of MAC and IP addresses, the conversions between an
  IP address and a device index, and \<open>getdevinfo\<close>, which runs \<open>batctl\<close> behind a pipe, has
  the kernel parse its output and looks the IP addresses up.

  The process is modelled by what these functions touch of it: \<open>errno\<close>, and how many file
  descriptors are open of how many it may open. What \<open>fork\<close>, \<open>dup2\<close> and \<open>execv\<close> return,
  and what \<open>batctl\<close> writes, is an argument (\<open>spawn\<close>).
\<close>

section \<open>The address table\<close>

definition arptbl :: "(string \<times> string) list" where
  "arptbl =
     [(''90:9f:33:ec:04:8a'', ''192.168.2.1''),
      (''90:9f:33:eb:63:e9'', ''192.168.2.2''),
      (''b8:27:eb:12:ca:e0'', ''192.168.2.3''),
      (''64:e5:99:fa:1d:61'', ''192.168.2.4'')]"

fun lookup_mac :: "(string \<times> string) list \<Rightarrow> string \<Rightarrow> string option" where
  "lookup_mac [] m = None"
| "lookup_mac ((k, v) # tbl) m = (if strcmp m k = 0 then Some v else lookup_mac tbl m)"

definition mac2ip :: "string \<Rightarrow> string option" where
  "mac2ip m = lookup_mac arptbl m"

definition index2ip :: "int \<Rightarrow> string outcome" where
  "index2ip i = map_out snd (array_get arptbl (i - 1))"

definition ip2index :: "bool \<Rightarrow> string \<Rightarrow> int outcome" where
  "ip2index sc s =
     bind_out (array_get s (int (length s) - 1)) (\<lambda>c. Val (char_to_int sc c - of_char (CHR ''0'')))"

lemma lookup_mac_map_of: "lookup_mac tbl m = map_of tbl m"
  by (induction tbl m rule: lookup_mac.induct) auto

lemma mac2ip_Some: "mac2ip m = Some a \<Longrightarrow> length m = 17 \<and> length a = 11 \<and> NUL \<notin> set m \<and> NUL \<notin> set a"
  by (auto simp: mac2ip_def arptbl_def split: if_splits)

section \<open>Reading the neighbours\<close>

record proc =
  open_fds :: nat
  fd_max :: nat
  errno :: int

datatype fork_result = ForkFails int | InChild | InParent int

record spawn =
  fork_res :: fork_result
  dup2_err :: "int option"
  execv_err :: "int option"
  batctl_out :: "pending list"

definition EMFILE :: int where "EMFILE = 24"

text \<open>
  How the call ends: with a return value in the process that ran it (the parent, or a child
  in which \<open>dup2\<close> or \<open>execv\<close> failed), or by the child becoming \<open>batctl\<close>.
\<close>

datatype getdev = Returns int "devinfo list" proc reader | BecomesBatctl

text \<open>The C library's \<open>syscall\<close>: a kernel result in \<open>-4095 .. -1\<close> becomes \<open>-1\<close> and \<open>errno\<close>.\<close>

definition libc_syscall :: "int \<Rightarrow> proc \<Rightarrow> int \<times> proc" where
  "libc_syscall k p = (if -4095 \<le> k \<and> k < 0 then (-1, p\<lparr>errno := - k\<rparr>) else (k, p))"

definition parsebat ::
  "bool \<Rightarrow> int \<Rightarrow> devinfo list \<Rightarrow> reader \<Rightarrow> proc \<Rightarrow> (int \<times> devinfo list \<times> proc \<times> reader) outcome"
where
  "parsebat sc maxdev devs kern p =
     bind_out (sys_parsebat sc maxdev devs kern) (\<lambda>((k, devs), kern).
     case libc_syscall k p of (k, p) \<Rightarrow> Val (k, devs, p, kern))"

text \<open>The last loop: the IP address of every device found.\<close>

function fill_ips :: "int \<Rightarrow> int \<Rightarrow> devinfo list \<Rightarrow> (int \<times> devinfo list) outcome" where
  "fill_ips i ndev devs =
     (if i < ndev then
        bind_out (array_get devs i) (\<lambda>d.
        bind_out (cstring (mac d)) (\<lambda>m.
        case mac2ip m of
          None \<Rightarrow> Val (-1, devs)
        | Some a \<Rightarrow>
            bind_out (strcpy_into (ip d) a) (\<lambda>a.
            bind_out (array_put devs i (d\<lparr>ip := a\<rparr>)) (\<lambda>devs.
            fill_ips (i + 1) ndev devs))))
      else Val (ndev, devs))"
  by pat_completeness auto
termination
  by (relation "measure (\<lambda>(i, ndev, devs). nat (ndev - i))") auto

declare fill_ips.simps [simp del]

text \<open>
  \<open>waitpid\<close> (line 115) returns when \<open>batctl\<close> has ended. The parent's end of the pipe is still
  open, so a \<open>batctl\<close> with more left to print than the pipe takes (\<open>cap\<close> bytes) stays blocked
  in its write, without \<open>SIGPIPE\<close>, and the parent waits for ever.
\<close>

definition wait_batctl :: "nat \<Rightarrow> reader \<Rightarrow> unit outcome" where
  "wait_batctl cap kern = (if cap < outstanding kern then Hangs else Val ())"

definition getdevinfo_waiting ::
  "(reader \<Rightarrow> unit outcome) \<Rightarrow>
   bool \<Rightarrow> int \<Rightarrow> devinfo list \<Rightarrow> spawn \<Rightarrow> reader \<Rightarrow> proc \<Rightarrow> getdev outcome"
where
  "getdevinfo_waiting waits sc maxdev devs sp kern p0 =
     (if fd_max p0 < open_fds p0 + 2 then Val (Returns (-1) devs (p0\<lparr>errno := EMFILE\<rparr>) kern)
      else
        let p = p0\<lparr>open_fds := open_fds p0 + 2\<rparr> in
        case fork_res sp of
          ForkFails e \<Rightarrow> Val (Returns (-1) devs (p\<lparr>errno := e\<rparr>) kern)
        | InChild \<Rightarrow>
            (case dup2_err sp of
               Some e \<Rightarrow> Val (Returns (-1) devs (p\<lparr>errno := e\<rparr>) kern)
             | None \<Rightarrow>
                 let p = p\<lparr>open_fds := open_fds p - 1\<rparr> in
                 (case execv_err sp of
                    Some e \<Rightarrow> Val (Returns (-1) devs (p\<lparr>errno := e\<rparr>) kern)
                  | None \<Rightarrow> Val BecomesBatctl))
        | InParent pid \<Rightarrow>
            let p = p\<lparr>open_fds := open_fds p - 1\<rparr> in
            bind_out (parsebat sc maxdev devs (kern\<lparr>pipe_data := batctl_out sp\<rparr>) p)
              (\<lambda>(ndev, devs, p, kern).
              bind_out (waits kern) (\<lambda>u.
                 if ndev < 0 then Val (Returns (-1) devs (p\<lparr>errno := - ndev\<rparr>) kern)
                 else bind_out (fill_ips 0 ndev devs) (\<lambda>(n, devs). Val (Returns n devs p kern)))))"

text \<open>The call when \<open>batctl\<close> ends; most of what follows is about it.\<close>

definition getdevinfo ::
  "bool \<Rightarrow> int \<Rightarrow> devinfo list \<Rightarrow> spawn \<Rightarrow> reader \<Rightarrow> proc \<Rightarrow> getdev outcome"
where
  "getdevinfo = getdevinfo_waiting (\<lambda>kern. Val ())"

text \<open>
  Indices and addresses. Exactly the indices 1 to 4 have an address, and turning that
  address back gives the index; any other index reads outside the table.
\<close>

lemma index2ip_ip2index:
  "bind_out (index2ip i) (ip2index sc) =
     (if 1 \<le> i \<and> i \<le> 4 then Val i else Undefined OutOfBounds)"
proof -
  consider "i < 1 \<or> 4 < i" | "i = 1" | "i = 2" | "i = 3" | "i = 4" by linarith
  then show ?thesis
    by cases (auto simp: index2ip_def ip2index_def array_get_def arptbl_def char_to_int_def)
qed

section \<open>The lookup loop\<close>

lemma fill_ips_step:
  assumes "i < n" "n \<le> length devs" "cstring (mac (devs ! i)) = Val m" "length (ip (devs ! i)) = 16"
  shows "fill_ips (int i) (int n) devs =
    (case mac2ip m of None \<Rightarrow> Val (-1, devs)
     | Some a \<Rightarrow> fill_ips (int (Suc i)) (int n)
         (devs[i := (devs ! i)\<lparr>ip := a @ NUL # drop 12 (ip (devs ! i))\<rparr>]))"
proof (cases "mac2ip m")
  case (Some a)
  then have "length a = 11" using mac2ip_Some by blast
  with Some assms show ?thesis
    by (subst fill_ips.simps) (simp add: strcpy_into_def add.commute)
qed (use assms in \<open>subst fill_ips.simps, simp\<close>)

definition macs_at :: "nat \<Rightarrow> (nat \<Rightarrow> string) \<Rightarrow> devinfo list \<Rightarrow> bool" where
  "macs_at n m devs \<longleftrightarrow> n \<le> length devs \<and>
     (\<forall>j < n. cstring (mac (devs ! j)) = Val (m j) \<and> length (ip (devs ! j)) = 16)"

lemma macs_at_update:
  "macs_at n m devs \<Longrightarrow> i < n \<Longrightarrow> length a = 11 \<Longrightarrow>
     macs_at n m (devs[i := (devs ! i)\<lparr>ip := a @ NUL # drop 12 (ip (devs ! i))\<rparr>])"
  by (auto simp: macs_at_def nth_list_update)

lemma fill_ips_known:
  "i \<le> n \<Longrightarrow> macs_at n m devs \<Longrightarrow> \<forall>j < n. mac2ip (m j) = Some (a j) \<Longrightarrow>
   \<exists>devs'. fill_ips (int i) (int n) devs = Val (int n, devs') \<and> map mac devs' = map mac devs \<and>
     drop n devs' = drop n devs \<and> take i devs' = take i devs \<and>
     (\<forall>j. i \<le> j \<and> j < n \<longrightarrow> cstring (ip (devs' ! j)) = Val (a j))"
proof (induction "n - i" arbitrary: i devs)
  case 0
  then show ?case by (subst fill_ips.simps) auto
next
  case (Suc k)
  then have i: "i < n" by simp
  let ?devs = "devs[i := (devs ! i)\<lparr>ip := a i @ NUL # drop 12 (ip (devs ! i))\<rparr>]"
  have ai: "length (a i) = 11" "NUL \<notin> set (a i)" using Suc.prems(3) i mac2ip_Some by blast+
  have step: "fill_ips (int i) (int n) devs = fill_ips (int (Suc i)) (int n) ?devs"
    using Suc.prems i fill_ips_step [of i n devs "m i"] by (auto simp: macs_at_def)
  have "k = n - Suc i" "Suc i \<le> n" using Suc.hyps(2) i by simp_all
  from Suc.hyps(1) [OF this macs_at_update [OF Suc.prems(2) i ai(1)] Suc.prems(3)]
  obtain devs' where d: "fill_ips (int (Suc i)) (int n) ?devs = Val (int n, devs')"
    "map mac devs' = map mac ?devs" "drop n devs' = drop n ?devs"
    "take (Suc i) devs' = take (Suc i) ?devs"
    "\<forall>j. Suc i \<le> j \<and> j < n \<longrightarrow> cstring (ip (devs' ! j)) = Val (a j)" by auto
  have len: "i < length devs" "length devs' = length devs"
    using Suc.prems(2) i d(2) by (auto simp: macs_at_def dest: map_eq_imp_length_eq)
  have "devs' ! i = ?devs ! i" using d(4) len by (metis lessI nth_take)
  then have "cstring (ip (devs' ! i)) = Val (a i)" using len ai by simp
  with d(5) have "\<forall>j. i \<le> j \<and> j < n \<longrightarrow> cstring (ip (devs' ! j)) = Val (a j)"
    by (metis Suc_leI le_neq_implies_less)
  moreover have "take i devs' = take i devs"
    using arg_cong [OF d(4), of "take i"] by simp
  moreover have "map mac devs' = map mac devs"
    using d(2) len list_update_id [of "map mac devs" i] by (simp add: map_update)
  moreover have "drop n devs' = drop n devs" using d(3) i by simp
  ultimately show ?case using step d(1) by auto
qed

lemma fill_ips_unknown:
  "i \<le> u \<Longrightarrow> u < n \<Longrightarrow> macs_at n m devs \<Longrightarrow> mac2ip (m u) = None \<Longrightarrow>
   \<exists>devs'. fill_ips (int i) (int n) devs = Val (-1, devs')"
proof (induction "u - i" arbitrary: i devs)
  case 0
  then show ?case using fill_ips_step [of u n devs "m u"] by (auto simp: macs_at_def)
next
  case (Suc k)
  then have i: "i < u" "i < n" by simp_all
  note step = fill_ips_step [of i n devs "m i"]
  show ?case
  proof (cases "mac2ip (m i)")
    case None
    with step Suc.prems i show ?thesis by (auto simp: macs_at_def)
  next
    case (Some a)
    then have "length a = 11" using mac2ip_Some by blast
    from Suc.hyps(1) [of "Suc i"] macs_at_update [OF Suc.prems(3) i(2) this] Suc i
    show ?thesis using step Some Suc.prems i by (auto simp: macs_at_def)
  qed
qed

section \<open>Properties\<close>

text \<open>What the parent does, once \<open>fork\<close> has succeeded.\<close>

lemma getdevinfo_parent:
  assumes "open_fds p + 2 \<le> fd_max p" "fork_res sp = InParent pid"
  shows "getdevinfo sc maxdev devs sp kern p =
    bind_out (sys_parsebat sc maxdev devs (kern\<lparr>pipe_data := batctl_out sp\<rparr>)) (\<lambda>((k, devs), kern).
      let p = p\<lparr>open_fds := open_fds p + 1\<rparr> in
      if -4095 \<le> k \<and> k < 0 then Val (Returns (-1) devs (p\<lparr>errno := 1\<rparr>) kern)
      else if k < 0 then Val (Returns (-1) devs (p\<lparr>errno := - k\<rparr>) kern)
      else bind_out (fill_ips 0 k devs) (\<lambda>(n, devs). Val (Returns n devs p kern)))"
  using assms
  by (auto simp: getdevinfo_def getdevinfo_waiting_def parsebat_def libc_syscall_def Let_def outcome_simps split_beta'
      intro!: bind_out_cong)

text \<open>The kernel's part of a call on a table of neighbours.\<close>

lemma sys_parsebat_table:
  assumes "buf_ok kern" "devs_ok maxdev devs"
    and "ascii h1" "ascii h2" "LF \<notin> set h1" "LF \<notin> set h2"
    and "\<forall>w \<in> set rows. row_ok w \<and> NUL \<notin> set (addr w)"
    and "pipe_chars (pipe_data kern) = print_batctl h1 h2 rows" "pipe_end (pipe_data kern) = 0"
    and m: "m = min (length rows) (nat maxdev)"
  shows "\<exists>devs' kern'. sys_parsebat sc maxdev devs kern = Val ((int m, devs'), kern') \<and>
    macs_at m (\<lambda>j. addr (rows ! j)) devs'"
proof -
  have ok: "\<forall>w \<in> set rows. row_ok w" using assms(7) by blast
  let ?ws = "map (\<lambda>w. addr w @ [NUL]) (take m rows)"
  from s_parsebat_rows [OF assms(3-6) ok, of sc maxdev] obtain s where
    "s_parsebat sc maxdev (pipe_stream (pipe_data kern)) = ((int m, ?ws), s)"
    using assms(8,9) m by (auto simp: pipe_stream_def Let_def)
  from sys_parsebat_stream [OF assms(1,2) this] obtain kern' where
    p: "sys_parsebat sc maxdev devs kern = Val ((int m, write_macs 0 ?ws devs), kern')" by blast
  have len: "length ?ws = m" "m \<le> length devs" using m assms(2) by (auto simp: devs_ok_def)
  have "cstring (mac (write_macs 0 ?ws devs ! j)) = Val (addr (rows ! j)) \<and>
      length (ip (write_macs 0 ?ws devs ! j)) = 16" if "j < m" for j
  proof -
    have "j < length rows" "j < length devs" using that m len by auto
    then have "row_ok (rows ! j)" "NUL \<notin> set (addr (rows ! j))" "devinfo_ok (devs ! j)"
      using assms(2,7) by (auto simp: devs_ok_def)
    with that \<open>j < length rows\<close> show ?thesis
      using write_macs_nth [of 0 ?ws devs j] len
      by (simp add: devinfo_ok_def IP_NAME_MAX_def)
  qed
  with p len show ?thesis by (auto simp: macs_at_def)
qed

text \<open>The lookup loop on any terminated addresses.\<close>

lemma fill_ips_safe:
  "i \<le> n \<Longrightarrow> macs_at n m devs \<Longrightarrow> devs_ok maxdev devs \<Longrightarrow>
   \<exists>k devs'. fill_ips (int i) (int n) devs = Val (k, devs') \<and> devs_ok maxdev devs' \<and>
     map mac devs' = map mac devs \<and> take i devs' = take i devs \<and> (k = int n \<or> k = -1) \<and>
     (k = int n \<longrightarrow> (\<forall>j. i \<le> j \<and> j < n \<longrightarrow> Some (cstring (ip (devs' ! j))) = map_option Val (mac2ip (m j))))"
proof (induction "n - i" arbitrary: i devs)
  case 0
  then show ?case by (subst fill_ips.simps) auto
next
  case (Suc k)
  then have i: "i < n" "k = n - Suc i" by simp_all
  then have len: "i < length devs" using Suc.prems(2) by (simp add: macs_at_def)
  have step: "fill_ips (int i) (int n) devs =
    (case mac2ip (m i) of None \<Rightarrow> Val (-1, devs)
     | Some a \<Rightarrow> fill_ips (int (Suc i)) (int n)
         (devs[i := (devs ! i)\<lparr>ip := a @ NUL # drop 12 (ip (devs ! i))\<rparr>]))"
    using Suc.prems i by (intro fill_ips_step) (auto simp: macs_at_def)
  show ?case
  proof (cases "mac2ip (m i)")
    case None
    with step Suc.prems show ?thesis by auto
  next
    case (Some a)
    let ?d = "(devs ! i)\<lparr>ip := a @ NUL # drop 12 (ip (devs ! i))\<rparr>"
    have a: "length a = 11" "NUL \<notin> set a" using Some mac2ip_Some by blast+
    have "devinfo_ok (devs ! i)" using Suc.prems(3) len by (simp add: devs_ok_def)
    then have "devinfo_ok ?d" using a by (simp add: devinfo_ok_def IP_NAME_MAX_def)
    then have "devs_ok maxdev (devs[i := ?d])"
      using Suc.prems(3) by (auto simp: devs_ok_def dest!: subsetD [OF set_update_subset_insert])
    from Suc.hyps(1) [OF i(2) _ macs_at_update [OF Suc.prems(2) i(1) a(1)] this] i(1)
    obtain k devs' where d: "fill_ips (int (Suc i)) (int n) (devs[i := ?d]) = Val (k, devs')"
      "devs_ok maxdev devs'" "map mac devs' = map mac (devs[i := ?d])"
      "take (Suc i) devs' = take (Suc i) (devs[i := ?d])" "k = int n \<or> k = -1"
      "k = int n \<longrightarrow> (\<forall>j. Suc i \<le> j \<and> j < n \<longrightarrow>
         Some (cstring (ip (devs' ! j))) = map_option Val (mac2ip (m j)))" by auto
    have "devs' ! i = ?d"
      using d(4) len map_eq_imp_length_eq [OF d(3)] by (metis lessI nth_take nth_list_update_eq)
    then have "Some (cstring (ip (devs' ! i))) = map_option Val (mac2ip (m i))" using Some a by simp
    with d(6) have "k = int n \<longrightarrow> (\<forall>j. i \<le> j \<and> j < n \<longrightarrow>
        Some (cstring (ip (devs' ! j))) = map_option Val (mac2ip (m j)))"
      by (metis Suc_leI le_neq_implies_less)
    moreover have "take i devs' = take i devs" using arg_cong [OF d(4), of "take i"] by simp
    moreover have "map mac devs' = map mac devs"
      using d(3) len list_update_id [of "map mac devs" i] by (simp add: map_update)
    ultimately show ?thesis using step Some d(1,2,5) by auto
  qed
qed

text \<open>The kernel's part on any output: where it succeeds, the counted addresses are terminated.\<close>

lemma sys_parsebat_any:
  assumes "buf_ok r" "devs_ok maxdev devs"
  shows "\<exists>k devs' r'. sys_parsebat sc maxdev devs r = Val ((k, devs'), r') \<and> buf_ok r' \<and>
    devs_ok maxdev devs' \<and> k \<le> max 0 maxdev \<and>
    (0 \<le> k \<longrightarrow> (\<exists>m. macs_at (nat k) m devs'))"
proof -
  from sys_parsebat_cases [OF assms, of sc] obtain k ws r' where
    p: "sys_parsebat sc maxdev devs r = Val ((k, write_macs 0 ws devs), r')"
      "reader_inv (r'\<lparr>limit := KERNEL_DS\<rparr>)"
      "s_parsebat sc maxdev (pipe_stream (pipe_data r)) = ((k, ws), stream_of r')"
      "length ws \<le> length devs" "\<forall>w \<in> set ws. length w \<le> 18" by metis
  let ?devs = "write_macs 0 ws devs"
  have ok: "devs_ok maxdev ?devs" and len: "length ?devs = length devs"
    using write_macs_ok [OF assms(2) p(4,5)] by (auto dest: map_eq_imp_length_eq)
  note res = s_parsebat_result [OF p(3) pipe_stream_end]
  have "\<exists>m. macs_at (nat k) m ?devs" if "0 \<le> k"
  proof -
    from res that have k: "k = int (length ws)" "full_macs ws" by (auto simp: EINVAL_def)
    have "\<exists>s. cstring (mac (?devs ! j)) = Val s \<and> length (ip (?devs ! j)) = 16"
      if "j < length ws" for j
    proof -
      have dj: "devinfo_ok (?devs ! j)" using ok that p(4) len
        by (auto simp: devs_ok_def)
      have "ws ! j \<in> set ws" using that by simp
      then obtain v where "ws ! j = v @ [NUL]" using k(2) by meson
      then have "NUL \<in> set (mac (?devs ! j))"
        using write_macs_nth [of 0 ws devs j] that p(4) by simp
      with dj show ?thesis by (simp add: cstring_def devinfo_ok_def IP_NAME_MAX_def)
    qed
    then obtain m where "\<forall>j < length ws. cstring (mac (?devs ! j)) = Val (m j) \<and> length (ip (?devs ! j)) = 16"
      by metis
    then show ?thesis using k(1) len p(4) by (auto simp: macs_at_def)
  qed
  moreover have "buf_ok r'" using p(2) by (simp add: reader_inv_def buf_ok_def PIPE_BUF_def)
  moreover have "k \<le> max 0 maxdev" using res by (auto simp: EINVAL_def)
  ultimately show ?thesis using p(1) ok by blast
qed

text \<open>What a call can do, whatever \<open>batctl\<close> prints and whichever process returns.\<close>

definition getdev_ok :: "int \<Rightarrow> proc \<Rightarrow> getdev \<Rightarrow> bool" where
  "getdev_ok maxdev p g \<longleftrightarrow>
     (case g of
        BecomesBatctl \<Rightarrow> True
      | Returns n devs p' kern \<Rightarrow>
          devs_ok maxdev devs \<and> buf_ok kern \<and> -1 \<le> n \<and> n \<le> max 0 maxdev \<and>
          fd_max p' = fd_max p \<and>
          (0 \<le> n \<longrightarrow> open_fds p + 2 \<le> fd_max p \<and> p' = p\<lparr>open_fds := open_fds p + 1\<rparr>) \<and>
          (\<forall>j. int j < n \<longrightarrow> (\<exists>s. cstring (mac (devs ! j)) = Val s \<and>
             Some (cstring (ip (devs ! j))) = map_option Val (mac2ip s))))"

lemma getdevinfo_any:
  assumes "buf_ok kern" "devs_ok maxdev devs"
  shows "\<exists>g. getdevinfo sc maxdev devs sp kern p = Val g \<and> getdev_ok maxdev p g"
proof (cases "open_fds p + 2 \<le> fd_max p \<and> (\<exists>pid. fork_res sp = InParent pid)")
  case True
  then obtain pid where par: "open_fds p + 2 \<le> fd_max p" "fork_res sp = InParent pid" by blast
  have "buf_ok (kern\<lparr>pipe_data := batctl_out sp\<rparr>)" using assms(1) by (simp add: buf_ok_def)
  from sys_parsebat_any [OF this assms(2), of sc] obtain k devs1 kern1 where
    k: "sys_parsebat sc maxdev devs (kern\<lparr>pipe_data := batctl_out sp\<rparr>) = Val ((k, devs1), kern1)"
      "buf_ok kern1" "devs_ok maxdev devs1" "k \<le> max 0 maxdev" "0 \<le> k \<longrightarrow> (\<exists>m. macs_at (nat k) m devs1)"
    by blast
  show ?thesis
  proof (cases "0 \<le> k")
    case True
    then obtain m where at: "macs_at (nat k) m devs1" using k(5) by blast
    from fill_ips_safe [OF _ at k(3), of 0] True obtain n devs' where
      f: "fill_ips 0 k devs1 = Val (n, devs')" "devs_ok maxdev devs'" "map mac devs' = map mac devs1"
        "n = k \<or> n = -1" "n = k \<longrightarrow> (\<forall>j < nat k. Some (cstring (ip (devs' ! j))) = map_option Val (mac2ip (m j)))"
      by auto
    have "mac (devs' ! j) = mac (devs1 ! j)" if "j < nat k" for j
      using f(3) at that map_eq_imp_length_eq [OF f(3)]
      by (metis macs_at_def nth_map order_less_le_trans)
    with at have macs: "\<forall>j < nat k. cstring (mac (devs' ! j)) = Val (m j)" by (simp add: macs_at_def)
    have "getdevinfo sc maxdev devs sp kern p =
        Val (Returns n devs' (p\<lparr>open_fds := open_fds p + 1\<rparr>) kern1)"
      using True k(1) f(1) by (simp add: getdevinfo_parent [OF par] Let_def)
    moreover have "getdev_ok maxdev p (Returns n devs' (p\<lparr>open_fds := open_fds p + 1\<rparr>) kern1)"
      using f(2,4,5) k(2,4) macs par(1) True by (auto simp: getdev_ok_def)
    ultimately show ?thesis by blast
  next
    case False
    with k(1-3) show ?thesis
      by (auto simp: getdevinfo_parent [OF par] getdev_ok_def Let_def)
  qed
next
  case False
  with assms show ?thesis
    by (auto simp: getdevinfo_def getdevinfo_waiting_def getdev_ok_def Let_def split: fork_result.split option.split)
qed

text \<open>
  The waiting call against the call in which \<open>batctl\<close> ends: the same result, or the parent
  waits for a \<open>batctl\<close> that had more to print than the pipe takes.
\<close>

lemma getdevinfo_waiting_cases:
  fixes cap sc maxdev devs sp kern p
  defines "res \<equiv> getdevinfo_waiting (wait_batctl cap) sc maxdev devs sp kern p"
  shows "res = getdevinfo sc maxdev devs sp kern p \<or> res = Hangs \<and> cap < sum_list (map pending_bytes (batctl_out sp))"
proof (cases "open_fds p + 2 \<le> fd_max p \<and> (\<exists>pid. fork_res sp = InParent pid)")
  case True
  then obtain pid where par: "open_fds p + 2 \<le> fd_max p" "fork_res sp = InParent pid" by blast
  let ?kern = "kern\<lparr>pipe_data := batctl_out sp\<rparr>"
  show ?thesis
  proof (cases "sys_parsebat sc maxdev devs ?kern")
    case (Val x)
    then obtain k devs1 kern1 where k: "sys_parsebat sc maxdev devs ?kern = Val ((k, devs1), kern1)"
      by (metis prod.exhaust)
    have "outstanding kern1 \<le> sum_list (map pending_bytes (batctl_out sp))"
      using sys_parsebat_drains [OF k] by (simp add: outstanding_def)
    with par k show ?thesis
      by (auto simp: res_def getdevinfo_def getdevinfo_waiting_def Let_def parsebat_def wait_batctl_def
          split: prod.split)
  qed (use par in \<open>auto simp: res_def getdevinfo_def getdevinfo_waiting_def Let_def parsebat_def\<close>)
next
  case False
  then show ?thesis
    by (auto simp: res_def getdevinfo_def getdevinfo_waiting_def Let_def split: fork_result.split)
qed

text \<open>
  C22: \<open>getdevinfo\<close> is memory safe and returns unless \<open>batctl\<close> blocks. Whatever \<open>batctl\<close>
  prints, however the pipe cuts it, and whichever call fails in whichever process, it ends
  with a count of at most \<open>maxdev\<close> devices or \<open>-1\<close>; each device counted has a terminated MAC
  address of the table and its IP address; and a call that succeeds leaves one more
  descriptor open. The one exception is \<open>waitpid\<close>: it may wait for ever, and only when
  \<open>batctl\<close>'s whole output does not fit into the pipe.
\<close>

theorem getdevinfo_safe:
  assumes "buf_ok kern" "devs_ok maxdev devs"
  shows "case getdevinfo_waiting (wait_batctl cap) sc maxdev devs sp kern p of
      Val g \<Rightarrow> getdev_ok maxdev p g
    | Hangs \<Rightarrow> cap < sum_list (map pending_bytes (batctl_out sp))
    | _ \<Rightarrow> False"
  using getdevinfo_waiting_cases [of cap sc maxdev devs sp kern p] getdevinfo_any [OF assms, of sc sp p]
  by auto

theorem getdevinfo_safe_witness:
  "\<exists>g. getdevinfo_waiting (wait_batctl 65536) True 4 (blank_devs 4)
      \<lparr>fork_res = InParent 77, dup2_err = None, execv_err = None, batctl_out = [Bytes ''junk'', Fails 5]\<rparr>
      (boot_reader [] USER_DS) \<lparr>open_fds = 5, fd_max = 1024, errno = 0\<rparr> = Val g \<and>
    getdev_ok 4 \<lparr>open_fds = 5, fd_max = 1024, errno = 0\<rparr> g"
  using getdevinfo_safe [where kern = "boot_reader [] USER_DS" and maxdev = 4 and devs = "blank_devs 4"
      and cap = 65536 and sc = True and p = "\<lparr>open_fds = 5, fd_max = 1024, errno = 0\<rparr>"
      and sp = "\<lparr>fork_res = InParent 77, dup2_err = None, execv_err = None,
        batctl_out = [Bytes ''junk'', Fails 5]\<rparr>"]
  by (simp split: outcome.split_asm)

text \<open>
  C40: the call can wait for ever. When the first read from the pipe fails, the call stops
  parsing but still waits for \<open>batctl\<close> with the pipe open; a \<open>batctl\<close> with more to print than
  the pipe takes never ends.
\<close>

theorem getdevinfo_deadlock:
  assumes "open_fds p + 2 \<le> fd_max p" "fork_res sp = InParent pid"
    and "batctl_out sp = Fails e # ps" "0 < e" "cap < sum_list (map pending_bytes ps)"
  shows "getdevinfo_waiting (wait_batctl cap) sc maxdev devs sp kern p = Hangs"
proof -
  have "\<exists>kern'. sys_parsebat sc maxdev devs (kern\<lparr>pipe_data := batctl_out sp\<rparr>) =
      Val ((- int e, devs), kern') \<and> pipe_data kern' = ps"
    using assms(3,4)
    by (simp add: sys_parsebat_def parse_body_def parsebat_reset_def numeral_2_eq_2 skip_to_newline.simps
        getchar_from_fd_def fd_ok_def fd_err_def sys_read_def stopped_def Let_def)
  then obtain kern' where "sys_parsebat sc maxdev devs (kern\<lparr>pipe_data := batctl_out sp\<rparr>) =
      Val ((- int e, devs), kern')" "pipe_data kern' = ps" by blast
  with assms(1,2,5) show ?thesis
    by (auto simp: getdevinfo_waiting_def Let_def parsebat_def wait_batctl_def outstanding_def split: prod.split)
qed

theorem getdevinfo_deadlock_witness:
  "getdevinfo_waiting (wait_batctl 4) True 4 (blank_devs 4)
      \<lparr>fork_res = InParent 77, dup2_err = None, execv_err = None, batctl_out = [Fails 4, Bytes ''wlan0'']\<rparr>
      (boot_reader [] USER_DS) \<lparr>open_fds = 5, fd_max = 1024, errno = 0\<rparr> = Hangs"
  by (rule getdevinfo_deadlock [where pid = 77 and e = 4 and ps = "[Bytes ''wlan0'']"]) simp_all

text \<open>The parent's call on a table of known neighbours.\<close>

lemma getdevinfo_table:
  assumes "open_fds p + 2 \<le> fd_max p" "fork_res sp = InParent pid"
    and "buf_ok kern" "devs_ok maxdev devs"
    and "ascii h1" "ascii h2" "LF \<notin> set h1" "LF \<notin> set h2"
    and "\<forall>w \<in> set rows. row_ok w \<and> mac2ip (addr w) \<noteq> None"
    and "pipe_chars (batctl_out sp) = print_batctl h1 h2 rows" "pipe_end (batctl_out sp) = 0"
    and m: "m = min (length rows) (nat maxdev)"
  shows "\<exists>devs' kern'. getdevinfo sc maxdev devs sp kern p =
      Val (Returns (int m) devs' (p\<lparr>open_fds := open_fds p + 1\<rparr>) kern') \<and>
    (\<forall>j < m. cstring (mac (devs' ! j)) = Val (addr (rows ! j)) \<and>
       Some (cstring (ip (devs' ! j))) = map_option Val (mac2ip (addr (rows ! j))))"
proof -
  let ?kern = "kern\<lparr>pipe_data := batctl_out sp\<rparr>"
  have "buf_ok ?kern" using assms(3) by (simp add: buf_ok_def)
  moreover have "\<forall>w \<in> set rows. row_ok w \<and> NUL \<notin> set (addr w)"
    using assms(9) mac2ip_Some by fastforce
  ultimately obtain devs1 kern1 where
    k: "sys_parsebat sc maxdev devs ?kern = Val ((int m, devs1), kern1)"
    and at: "macs_at m (\<lambda>j. addr (rows ! j)) devs1"
    using sys_parsebat_table [OF _ assms(4-8) _ _ _ m, of ?kern sc] assms(10,11) by auto
  let ?ip = "\<lambda>j. the (mac2ip (addr (rows ! j)))"
  have known: "\<forall>j < m. mac2ip (addr (rows ! j)) = Some (?ip j)"
    using assms(9) m by (auto simp: nth_mem)
  from fill_ips_known [OF _ at known, of 0] obtain devs' where
    f: "fill_ips 0 (int m) devs1 = Val (int m, devs')" "map mac devs' = map mac devs1"
      "\<forall>j < m. cstring (ip (devs' ! j)) = Val (?ip j)" by auto
  have "mac (devs' ! j) = mac (devs1 ! j)" if "j < m" for j
  proof -
    have "length devs' = length devs1" using f(2) by (rule map_eq_imp_length_eq)
    with that at f(2) show ?thesis
      by (metis macs_at_def nth_map order_less_le_trans)
  qed
  with at have "\<forall>j < m. cstring (mac (devs' ! j)) = Val (addr (rows ! j))"
    by (simp add: macs_at_def)
  moreover have "Some (cstring (ip (devs' ! j))) = map_option Val (mac2ip (addr (rows ! j)))"
    if "j < m" for j using f(3) known that by (metis option.simps(9))
  ultimately show ?thesis using k f(1) getdevinfo_parent [OF assms(1,2), of sc maxdev devs kern]
    by (auto simp: Let_def)
qed

text \<open>
  C6: \<open>getdevinfo\<close> end to end. When \<open>batctl\<close> prints a table whose MAC addresses are all
  known, in whatever pieces the pipe delivers it, the parent gets the number of neighbours
  (at most \<open>maxdev\<close>), their MAC addresses in order, and for each the IP address of the table.
  It also comes back with one more open descriptor: the read end of the pipe stays open.
\<close>

theorem getdevinfo_neighbours:
  assumes "open_fds p + 2 \<le> fd_max p" "fork_res sp = InParent pid"
    and "buf_ok kern" "devs_ok maxdev devs"
    and "ascii h1" "ascii h2" "LF \<notin> set h1" "LF \<notin> set h2"
    and "\<forall>w \<in> set rows. row_ok w \<and> mac2ip (addr w) \<noteq> None"
    and "pipe_chars (batctl_out sp) = print_batctl h1 h2 rows" "pipe_end (batctl_out sp) = 0"
    and m: "m = min (length rows) (nat maxdev)"
  shows "\<exists>devs' kern'. getdevinfo sc maxdev devs sp kern p =
      Val (Returns (int m) devs' (p\<lparr>open_fds := open_fds p + 1\<rparr>) kern') \<and>
    (\<forall>j < m. cstring (mac (devs' ! j)) = Val (addr (rows ! j)) \<and>
       Some (cstring (ip (devs' ! j))) = map_option Val (mac2ip (addr (rows ! j))))"
  by (rule getdevinfo_table [OF assms])

theorem getdevinfo_neighbours_witness:
  "\<exists>devs' kern'. getdevinfo True 256 (blank_devs 256)
      \<lparr>fork_res = InParent 77, dup2_err = None, execv_err = None,
        batctl_out = [Bytes (''head'' @ [LF] @ ''IF'' @ [LF] @ ''  wlan0 90:9f:33:ec:0''),
                      Bytes (''4:8a 0.190s'' @ [LF])]\<rparr>
      (boot_reader [] USER_DS) \<lparr>open_fds = 5, fd_max = 1024, errno = 0\<rparr> =
    Val (Returns 1 devs' \<lparr>open_fds = 6, fd_max = 1024, errno = 0\<rparr> kern') \<and>
    cstring (ip (devs' ! 0)) = Val ''192.168.2.1''"
  using getdevinfo_neighbours [of "\<lparr>open_fds = 5, fd_max = 1024, errno = 0\<rparr>"
      "\<lparr>fork_res = InParent 77, dup2_err = None, execv_err = None,
        batctl_out = [Bytes (''head'' @ [LF] @ ''IF'' @ [LF] @ ''  wlan0 90:9f:33:ec:0''),
                      Bytes (''4:8a 0.190s'' @ [LF])]\<rparr>" 77
      "boot_reader [] USER_DS" 256 "blank_devs 256" "''head''" "''IF''"
      "[BatRow ''  '' ''wlan0'' '' '' ''90:9f:33:ec:04:8a'' '' 0.190s'']" 1 True]
  by (auto simp: row_ok_def print_batctl_def print_row_def isspace_def mac2ip_def arptbl_def)

text \<open>
  C34: one stranger on the mesh makes the whole call fail. If any of the neighbours the call
  reads has a MAC address that is not in the table, \<open>getdevinfo\<close> returns \<open>-1\<close>, whatever the
  other rows are, and \<open>errno\<close> keeps its old value.
\<close>

theorem getdevinfo_unknown:
  assumes "open_fds p + 2 \<le> fd_max p" "fork_res sp = InParent pid"
    and "buf_ok kern" "devs_ok maxdev devs"
    and "ascii h1" "ascii h2" "LF \<notin> set h1" "LF \<notin> set h2"
    and "\<forall>w \<in> set rows. row_ok w \<and> NUL \<notin> set (addr w)"
    and "pipe_chars (batctl_out sp) = print_batctl h1 h2 rows" "pipe_end (batctl_out sp) = 0"
    and u: "u < length rows" "int u < maxdev" "mac2ip (addr (rows ! u)) = None"
  shows "\<exists>devs' kern'. getdevinfo sc maxdev devs sp kern p =
      Val (Returns (-1) devs' (p\<lparr>open_fds := open_fds p + 1\<rparr>) kern')"
proof -
  let ?kern = "kern\<lparr>pipe_data := batctl_out sp\<rparr>" and ?m = "min (length rows) (nat maxdev)"
  have "buf_ok ?kern" using assms(3) by (simp add: buf_ok_def)
  then obtain devs1 kern1 where
    k: "sys_parsebat sc maxdev devs ?kern = Val ((int ?m, devs1), kern1)"
    and at: "macs_at ?m (\<lambda>j. addr (rows ! j)) devs1"
    using sys_parsebat_table [OF _ assms(4-9) _ _ refl, of ?kern sc] assms(10,11) by auto
  have "u < ?m" using u by simp
  from fill_ips_unknown [OF _ this at, of 0] u obtain devs' where
    "fill_ips 0 (int ?m) devs1 = Val (-1, devs')" by auto
  with k show ?thesis using getdevinfo_parent [OF assms(1,2), of sc maxdev devs kern]
    by (auto simp: Let_def)
qed

theorem getdevinfo_unknown_witness:
  "\<exists>devs' kern'. getdevinfo False 256 (blank_devs 256)
      \<lparr>fork_res = InParent 77, dup2_err = None, execv_err = None,
        batctl_out = [Bytes (''h'' @ [LF] @ ''I'' @ [LF] @ '' w 00:00:00:00:00:00'' @ [LF])]\<rparr>
      (boot_reader [] USER_DS) \<lparr>open_fds = 5, fd_max = 1024, errno = 0\<rparr> =
    Val (Returns (-1) devs' \<lparr>open_fds = 6, fd_max = 1024, errno = 0\<rparr> kern')"
  using getdevinfo_unknown [of "\<lparr>open_fds = 5, fd_max = 1024, errno = 0\<rparr>"
      "\<lparr>fork_res = InParent 77, dup2_err = None, execv_err = None,
        batctl_out = [Bytes (''h'' @ [LF] @ ''I'' @ [LF] @ '' w 00:00:00:00:00:00'' @ [LF])]\<rparr>" 77
      "boot_reader [] USER_DS" 256 "blank_devs 256" "''h''" "''I''"
      "[BatRow '' '' ''w'' '' '' ''00:00:00:00:00:00'' []]" 0 False]
  by (auto simp: row_ok_def print_batctl_def print_row_def isspace_def mac2ip_def arptbl_def)

text \<open>
  C35: the error number is lost. When the system call fails with any error, the C library has
  already returned \<open>-1\<close> and put the error into \<open>errno\<close>; \<open>getdevinfo\<close> then overwrites
  \<open>errno\<close> with the negation of that \<open>-1\<close>, so the caller always sees 1 (\<open>EPERM\<close>).
\<close>

theorem getdevinfo_errno:
  assumes "open_fds p + 2 \<le> fd_max p" "fork_res sp = InParent pid"
    and "sys_parsebat sc maxdev devs (kern\<lparr>pipe_data := batctl_out sp\<rparr>) = Val ((- e, devs'), kern')"
    and "0 < e" "e \<le> 4095"
  shows "getdevinfo sc maxdev devs sp kern p =
    Val (Returns (-1) devs' (p\<lparr>open_fds := open_fds p + 1, errno := 1\<rparr>) kern')"
  using getdevinfo_parent [OF assms(1,2), of sc maxdev devs kern] assms(3-5)
  by (simp add: Let_def)

theorem getdevinfo_errno_witness:
  "\<exists>devs' kern'. getdevinfo False 256 (blank_devs 256)
      \<lparr>fork_res = InParent 77, dup2_err = None, execv_err = None, batctl_out = [Fails 5]\<rparr>
      (boot_reader [] USER_DS) \<lparr>open_fds = 5, fd_max = 1024, errno = 0\<rparr> =
    Val (Returns (-1) devs' \<lparr>open_fds = 6, fd_max = 1024, errno = 1\<rparr> kern')"
proof -
  let ?sp = "\<lparr>fork_res = InParent 77, dup2_err = None, execv_err = None, batctl_out = [Fails 5]\<rparr>"
  let ?kern = "(boot_reader [] USER_DS)\<lparr>pipe_data := [Fails 5]\<rparr>"
  have "buf_ok ?kern" using buf_ok_boot [of "[]" USER_DS] by (simp add: buf_ok_def)
  moreover have "s_parsebat False 256 (pipe_stream (pipe_data ?kern)) = ((-5, []), Done (-5))"
    by (simp add: pipe_stream_def s_parsebat_def s_stopped_def numeral_2_eq_2)
  ultimately obtain kern' where
    "sys_parsebat False 256 (blank_devs 256) ?kern = Val ((- 5, blank_devs 256), kern')"
    using sys_parsebat_stream [of ?kern 256 "blank_devs 256" False "-5" "[]"] by auto
  with getdevinfo_errno [of "\<lparr>open_fds = 5, fd_max = 1024, errno = 0\<rparr>" ?sp 77 False 256
      "blank_devs 256" "boot_reader [] USER_DS" 5]
  show ?thesis by fastforce
qed

end
