(* ===== verification/Exchange.thy ===== *)
theory Exchange
  imports Prelude
begin

text \<open>
  The exchange sort that \<open>re_align\<close> (\<open>studysys/schedule.c\<close>) runs twice, as functions on
  lists: one inner loop is a pass that carries the smallest element seen so far, the first
  phase sorts by one order, the second sorts every run of equal elements by another. The
  laws the two orders have to satisfy are the locales \<open>exchange_order\<close> and \<open>run_order\<close>.
\<close>

section \<open>One pass\<close>

fun exchange_pass :: "('a \<Rightarrow> 'a \<Rightarrow> bool) \<Rightarrow> 'a \<Rightarrow> 'a list \<Rightarrow> 'a \<times> 'a list" where
  "exchange_pass gt x [] = (x, [])"
| "exchange_pass gt x (y # ys) =
     (if gt x y then (case exchange_pass gt y ys of (m, zs) \<Rightarrow> (m, x # zs))
      else (case exchange_pass gt x ys of (m, zs) \<Rightarrow> (m, y # zs)))"

lemma exchange_pass_mset:
  "exchange_pass gt x ys = (m, zs) \<Longrightarrow> add_mset m (mset zs) = add_mset x (mset ys)"
proof (induction gt x ys arbitrary: m zs rule: exchange_pass.induct)
  case (2 gt x y ys)
  then show ?case by (auto split: if_splits prod.splits simp: add_mset_commute)
qed simp

lemma exchange_pass_length: "exchange_pass gt x ys = (m, zs) \<Longrightarrow> length zs = length ys"
  by (drule exchange_pass_mset, drule arg_cong [where f = size]) simp

lemma exchange_pass_set:
  "exchange_pass gt x ys = (m, zs) \<Longrightarrow> insert m (set zs) = insert x (set ys)"
  by (drule exchange_pass_mset, drule arg_cong [where f = set_mset]) simp

section \<open>Sorting by one order, and sorting the runs by another\<close>

function exchange_sort :: "('a \<Rightarrow> 'a \<Rightarrow> bool) \<Rightarrow> 'a list \<Rightarrow> 'a list" where
  "exchange_sort gt [] = []"
| "exchange_sort gt (x # xs) = (case exchange_pass gt x xs of (m, zs) \<Rightarrow> m # exchange_sort gt zs)"
  by pat_completeness auto
termination
  by (relation "measure (length \<circ> snd)") (auto dest: exchange_pass_length [OF sym])

function run_sort :: "('a \<Rightarrow> 'a \<Rightarrow> bool) \<Rightarrow> ('a \<Rightarrow> 'a \<Rightarrow> bool) \<Rightarrow> 'a list \<Rightarrow> 'a list" where
  "run_sort same gt [] = []"
| "run_sort same gt (x # xs) =
     (case exchange_pass gt x (takeWhile (same x) xs) of
        (m, zs) \<Rightarrow> m # run_sort same gt (zs @ dropWhile (same x) xs))"
  by pat_completeness auto
termination
proof (relation "measure (length \<circ> snd \<circ> snd)", goal_cases)
  case (2 same gt x xs m zs)
  then have "length zs = length (takeWhile (same x) xs)" by (metis exchange_pass_length)
  then have "length (zs @ dropWhile (same x) xs) = length xs"
    by (metis length_append takeWhile_dropWhile_id)
  then show ?case by simp
qed simp

lemma exchange_sort_mset [simp]: "mset (exchange_sort gt xs) = mset xs"
  by (induction gt xs rule: exchange_sort.induct)
    (auto split: prod.splits dest: exchange_pass_mset)

lemma exchange_sort_length [simp]: "length (exchange_sort gt xs) = length xs"
  by (metis exchange_sort_mset size_mset)

lemma exchange_sort_set [simp]: "set (exchange_sort gt xs) = set xs"
  by (metis exchange_sort_mset set_mset_mset)

lemma run_sort_mset [simp]: "mset (run_sort same gt xs) = mset xs"
proof (induction same gt xs rule: run_sort.induct)
  case (2 same gt x xs)
  obtain m zs where p: "exchange_pass gt x (takeWhile (same x) xs) = (m, zs)" by fastforce
  have "mset (takeWhile (same x) xs) + mset (dropWhile (same x) xs) = mset xs"
    by (metis mset_append takeWhile_dropWhile_id)
  with 2 [OF p [symmetric]] exchange_pass_mset [OF p] p show ?case
    by (auto simp flip: union_mset_add_mset_left)
qed simp

lemma run_sort_length [simp]: "length (run_sort same gt xs) = length xs"
  by (metis run_sort_mset size_mset)

lemma run_sort_set [simp]: "set (run_sort same gt xs) = set xs"
  by (metis run_sort_mset set_mset_mset)

section \<open>The laws of the order\<close>

text \<open>\<open>gt x y\<close>: \<open>x\<close> has to come after \<open>y\<close>, a strict weak order.\<close>

locale exchange_order =
  fixes gt :: "'a \<Rightarrow> 'a \<Rightarrow> bool"
  assumes asym: "gt x y \<Longrightarrow> \<not> gt y x"
    and cotrans: "\<not> gt x y \<Longrightarrow> \<not> gt y z \<Longrightarrow> \<not> gt x z"
begin

lemma irrefl: "\<not> gt x x"
  using asym by blast

lemma pass_min:
  "exchange_pass gt x ys = (m, zs) \<Longrightarrow> \<not> gt m x \<and> (\<forall>z \<in> set zs. \<not> gt m z)"
proof (induction ys arbitrary: x m zs)
  case Nil
  then show ?case by (simp add: irrefl)
next
  case (Cons y ys)
  obtain m' zs' where p: "exchange_pass gt (if gt x y then y else x) ys = (m', zs')" by fastforce
  from Cons.IH [OF p] have min: "\<not> gt m' (if gt x y then y else x)" "\<forall>z \<in> set zs'. \<not> gt m' z"
    by blast+
  show ?case
  proof (cases "gt x y")
    case True
    then have "\<not> gt m' x" using min(1) asym cotrans by (metis (full_types))
    with True p min Cons.prems show ?thesis by auto
  next
    case False
    then have "\<not> gt m' y" using min(1) cotrans by (metis (full_types))
    with False p min Cons.prems show ?thesis by auto
  qed
qed

lemma sort_sorted: "sorted_wrt (\<lambda>a b. \<not> gt a b) (exchange_sort gt xs)"
proof (induction "length xs" arbitrary: xs)
  case (Suc n)
  then obtain x ys where xs: "xs = x # ys" by (cases xs) auto
  obtain m zs where p: "exchange_pass gt x ys = (m, zs)" by fastforce
  with Suc xs have "sorted_wrt (\<lambda>a b. \<not> gt a b) (exchange_sort gt zs)"
    by (simp add: exchange_pass_length)
  with p xs pass_min [OF p] show ?case by simp
qed simp

end

text \<open>
  Two orders: the runs of elements that are equal under the first one are sorted by the
  second. The result is sorted by the first order and, where that ties, by the second.
\<close>

locale run_order =
  major: exchange_order later + minor: exchange_order gt
  for later :: "'a \<Rightarrow> 'a \<Rightarrow> bool" and gt :: "'a \<Rightarrow> 'a \<Rightarrow> bool" +
  fixes same :: "'a \<Rightarrow> 'a \<Rightarrow> bool"
  assumes same_iff: "same x y \<longleftrightarrow> \<not> later x y \<and> \<not> later y x"
begin

lemma later_mono: "later d x \<Longrightarrow> \<not> later d e \<Longrightarrow> later e x"
  using major.cotrans by blast

lemma drop_run_later:
  assumes "sorted_wrt (\<lambda>a b. \<not> later a b) (x # xs)" "d \<in> set (dropWhile (same x) xs)"
  shows "later d x"
proof -
  obtain d0 ds where dw: "dropWhile (same x) xs = d0 # ds"
    using assms(2) by (cases "dropWhile (same x) xs") auto
  then have "\<not> same x d0" using hd_dropWhile [of "same x" xs] by simp
  moreover have sub: "xs = takeWhile (same x) xs @ d0 # ds"
    using dw by (metis takeWhile_dropWhile_id)
  with assms(1) have "sorted_wrt (\<lambda>a b. \<not> later a b) (x # takeWhile (same x) xs @ d0 # ds)" by simp
  then have "\<not> later x d0" "\<forall>e \<in> set ds. \<not> later d0 e" by (auto simp: sorted_wrt_append)
  ultimately have "later d0 x" "d = d0 \<or> \<not> later d0 d"
    using assms(2) dw by (auto simp: same_iff)
  then show ?thesis using later_mono by blast
qed

lemma run_sort_sorted:
  "sorted_wrt (\<lambda>a b. \<not> later a b) xs \<Longrightarrow>
   sorted_wrt (\<lambda>a b. \<not> later a b \<and> (same a b \<longrightarrow> \<not> gt a b)) (run_sort same gt xs)"
proof (induction "length xs" arbitrary: xs)
  case (Suc n)
  then obtain x ys where xs: "xs = x # ys" by (cases xs) auto
  let ?r = "takeWhile (same x) ys" and ?d = "dropWhile (same x) ys"
  obtain m zs where p: "exchange_pass gt x ?r = (m, zs)" by fastforce
  have run: "same x z" if "z \<in> set (m # zs)" for z
    using that exchange_pass_set [OF p] set_takeWhileD [of z "same x" ys]
    by (auto simp: same_iff major.irrefl)
  have run2: "\<not> later a b" if "a \<in> set (m # zs)" "b \<in> set (m # zs)" for a b
    using run [OF that(1)] run [OF that(2)] major.cotrans [of a x b] by (auto simp: same_iff)
  have drop: "later d x" if "d \<in> set ?d" for d
    using drop_run_later [of x ys d] Suc.prems xs that by simp
  have later: "\<not> later z d \<and> \<not> same z d" if "z \<in> set (m # zs)" "d \<in> set ?d" for z d
  proof -
    have "\<not> later z x" using run [OF that(1)] by (simp add: same_iff)
    then have "later d z" using drop [OF that(2)] major.cotrans by blast
    then show ?thesis using major.asym by (auto simp: same_iff)
  qed
  have "sorted_wrt (\<lambda>a b. \<not> later a b) (?r @ ?d)" using Suc.prems xs by simp
  then have "sorted_wrt (\<lambda>a b. \<not> later a b) ?d" by (simp only: sorted_wrt_append)
  moreover have "sorted_wrt (\<lambda>a b. \<not> later a b) zs"
    using run2 by (intro sorted_wrt_mono_rel [OF _ sorted_wrt_true]) auto
  ultimately have "sorted_wrt (\<lambda>a b. \<not> later a b) (zs @ ?d)"
    using later by (auto simp: sorted_wrt_append)
  moreover have "length ?r + length ?d = length ys"
    by (metis length_append takeWhile_dropWhile_id)
  then have "n = length (zs @ ?d)"
    using Suc.hyps(2) xs exchange_pass_length [OF p] by simp
  ultimately have "sorted_wrt (\<lambda>a b. \<not> later a b \<and> (same a b \<longrightarrow> \<not> gt a b)) (run_sort same gt (zs @ ?d))"
    using Suc.hyps(1) by blast
  moreover have "\<forall>b \<in> set (zs @ ?d). \<not> later m b \<and> (same m b \<longrightarrow> \<not> gt m b)"
    using run2 later minor.pass_min [OF p] by auto
  ultimately show ?case using p xs by simp
qed simp

end

end
