(* ===== verification/Schedule.thy ===== *)
theory Schedule
  imports Exchange
begin

text \<open>
  The schedule entries of \<open>include/schedule.h\<close> and \<open>re_align\<close> of \<open>studysys/schedule.c\<close>,
  which orders the first \<open>n\<close> entries of an array by date and then, inside every date, by
  time. The array is the whole block of memory the caller owns: the second phase has no
  bound on its inner loop and reads entries at and after position \<open>n\<close>.
\<close>

section \<open>Entries\<close>

definition DATA_MAX :: nat where "DATA_MAX = 7"
definition SUBJECT_NAME_MAX :: nat where "SUBJECT_NAME_MAX = 20"
definition TIME_STR_MAX :: nat where "TIME_STR_MAX = 5"

record schedule =
  date :: string
  name_sub :: string
  time :: string

text \<open>What the list is sorted by: the date and then the time, compared as \<open>strcmp\<close> does.\<close>

datatype sched_key = Key (key_date: string) (key_time: string)

instantiation sched_key :: linorder
begin

definition less_eq_sched_key :: "sched_key \<Rightarrow> sched_key \<Rightarrow> bool" where
  "less_eq_sched_key a b \<longleftrightarrow>
     key_date a < key_date b \<or> key_date a = key_date b \<and> key_time a \<le> key_time b"

definition less_sched_key :: "sched_key \<Rightarrow> sched_key \<Rightarrow> bool" where
  "less_sched_key a b \<longleftrightarrow>
     key_date a < key_date b \<or> key_date a = key_date b \<and> key_time a < key_time b"

instance
  by standard (auto simp: less_eq_sched_key_def less_sched_key_def sched_key.expand)

end

definition sched_key :: "schedule \<Rightarrow> sched_key" where
  "sched_key s = Key (date s) (time s)"

section \<open>\<open>re_align\<close>\<close>

text \<open>Swapping two entries through \<open>tmp\<close>, by three copies of the whole structure.\<close>

definition exchange :: "'a list \<Rightarrow> int \<Rightarrow> int \<Rightarrow> 'a list outcome" where
  "exchange a i j =
     bind_out (array_get a i) (\<lambda>tmp.
     bind_out (array_get a j) (\<lambda>y.
     bind_out (array_put a i y) (\<lambda>a.
     array_put a j tmp)))"

function date_inner :: "int \<Rightarrow> int \<Rightarrow> int \<Rightarrow> schedule list \<Rightarrow> schedule list outcome" where
  "date_inner i j n a =
     (if j < n then
        bind_out (array_get a i) (\<lambda>x.
        bind_out (array_get a j) (\<lambda>y.
        bind_out (if 0 < strcmp (date x) (date y) then exchange a i j else Val a) (\<lambda>a.
        date_inner i (j + 1) n a)))
      else Val a)"
  by pat_completeness auto
termination
  by (relation "measure (\<lambda>(i, j, n, a). nat (n - j))") auto

function date_phase :: "int \<Rightarrow> int \<Rightarrow> schedule list \<Rightarrow> schedule list outcome" where
  "date_phase i n a =
     (if i < n then bind_out (date_inner i (i + 1) n a) (\<lambda>a. date_phase (i + 1) n a) else Val a)"
  by pat_completeness auto
termination
  by (relation "measure (\<lambda>(i, n, a). nat (n - i))") auto

text \<open>
  The inner loop of the second phase runs while the dates are equal; nothing compares \<open>j\<close>
  with \<open>n\<close>. It ends at a different date or, in undefined behaviour, at the end of the memory.
\<close>

lemma exchange_length: "exchange a i j = Val b \<Longrightarrow> length b = length a"
  by (auto simp: exchange_def outcome_simps)

function time_inner :: "int \<Rightarrow> int \<Rightarrow> schedule list \<Rightarrow> schedule list outcome" where
  "time_inner i j a =
     bind_out (array_get a i) (\<lambda>x.
     bind_out (array_get a j) (\<lambda>y.
     if strcmp (date x) (date y) = 0 then
       bind_out (if 0 < strcmp (time x) (time y) then exchange a i j else Val a) (\<lambda>a.
       time_inner i (j + 1) a)
     else Val a))"
  by pat_completeness auto
termination
  by (relation "measure (\<lambda>(i, j, a). nat (int (length a) - j))")
    (auto simp: outcome_simps split: if_splits dest!: exchange_length)

function time_phase :: "int \<Rightarrow> int \<Rightarrow> schedule list \<Rightarrow> schedule list outcome" where
  "time_phase i n a =
     (if i < n then bind_out (time_inner i (i + 1) a) (\<lambda>a. time_phase (i + 1) n a) else Val a)"
  by pat_completeness auto
termination
  by (relation "measure (\<lambda>(i, n, a). nat (n - i))") auto

declare date_inner.simps [simp del] date_phase.simps [simp del]
  time_inner.simps [simp del] time_phase.simps [simp del]

definition re_align :: "schedule list \<Rightarrow> int \<Rightarrow> schedule list outcome" where
  "re_align a n = bind_out (date_phase 0 n a) (time_phase 0 n)"

section \<open>The phases as functions on lists\<close>

definition date_gt :: "schedule \<Rightarrow> schedule \<Rightarrow> bool" where
  "date_gt x y \<longleftrightarrow> 0 < strcmp (date x) (date y)"

definition time_gt :: "schedule \<Rightarrow> schedule \<Rightarrow> bool" where
  "time_gt x y \<longleftrightarrow> 0 < strcmp (time x) (time y)"

definition same_date :: "schedule \<Rightarrow> schedule \<Rightarrow> bool" where
  "same_date x y \<longleftrightarrow> strcmp (date x) (date y) = 0"

interpretation by_date: exchange_order date_gt
  by unfold_locales (auto simp: date_gt_def)

interpretation by_date_time: run_order date_gt time_gt same_date
  by unfold_locales (auto simp: date_gt_def time_gt_def same_date_def)

lemma exchange_mid:
  assumes k: "k = length pre + 1 + length mid"
  shows "exchange (pre @ x # mid @ y # post) (int (length pre)) (int k) =
     Val (pre @ y # mid @ x # post)"
proof -
  have "(pre @ y # mid @ y # post)[k := x] = pre @ y # mid @ x # post"
    by (simp add: k list_update_append)
  with array_get_mid [OF k, of x y post] show ?thesis by (simp add: exchange_def k del: of_nat_add of_nat_Suc)
qed

lemma date_inner_pass:
  "k = length pre + 1 + length mid \<Longrightarrow> n = k + length ys \<Longrightarrow>
   date_inner (int (length pre)) (int k) (int n) (pre @ x # mid @ ys @ post) =
   (case exchange_pass date_gt x ys of (m, zs) \<Rightarrow> Val (pre @ m # mid @ zs @ post))"
proof (induction ys arbitrary: x mid k)
  case Nil
  then show ?case by (subst date_inner.simps) simp
next
  case (Cons y ys)
  let ?x = "if date_gt x y then y else x" and ?y = "if date_gt x y then x else y"
  have "date_inner (int (length pre)) (int k) (int n) (pre @ x # mid @ (y # ys) @ post) =
    date_inner (int (length pre)) (int (Suc k)) (int n) (pre @ ?x # (mid @ [?y]) @ ys @ post)"
    using array_get_mid [OF Cons.prems(1), of x y "ys @ post"]
      exchange_mid [OF Cons.prems(1), of x y "ys @ post"] Cons.prems(2)
    by (subst date_inner.simps)
      (simp add: date_gt_def int_plus_1 del: strcmp_pos of_nat_Suc)
  with Cons.IH [of "Suc k" "mid @ [?y]" ?x] Cons.prems show ?case by (auto split: prod.split)
qed

lemma date_phase_sort:
  "n = length pre + length xs \<Longrightarrow>
   date_phase (int (length pre)) (int n) (pre @ xs @ post) = Val (pre @ exchange_sort date_gt xs @ post)"
proof (induction "length xs" arbitrary: xs pre)
  case 0
  then show ?case by (subst date_phase.simps) simp
next
  case (Suc l)
  then obtain x ys where xs: "xs = x # ys" by (cases xs) auto
  obtain m zs where p: "exchange_pass date_gt x ys = (m, zs)" by fastforce
  from date_inner_pass [of "Suc (length pre)" pre "[]" n ys x post] Suc.prems xs p
  have "date_inner (int (length pre)) (int (Suc (length pre))) (int n) (pre @ xs @ post) =
    Val (pre @ m # zs @ post)" by simp
  then have "date_phase (int (length pre)) (int n) (pre @ xs @ post) =
      date_phase (int (length (pre @ [m]))) (int n) ((pre @ [m]) @ zs @ post)"
    using Suc.prems xs by (subst date_phase.simps) (simp add: int_plus_1 del: of_nat_Suc)
  also have "\<dots> = Val ((pre @ [m]) @ exchange_sort date_gt zs @ post)"
    using Suc xs exchange_pass_length [OF p] by (intro Suc.hyps(1)) auto
  finally show ?case using xs p by simp
qed

text \<open>
  The inner loop of the second phase from an entry \<open>x\<close>: a pass over the entries \<open>ys\<close> with
  the date of \<open>x\<close>, ended by an entry \<open>e\<close> with another date.
\<close>

lemma time_inner_pass:
  "k = length pre + 1 + length mid \<Longrightarrow> \<forall>y \<in> set ys. same_date x y \<Longrightarrow> \<not> same_date x e \<Longrightarrow>
   time_inner (int (length pre)) (int k) (pre @ x # mid @ ys @ e # post) =
   (case exchange_pass time_gt x ys of (m, zs) \<Rightarrow> Val (pre @ m # mid @ zs @ e # post))"
proof (induction ys arbitrary: x mid k)
  case Nil
  then show ?case using array_get_mid [OF Nil(1), of x e post]
    by (subst time_inner.simps) (simp add: same_date_def)
next
  case (Cons y ys)
  let ?x = "if time_gt x y then y else x" and ?y = "if time_gt x y then x else y"
  have "time_inner (int (length pre)) (int k) (pre @ x # mid @ (y # ys) @ e # post) =
    time_inner (int (length pre)) (int (Suc k)) (pre @ ?x # (mid @ [?y]) @ ys @ e # post)"
    using array_get_mid [OF Cons.prems(1), of x y "ys @ e # post"]
      exchange_mid [OF Cons.prems(1), of x y "ys @ e # post"] Cons.prems(2)
    by (subst time_inner.simps)
      (simp add: time_gt_def same_date_def int_plus_1 del: strcmp_pos of_nat_Suc)
  moreover have "\<forall>z \<in> set ys. same_date ?x z" "\<not> same_date ?x e"
    using Cons.prems by (auto simp: same_date_def)
  ultimately show ?case using Cons.IH [of "Suc k" "mid @ [?y]" ?x] Cons.prems(1)
    by (auto split: prod.split)
qed

lemma time_phase_sort:
  "n = length pre + length xs \<Longrightarrow> \<forall>x \<in> set xs. \<not> same_date x e \<Longrightarrow>
   time_phase (int (length pre)) (int n) (pre @ xs @ e # post) =
     Val (pre @ run_sort same_date time_gt xs @ e # post)"
proof (induction "length xs" arbitrary: xs pre)
  case 0
  then show ?case by (subst time_phase.simps) simp
next
  case (Suc l)
  then obtain x ys where xs: "xs = x # ys" by (cases xs) auto
  let ?r = "takeWhile (same_date x) ys" and ?d = "dropWhile (same_date x) ys"
  obtain m zs where p: "exchange_pass time_gt x ?r = (m, zs)" by fastforce
  obtain e1 post1 where rest: "?d @ e # post = e1 # post1" by (cases "?d @ e # post") auto
  have ys: "ys @ e # post = ?r @ e1 # post1"
    using rest by (metis append_assoc takeWhile_dropWhile_id)
  have e1: "\<not> same_date x e1"
    using rest Suc.prems(2) xs hd_dropWhile [of "same_date x" ys] by (cases ?d) auto
  have "\<forall>y \<in> set ?r. same_date x y" by (auto dest: set_takeWhileD)
  from time_inner_pass [of "Suc (length pre)" pre "[]", OF _ this e1, of post1] p
  have "time_inner (int (length pre)) (int (Suc (length pre))) (pre @ xs @ e # post) =
    Val (pre @ m # zs @ ?d @ e # post)" using xs ys rest by simp
  then have "time_phase (int (length pre)) (int n) (pre @ xs @ e # post) =
      time_phase (int (length (pre @ [m]))) (int n) ((pre @ [m]) @ (zs @ ?d) @ e # post)"
    using Suc.prems xs by (subst time_phase.simps) (simp add: int_plus_1 del: of_nat_Suc)
  also have "\<dots> = Val ((pre @ [m]) @ run_sort same_date time_gt (zs @ ?d) @ e # post)"
  proof (rule Suc.hyps(1))
    have len: "length ?r + length ?d = length ys" by (metis length_append takeWhile_dropWhile_id)
    then show "l = length (zs @ ?d)" using Suc.hyps(2) xs exchange_pass_length [OF p] by simp
    then show "n = length (pre @ [m]) + length (zs @ ?d)" using Suc.prems(1) Suc.hyps(2) xs by simp
    have "set (zs @ ?d) \<subseteq> set xs"
      using exchange_pass_set [OF p] xs by (auto dest: set_takeWhileD set_dropWhileD)
    then show "\<forall>x \<in> set (zs @ ?d). \<not> same_date x e" using Suc.prems(2) by blast
  qed
  finally show ?case using xs p by simp
qed

text \<open>The whole function on the entries \<open>xs\<close> when the entry after them has another date.\<close>

definition align_list :: "schedule list \<Rightarrow> schedule list" where
  "align_list xs = run_sort same_date time_gt (exchange_sort date_gt xs)"

lemma re_align_list:
  assumes "\<forall>x \<in> set xs. date x \<noteq> date e"
  shows "re_align (xs @ e # post) (int (length xs)) = Val (align_list xs @ e # post)"
proof -
  from date_phase_sort [of "length xs" "[]" xs "e # post"]
  have "date_phase 0 (int (length xs)) (xs @ e # post) = Val (exchange_sort date_gt xs @ e # post)"
    by simp
  moreover from time_phase_sort [of "length xs" "[]" "exchange_sort date_gt xs" e post] assms
  have "time_phase 0 (int (length xs)) (exchange_sort date_gt xs @ e # post) =
      Val (align_list xs @ e # post)" by (simp add: same_date_def align_list_def)
  ultimately show ?thesis by (simp add: re_align_def)
qed

lemma align_list_mset [simp]: "mset (align_list xs) = mset xs"
  by (simp add: align_list_def)

lemma align_list_set [simp]: "set (align_list xs) = set xs"
  by (simp add: align_list_def)

lemma align_list_length [simp]: "length (align_list xs) = length xs"
  by (simp add: align_list_def)

lemma align_list_sorted: "sorted (map sched_key (align_list xs))"
proof -
  have "sorted_wrt (\<lambda>a b. \<not> date_gt a b \<and> (same_date a b \<longrightarrow> \<not> time_gt a b)) (align_list xs)"
    unfolding align_list_def by (intro by_date_time.run_sort_sorted by_date.sort_sorted)
  then show ?thesis
    by (auto simp: sorted_wrt_map sched_key_def less_eq_sched_key_def date_gt_def same_date_def
        time_gt_def elim!: sorted_wrt_mono_rel [rotated])
qed

lemma re_align_negative: "n \<le> 0 \<Longrightarrow> re_align a n = Val a"
  by (simp add: re_align_def date_phase.simps time_phase.simps)

section \<open>Properties\<close>

text \<open>
  C10: \<open>re_align\<close> sorts. When the entry after the first \<open>n\<close> has a date none of them has (as a
  zeroed entry does), the call returns, the first \<open>n\<close> entries are a permutation of what they
  were, ordered by date and then time, and nothing after them changes.
\<close>

theorem re_align_sorts:
  assumes "n < length a" "\<forall>s \<in> set (take n a). date s \<noteq> date (a ! n)"
  shows "\<exists>a'. re_align a (int n) = Val a' \<and> mset (take n a') = mset (take n a) \<and>
    sorted (map sched_key (take n a')) \<and> drop n a' = drop n a"
proof -
  have split: "a = take n a @ a ! n # drop (Suc n) a" using assms(1) by (rule id_take_nth_drop)
  have len: "length (take n a) = n" using assms(1) by simp
  let ?xs = "align_list (take n a)"
  have "re_align a (int n) = Val (?xs @ a ! n # drop (Suc n) a)"
    using re_align_list [OF assms(2), of "drop (Suc n) a"] split len by simp
  moreover have "take n (?xs @ a ! n # drop (Suc n) a) = ?xs"
    "drop n (?xs @ a ! n # drop (Suc n) a) = drop n a"
    using assms(1) by (simp_all add: Cons_nth_drop_Suc)
  ultimately show ?thesis using align_list_sorted by fastforce
qed

theorem re_align_sorts_witness:
  "let a = [\<lparr>date = ''170606'', name_sub = ''Korean'', time = ''1819''\<rparr>,
            \<lparr>date = ''170313'', name_sub = ''Science'', time = ''1500''\<rparr>,
            \<lparr>date = [], name_sub = [], time = []\<rparr>] in
   \<exists>a'. re_align a 2 = Val a' \<and> mset (take 2 a') = mset (take 2 a) \<and>
     sorted (map sched_key (take 2 a')) \<and> drop 2 a' = drop 2 a"
  using re_align_sorts [of 2 "[\<lparr>date = ''170606'', name_sub = ''Korean'', time = ''1819''\<rparr>,
            \<lparr>date = ''170313'', name_sub = ''Science'', time = ''1500''\<rparr>,
            \<lparr>date = [], name_sub = [], time = []\<rparr>]"]
  unfolding Let_def by simp

text \<open>
  C38: without such an entry \<open>re_align\<close> is wrong. If the memory after a single entry still
  holds an entry of the same date and an earlier time (from an array that was on the stack
  before), the stale entry replaces the real one, which moves behind the end.
\<close>

theorem re_align_stale:
  assumes "date x = date y" "strcmp (time x) (time y) > 0" "date z \<noteq> date x"
  shows "re_align (x # y # z # rest) 1 = Val (y # x # z # rest)"
proof -
  have "date_phase 0 1 (x # y # z # rest) = Val (x # y # z # rest)"
    using date_phase_sort [of 1 "[]" "[x]" "y # z # rest"] by simp
  moreover have "time_phase 0 1 (x # y # z # rest) = Val (y # x # z # rest)"
    using assms time_inner_pass [of 1 "[]" "[]" "[y]" x z rest] time_phase.simps [of 1 1]
    by (subst time_phase.simps) (simp add: same_date_def time_gt_def)
  ultimately show ?thesis by (simp add: re_align_def)
qed

theorem re_align_stale_witness:
  "re_align [\<lparr>date = ''170606'', name_sub = ''Korean'', time = ''1819''\<rparr>,
             \<lparr>date = ''170606'', name_sub = ''Music'', time = ''1816''\<rparr>,
             \<lparr>date = [], name_sub = [], time = []\<rparr>] 1 =
   Val [\<lparr>date = ''170606'', name_sub = ''Music'', time = ''1816''\<rparr>,
        \<lparr>date = ''170606'', name_sub = ''Korean'', time = ''1819''\<rparr>,
        \<lparr>date = [], name_sub = [], time = []\<rparr>]"
  by (rule re_align_stale) simp_all

end
