(* ===== verification/Stdio.thy ===== *)
theory Stdio
  imports Prelude
begin

text \<open>
  What the program uses of the C library's formatted input and output: the conversions
  \<open>%s\<close>, \<open>%Ns\<close> and \<open>%d\<close> of the \<open>scanf\<close> family, \<open>fgets\<close>, and the formats \<open>%Ns\<close>, \<open>%-Ns\<close>,
  \<open>%0Nd\<close> of \<open>fprintf\<close>. The contents of a text file and of the standard input are strings.

  The locale \<open>record_codec\<close> is the contract between a line that is printed and the scanner
  that reads it back; its lemmas lift the round trip of one record to a whole file.
\<close>

section \<open>Scanning\<close>

definition skip_ws :: "string \<Rightarrow> string" where
  "skip_ws s = dropWhile c_isspace s"

text \<open>A scanned token is stored as it is; a NUL inside it ends the C string it makes.\<close>

definition c_str :: "string \<Rightarrow> string" where
  "c_str s = takeWhile (\<lambda>c. c \<noteq> NUL) s"

text \<open>\<open>%s\<close> (no width) and \<open>%Ns\<close>: \<open>None\<close> only when no character but white space is left.\<close>

definition scan_str :: "nat option \<Rightarrow> string \<Rightarrow> (string \<times> string) option" where
  "scan_str w s =
     (let t = skip_ws s;
          word = takeWhile (\<lambda>c. \<not> c_isspace c) t;
          tok = (case w of None \<Rightarrow> word | Some n \<Rightarrow> take n word)
      in if t = [] then None else Some (tok, drop (length tok) t))"

definition is_digit :: "char \<Rightarrow> bool" where
  "is_digit c \<longleftrightarrow> (48::nat) \<le> of_char c \<and> of_char c \<le> (57::nat)"

definition digit_val :: "char \<Rightarrow> int" where
  "digit_val c = of_char c - 48"

definition digits_val :: "string \<Rightarrow> int" where
  "digits_val ds = foldl (\<lambda>v c. 10 * v + digit_val c) 0 ds"

text \<open>
  \<open>%d\<close>: white space, an optional sign, digits. Without a digit the conversion fails; the
  sign is consumed all the same.
\<close>

definition scan_int :: "string \<Rightarrow> int option \<times> string" where
  "scan_int s =
     (let t = skip_ws s;
          neg = (t \<noteq> [] \<and> hd t = CHR ''-'');
          u = (if t \<noteq> [] \<and> hd t \<in> {CHR ''-'', CHR ''+''} then tl t else t);
          ds = takeWhile is_digit u;
          v = digits_val ds
      in if ds = [] then (None, u) else (Some (if neg then - v else v), drop (length ds) u))"

text \<open>A number that does not fit an \<open>int\<close> makes the conversion undefined.\<close>

definition as_int :: "int \<Rightarrow> int outcome" where
  "as_int v = (if - (2 ^ 31) \<le> v \<and> v < 2 ^ 31 then Val v else Undefined IntOverflow)"

text \<open>\<open>fgets\<close> into a buffer of \<open>n\<close> bytes: at most \<open>n - 1\<close> bytes, through the first newline.\<close>

definition fgets :: "nat \<Rightarrow> string \<Rightarrow> (string \<times> string) option" where
  "fgets n s =
     (if s = [] then None
      else
        let upto = takeWhile (\<lambda>c. c \<noteq> LF) s;
            line = (if LF \<in> set s then upto @ [LF] else upto);
            got = take (n - 1) line
        in Some (got, drop (length got) s))"

section \<open>Printing\<close>

definition pad_left :: "nat \<Rightarrow> string \<Rightarrow> string" where
  "pad_left w s = replicate (w - length s) (CHR '' '') @ s"

definition pad_right :: "nat \<Rightarrow> string \<Rightarrow> string" where
  "pad_right w s = s @ replicate (w - length s) (CHR '' '')"

fun show_nat :: "nat \<Rightarrow> string" where
  "show_nat n =
     (if n < 10 then [char_of (48 + n)] else show_nat (n div 10) @ [char_of (48 + n mod 10)])"

declare show_nat.simps [simp del]

text \<open>\<open>%0Nd\<close>: zeros between the sign and the digits up to the width.\<close>

definition show_int0 :: "nat \<Rightarrow> int \<Rightarrow> string" where
  "show_int0 w v =
     (let ds = show_nat (nat \<bar>v\<bar>); sign = (if v < 0 then ''-'' else [])
      in sign @ replicate (w - length sign - length ds) (CHR ''0'') @ ds)"

section \<open>Laws of scanning\<close>

lemma skip_ws_idem [simp]: "skip_ws (skip_ws s) = skip_ws s"
  by (simp add: skip_ws_def)

lemma skip_ws_space [simp]: "c_isspace c \<Longrightarrow> skip_ws (c # s) = skip_ws s"
  by (simp add: skip_ws_def)

lemma skip_ws_nonspace [simp]: "\<not> c_isspace c \<Longrightarrow> skip_ws (c # s) = c # s"
  by (simp add: skip_ws_def)

lemma skip_ws_Nil [simp]: "skip_ws [] = []"
  by (simp add: skip_ws_def)

lemma skip_ws_replicate [simp]: "skip_ws (replicate n (CHR '' '') @ s) = skip_ws s"
  by (induction n) simp_all

lemma skip_ws_length: "length (skip_ws s) \<le> length s"
  by (simp add: skip_ws_def length_dropWhile_le)

lemma c_str_id [simp]: "NUL \<notin> set s \<Longrightarrow> c_str s = s"
  by (auto simp: c_str_def takeWhile_eq_all_conv)

lemma scan_str_skip_ws: "skip_ws s = skip_ws t \<Longrightarrow> scan_str w s = scan_str w t"
  by (simp add: scan_str_def)

lemma scan_str_None: "scan_str w s = None \<longleftrightarrow> skip_ws s = []"
  by (simp add: scan_str_def Let_def)

lemma scan_str_shrinks: "scan_str w s = Some (tok, t) \<Longrightarrow> length t \<le> length s"
  using skip_ws_length [of s] by (auto simp: scan_str_def Let_def split: if_splits)

lemma skip_ws_Cons: "skip_ws s = c # cs \<Longrightarrow> \<not> c_isspace c"
  by (metis hd_dropWhile list.sel(1) list.simps(3) skip_ws_def)

lemma scan_str_nonempty:
  assumes "scan_str w s = Some (tok, t)" "w \<noteq> Some 0"
  shows "tok \<noteq> [] \<and> length t < length s"
proof -
  obtain c cs where c: "skip_ws s = c # cs" "\<not> c_isspace c"
    using assms(1) skip_ws_Cons [of s]
    by (cases "skip_ws s") (auto simp: scan_str_def Let_def)
  then have "tok \<noteq> []" "t = drop (length tok) (c # cs)"
    using assms by (auto simp: scan_str_def Let_def split: option.splits)
  then show ?thesis using c(1) skip_ws_length [of s] by (cases tok) auto
qed

text \<open>A word, after any white space and followed by white space, is read back whole.\<close>

lemma scan_str_word:
  assumes "wordy tok" "tok \<noteq> []" "c_isspace c" "case w of None \<Rightarrow> True | Some n \<Rightarrow> length tok \<le> n"
    and "skip_ws s = tok @ c # t"
  shows "scan_str w s = Some (tok, c # t)"
proof -
  have "takeWhile (\<lambda>c. \<not> c_isspace c) (tok @ c # t) = tok"
    using assms(1,3) by (intro takeWhile_wordy_append) auto
  then show ?thesis using assms(4,5) by (auto simp: scan_str_def split: option.splits)
qed

lemma skip_ws_wordy: "wordy tok \<Longrightarrow> tok \<noteq> [] \<Longrightarrow> skip_ws (tok @ t) = tok @ t"
  by (cases tok) simp_all

lemma skip_ws_pad_left: "wordy tok \<Longrightarrow> tok \<noteq> [] \<Longrightarrow> skip_ws (pad_left w tok @ t) = tok @ t"
  by (simp add: pad_left_def skip_ws_wordy)

section \<open>Files of records\<close>

text \<open>The records that scanning again and again finds, up to the first failure.\<close>

function records :: "(string \<Rightarrow> ('r \<times> string) option) \<Rightarrow> string \<Rightarrow> 'r list" where
  "records scan s =
     (case scan s of
        None \<Rightarrow> []
      | Some (r, t) \<Rightarrow> if length t < length s then r # records scan t else [])"
  by pat_completeness auto
termination
  by (relation "measure (\<lambda>(scan, s). length s)") auto

declare records.simps [simp del]

locale record_codec =
  fixes print :: "'r \<Rightarrow> string" and scan :: "string \<Rightarrow> ('r \<times> string) option" and ok :: "'r \<Rightarrow> bool"
  assumes scan_print: "ok r \<Longrightarrow> \<exists>t'. scan (print r @ t) = Some (r, t') \<and> skip_ws t' = skip_ws t"
    and scan_blank: "skip_ws s = skip_ws t \<Longrightarrow> scan s = scan t"
    and scan_end: "skip_ws s = [] \<Longrightarrow> scan s = None"
    and scan_shrinks: "scan s = Some (r, t) \<Longrightarrow> length t < length s"
begin

lemma records_Cons: "scan s = Some (r, t) \<Longrightarrow> records scan s = r # records scan t"
  by (subst records.simps) (simp add: scan_shrinks)

lemma records_end: "skip_ws s = [] \<Longrightarrow> records scan s = []"
  by (subst records.simps) (simp add: scan_end)

lemma records_blank:
  assumes "skip_ws s = skip_ws t"
  shows "records scan s = records scan t"
proof (cases "scan s")
  case None
  have none: "records scan u = []" if "scan u = None" for u
    using that by (subst records.simps) simp
  have "scan t = None" using None scan_blank [OF assms] by metis
  with None none have "records scan s = []" "records scan t = []" by blast+
  then show ?thesis by simp
next
  case (Some p)
  obtain r u where p: "p = (r, u)" by (cases p)
  have "records scan s = r # records scan u" using Some p by (intro records_Cons) simp
  moreover have "records scan t = r # records scan u"
    using Some p scan_blank [OF assms] by (intro records_Cons) simp
  ultimately show ?thesis by simp
qed

lemma records_print_append:
  "\<forall>r \<in> set rs. ok r \<Longrightarrow> records scan (concat (map print rs) @ t) = rs @ records scan t"
proof (induction rs)
  case (Cons r rs)
  then obtain t' where
    t: "scan (print r @ concat (map print rs) @ t) = Some (r, t')"
    "skip_ws t' = skip_ws (concat (map print rs) @ t)"
    using scan_print [of r "concat (map print rs) @ t"] by auto
  show ?case using Cons records_Cons [OF t(1)] records_blank [OF t(2)] by simp
qed simp

lemma records_print: "\<forall>r \<in> set rs. ok r \<Longrightarrow> records scan (concat (map print rs)) = rs"
  using records_print_append [of rs "[]"] records_end [of "[]"] by simp

end

end
