(* ===== verification/Schedule_File.thy ===== *)
theory Schedule_File
  imports Schedule Stdio
begin

text \<open>
  \<open>schedule_info.txt\<close> as \<open>studysys/schedule.c\<close> reads and writes it: \<open>txt_read\<close>,
  \<open>txt_write\<close> and the reading loop they share with the other functions. The file is its
  contents, or \<open>None\<close> where \<open>fopen\<close> fails.
\<close>

section \<open>Reading\<close>

text \<open>
  \<open>fscanf(fp, "%6s%s%4s", ...)\<close> into one entry: the number of conversions (\<open>-1\<close> at the end
  of the file), the entry as far as it was overwritten, the rest of the file. The
  conversion of the name has no width, so a token that does not fit \<open>name_sub\<close> runs over.
\<close>

definition scan_entry :: "schedule \<Rightarrow> string \<Rightarrow> (int \<times> schedule \<times> string) outcome" where
  "scan_entry e s =
     (case scan_str (Some 6) s of
        None \<Rightarrow> Val (-1, e, [])
      | Some (d, s) \<Rightarrow>
          let e = e\<lparr>date := c_str d\<rparr> in
          case scan_str None s of
            None \<Rightarrow> Val (1, e, [])
          | Some (nm, s) \<Rightarrow>
              if SUBJECT_NAME_MAX \<le> length nm then Undefined OutOfBounds
              else
                let e = e\<lparr>name_sub := c_str nm\<rparr> in
                case scan_str (Some 4) s of
                  None \<Rightarrow> Val (2, e, [])
                | Some (t, s) \<Rightarrow> Val (3, e\<lparr>time := c_str t\<rparr>, s))"

text \<open>
  The reading loop, from entry \<open>count\<close> on. When the array is full, a further conversion
  would store past its end; only an exhausted file ends the loop in time.
\<close>

function txt_read_loop :: "nat \<Rightarrow> schedule list \<Rightarrow> string \<Rightarrow> (int \<times> schedule list) outcome" where
  "txt_read_loop cnt a s =
     (if cnt < length a then
        bind_out (scan_entry (a ! cnt) s) (\<lambda>(k, e, s).
          if k = 3 then txt_read_loop (Suc cnt) (a[cnt := e]) s
          else Val (int cnt, a[cnt := e]))
      else if skip_ws s = [] then Val (int cnt, a)
      else Undefined OutOfBounds)"
  by pat_completeness auto
termination
  by (relation "measure (\<lambda>(cnt, a, s). length a - cnt)") auto

declare txt_read_loop.simps [simp del]

definition txt_read :: "string option \<Rightarrow> schedule list \<Rightarrow> (int \<times> schedule list) outcome" where
  "txt_read file a = (case file of None \<Rightarrow> Val (-1, a) | Some s \<Rightarrow> txt_read_loop 0 a s)"

section \<open>Writing\<close>

definition entry_line :: "schedule \<Rightarrow> string" where
  "entry_line e =
     pad_left 6 (date e) @ '' '' @ (name_sub e @ '' '' @ pad_left 4 (time e)) @ [LF]"

function write_loop :: "int \<Rightarrow> int \<Rightarrow> schedule list \<Rightarrow> string \<Rightarrow> string outcome" where
  "write_loop i n a out =
     (if i < n then bind_out (array_get a i) (\<lambda>e. write_loop (i + 1) n a (out @ entry_line e))
      else Val out)"
  by pat_completeness auto
termination
  by (relation "measure (\<lambda>(i, n, a, out). nat (n - i))") auto

declare write_loop.simps [simp del]

text \<open>
  \<open>txt_write\<close>: \<open>fopen\<close> in mode \<open>"w"\<close> empties the file; when it fails the \<open>assert\<close> before
  the test of the pointer aborts. The result is the return value and the new contents.
\<close>

definition txt_write :: "bool \<Rightarrow> schedule list \<Rightarrow> int \<Rightarrow> (int \<times> string) outcome" where
  "txt_write can_open a n =
     (if \<not> can_open then Aborts else bind_out (write_loop 0 n a []) (\<lambda>s. Val (1, s)))"

section \<open>Files as lists of entries\<close>

definition no_entry :: schedule where
  "no_entry = \<lparr>date = [], name_sub = [], time = []\<rparr>"

definition scan_sched :: "string \<Rightarrow> (schedule \<times> string) option" where
  "scan_sched s =
     (case scan_entry no_entry s of Val (k, e, t) \<Rightarrow> if k = 3 then Some (e, t) else None | _ \<Rightarrow> None)"

text \<open>What an entry has to satisfy to survive a round through the file.\<close>

definition sched_ok :: "schedule \<Rightarrow> bool" where
  "sched_ok e \<longleftrightarrow>
     wordy (date e) \<and> date e \<noteq> [] \<and> length (date e) \<le> 6 \<and> NUL \<notin> set (date e) \<and>
     wordy (name_sub e) \<and> name_sub e \<noteq> [] \<and> length (name_sub e) < SUBJECT_NAME_MAX \<and>
     NUL \<notin> set (name_sub e) \<and>
     wordy (time e) \<and> time e \<noteq> [] \<and> length (time e) \<le> 4 \<and> NUL \<notin> set (time e)"

lemma scan_entry_3:
  "scan_entry e s = Val (3, e', t) \<longleftrightarrow> scan_sched s = Some (e', t)"
  by (auto simp: scan_sched_def scan_entry_def no_entry_def Let_def split: option.splits if_splits)

lemma scan_entry_count:
  "scan_entry e s = Val (k, e', t) \<Longrightarrow> k = 3 \<or> k = -1 \<and> e' = e \<and> skip_ws s = [] \<or> k \<in> {1, 2}"
  by (auto simp: scan_entry_def Let_def scan_str_None split: option.splits if_splits)

lemma scan_entry_line:
  assumes "sched_ok e"
  shows "scan_entry f (entry_line e @ t) = Val (3, e, LF # t)"
proof -
  let ?t1 = "name_sub e @ CHR '' '' # pad_left 4 (time e) @ LF # t"
  let ?t2 = "pad_left 4 (time e) @ LF # t"
  have "scan_str (Some 6) (entry_line e @ t) = Some (date e, CHR '' '' # ?t1)"
    using assms by (intro scan_str_word) (auto simp: entry_line_def sched_ok_def skip_ws_pad_left)
  moreover have "scan_str None (CHR '' '' # ?t1) = Some (name_sub e, CHR '' '' # ?t2)"
    using assms by (intro scan_str_word) (auto simp: sched_ok_def skip_ws_wordy)
  moreover have "scan_str (Some 4) (CHR '' '' # ?t2) = Some (time e, LF # t)"
    using assms by (intro scan_str_word) (auto simp: sched_ok_def skip_ws_pad_left)
  ultimately show ?thesis using assms by (simp add: scan_entry_def sched_ok_def)
qed

interpretation sched_codec: record_codec entry_line scan_sched sched_ok
proof
  fix r t assume "sched_ok r"
  then have "scan_sched (entry_line r @ t) = Some (r, LF # t)"
    by (simp only: scan_entry_3 [of no_entry, symmetric] scan_entry_line)
  then show "\<exists>t'. scan_sched (entry_line r @ t) = Some (r, t') \<and> skip_ws t' = skip_ws t" by simp
next
  fix s t :: string assume "skip_ws s = skip_ws t"
  then show "scan_sched s = scan_sched t"
    using scan_str_skip_ws [of s t "Some 6"] by (simp add: scan_sched_def scan_entry_def)
next
  fix s :: string assume "skip_ws s = []"
  then have "scan_str (Some 6) s = None" by (simp add: scan_str_None)
  then show "scan_sched s = None" by (simp add: scan_sched_def scan_entry_def)
next
  fix s t :: string and r assume "scan_sched s = Some (r, t)"
  then obtain d s1 nm s2 tm where "scan_str (Some 6) s = Some (d, s1)"
    "scan_str None s1 = Some (nm, s2)" "scan_str (Some 4) s2 = Some (tm, t)"
    by (auto simp: scan_sched_def scan_entry_def Let_def split: option.splits if_splits)
  then show "length t < length s"
    using scan_str_nonempty [of "Some 6" s d s1] scan_str_shrinks [of None s1 nm s2]
      scan_str_shrinks [of "Some 4" s2 tm t] by simp
qed

section \<open>Reading and writing whole files\<close>

text \<open>Whatever the file holds, a reading loop that returns has stored exactly its records.\<close>

lemma txt_read_loop_records:
  "txt_read_loop cnt a s = Val (n, a') \<Longrightarrow> cnt \<le> length a \<Longrightarrow>
     n = int (cnt + length (records scan_sched s)) \<and> length a' = length a \<and>
     take (nat n) a' = take cnt a @ records scan_sched s"
proof (induction cnt a s arbitrary: n a' rule: txt_read_loop.induct)
  case (1 cnt a s)
  show ?case
  proof (cases "cnt < length a")
    case False
    with "1.prems"(1)
    have "(if skip_ws s = [] then Val (int cnt, a) else Undefined OutOfBounds) = Val (n, a')"
      by (subst (asm) txt_read_loop.simps) simp
    then have "skip_ws s = []" "n = int cnt" "a' = a" by (simp_all split: if_splits)
    then show ?thesis using False "1.prems"(2) by (simp add: sched_codec.records_end)
  next
    case True
    with "1.prems"(1) obtain x where "scan_entry (a ! cnt) s = Val x"
      by (subst (asm) txt_read_loop.simps) (simp only: if_True bind_out_Val_iff, blast)
    then obtain k e t where scan: "scan_entry (a ! cnt) s = Val (k, e, t)" by (cases x) blast
    show ?thesis
    proof (cases "k = 3")
      case False
      with True scan "1.prems"(1) have r: "n = int cnt" "a' = a[cnt := e]"
        by (subst (asm) txt_read_loop.simps, simp)+
      have "scan_sched s = None"
        using scan False scan_entry_3 [of "a ! cnt" s] by (cases "scan_sched s") auto
      then have "records scan_sched s = []" by (subst records.simps) simp
      with r show ?thesis by simp
    next
      case 3: True
      with True scan "1.prems"(1)
      have rec: "txt_read_loop (Suc cnt) (a[cnt := e]) t = Val (n, a')"
        by (subst (asm) txt_read_loop.simps) simp
      from scan 3 have "scan_sched s = Some (e, t)" by (simp add: scan_entry_3)
      then have "records scan_sched s = e # records scan_sched t" by (rule sched_codec.records_Cons)
      with "1.IH" [OF True scan _ refl 3 rec] True show ?thesis
        by (auto simp: take_Suc_conv_app_nth)
    qed
  qed
qed

lemma txt_read_loop_lines:
  "\<forall>e \<in> set es. sched_ok e \<Longrightarrow> cnt \<le> length a \<Longrightarrow>
   skip_ws s = skip_ws (concat (map entry_line es)) \<Longrightarrow>
   txt_read_loop cnt a s =
     (if cnt + length es \<le> length a
      then Val (int (cnt + length es), take cnt a @ es @ drop (cnt + length es) a)
      else Undefined OutOfBounds)"
proof (induction es arbitrary: cnt a s)
  case Nil
  then have "scan_str (Some 6) s = None" by (simp add: scan_str_None)
  then have "scan_entry (a ! cnt) s = Val (-1, a ! cnt, [])" by (simp add: scan_entry_def)
  with Nil show ?case by (subst txt_read_loop.simps) (simp add: list_update_id)
next
  case (Cons e es)
  let ?rest = "LF # concat (map entry_line es)"
  have s: "skip_ws s = skip_ws (entry_line e @ concat (map entry_line es))"
    using Cons.prems(3) by simp
  have "scan_sched s = Some (e, ?rest)"
    using sched_codec.scan_blank [OF s] scan_entry_line [of e] Cons.prems(1) scan_entry_3 by auto
  then have scan: "scan_entry (a ! cnt) s = Val (3, e, ?rest)" by (simp add: scan_entry_3)
  have ne: "skip_ws s \<noteq> []"
    using scan_str_None [of "Some 6" s] scan by (auto simp: scan_entry_def)
  show ?case
  proof (cases "cnt < length a")
    case True
    from True scan have "txt_read_loop cnt a s = txt_read_loop (Suc cnt) (a[cnt := e]) ?rest"
      by (subst txt_read_loop.simps) simp
    with Cons.IH [of "Suc cnt" "a[cnt := e]" ?rest] Cons.prems True show ?thesis
      by (auto simp: take_Suc_conv_app_nth)
  next
    case False
    with ne Cons.prems show ?thesis by (subst txt_read_loop.simps) simp
  qed
qed

lemma txt_read_lines:
  assumes "\<forall>e \<in> set es. sched_ok e"
  shows "txt_read (Some (concat (map entry_line es))) a =
     (if length es \<le> length a then Val (int (length es), es @ drop (length es) a)
      else Undefined OutOfBounds)"
  using txt_read_loop_lines [OF assms, of 0 a] by (simp add: txt_read_def)

lemma write_loop_lines:
  "i \<le> n \<Longrightarrow> n \<le> length a \<Longrightarrow>
   write_loop (int i) (int n) a out = Val (out @ concat (map entry_line (take (n - i) (drop i a))))"
proof (induction "n - i" arbitrary: i out)
  case 0
  then show ?case by (subst write_loop.simps) simp
next
  case (Suc k)
  then have "drop i a = a ! i # drop (Suc i) a" "n - i = Suc (n - Suc i)"
    by (simp_all add: Cons_nth_drop_Suc)
  moreover have "k = n - Suc i" "Suc i \<le> n" "i < n" using Suc.hyps(2) by simp_all
  ultimately show ?case
    using Suc.hyps(1) [of "Suc i" "out @ entry_line (a ! i)"] Suc.prems
    by (subst write_loop.simps) (simp add: int_plus_1 del: of_nat_Suc)
qed

lemma txt_write_lines:
  assumes "n \<le> length a"
  shows "txt_write True a (int n) = Val (1, concat (map entry_line (take n a)))"
  using write_loop_lines [of 0 n a "[]"] assms by (simp add: txt_write_def)

section \<open>Properties\<close>

text \<open>
  C12: writing the schedule and reading it back gives the same entries. For well-formed
  entries, \<open>txt_write\<close> of the first \<open>n\<close> entries of an array succeeds, and \<open>txt_read\<close> of the
  file it leaves into any array stores exactly those \<open>n\<close> entries at its front and returns
  \<open>n\<close>, as long as they fit; if they do not, it writes past the array.
\<close>

theorem txt_write_read:
  assumes "\<forall>e \<in> set (take n a). sched_ok e" "n \<le> length a"
  shows "bind_out (txt_write True a (int n)) (\<lambda>(res, file). txt_read (Some file) b) =
    (if n \<le> length b then Val (int n, take n a @ drop n b) else Undefined OutOfBounds)"
  using txt_write_lines [OF assms(2)] txt_read_lines [OF assms(1), of b] assms(2)
  by (simp add: min_absorb2)

theorem txt_write_read_witness:
  "bind_out (txt_write True [\<lparr>date = ''170313'', name_sub = ''Science'', time = ''1500''\<rparr>] 1)
     (\<lambda>(res, file). txt_read (Some file) [no_entry, no_entry]) =
   Val (1, [\<lparr>date = ''170313'', name_sub = ''Science'', time = ''1500''\<rparr>, no_entry])"
  using txt_write_read [of 1 "[\<lparr>date = ''170313'', name_sub = ''Science'', time = ''1500''\<rparr>]"
      "[no_entry, no_entry]"]
  by (simp add: sched_ok_def c_isspace_def SUBJECT_NAME_MAX_def)

text \<open>
  \<open>txt_read\<close> of any file at all. If it returns, its return value is the number of
  records at the front of the file and the array starts with those records, in order; the
  array keeps its length.
\<close>

lemma txt_read_records:
  assumes "txt_read (Some file) a = Val (n, a')"
  shows "n = int (length (records scan_sched file)) \<and> length a' = length a \<and>
    take (nat n) a' = records scan_sched file"
  using txt_read_loop_records [of 0 a "file" n a'] assms unfolding txt_read_def by auto

text \<open>For a file that was written by the program these are the entries written.\<close>

lemma records_of_file: "\<forall>e \<in> set es. sched_ok e \<Longrightarrow> records scan_sched (concat (map entry_line es)) = es"
  by (rule sched_codec.records_print)

end
