(* ===== verification/Cur_Subject.thy ===== *)
theory Cur_Subject
  imports Schedule_File "HOL-Library.Signed_Division"
begin

text \<open>
  \<open>cur_subject\<close> and \<open>output_schedtime\<close> of \<open>studysys/schedule.c\<close>: which subject the
  schedule says is being studied now. The local arrays hold whatever was on the stack, so
  their contents are arguments; the result of \<open>localtime\<close> is an argument too.
\<close>

section \<open>Time stamps\<close>

record tm =
  tm_year :: int
  tm_mon :: int
  tm_mday :: int
  tm_hour :: int
  tm_min :: int

text \<open>\<open>sprintf(s, "%02d", v)\<close> into an array of three characters.\<close>

definition two_digits :: "int \<Rightarrow> string outcome" where
  "two_digits v =
     (let s = show_int0 2 v in if length s < 3 then Val s else Undefined OutOfBounds)"

text \<open>
  The current time as \<open>yymmddhhmm\<close>: five two-character strings copied one after the other
  into \<open>nowtime\<close>.
\<close>

definition now_time :: "tm \<Rightarrow> string outcome" where
  "now_time t =
     bind_out (two_digits (tm_year t smod 100)) (\<lambda>y.
     bind_out (two_digits (tm_mon t + 1)) (\<lambda>mo.
     bind_out (two_digits (tm_mday t)) (\<lambda>d.
     bind_out (two_digits (tm_hour t)) (\<lambda>h.
     bind_out (two_digits (tm_min t)) (\<lambda>mi.
     Val (y @ mo @ d @ h @ mi))))))"

text \<open>One row of \<open>output_schedtime\<close>: the date at the start, the time at offset 6.\<close>

definition schedtime_row :: "char list \<Rightarrow> schedule \<Rightarrow> char list outcome" where
  "schedtime_row row e =
     bind_out (strcpy_into row (date e)) (\<lambda>r.
     bind_out (strcpy_into (drop 6 r) (time e)) (\<lambda>t.
     Val (take 6 r @ t)))"

function output_schedtime ::
  "int \<Rightarrow> int \<Rightarrow> schedule list \<Rightarrow> char list list \<Rightarrow> char list list outcome"
where
  "output_schedtime i n a rows =
     (if i < n then
        bind_out (array_get a i) (\<lambda>e.
        bind_out (array_get rows i) (\<lambda>row.
        bind_out (schedtime_row row e) (\<lambda>row.
        bind_out (array_put rows i row) (\<lambda>rows.
        output_schedtime (i + 1) n a rows))))
      else Val rows)"
  by pat_completeness auto
termination
  by (relation "measure (\<lambda>(i, n, a, rows). nat (n - i))") auto

declare output_schedtime.simps [simp del]

section \<open>The current subject\<close>

text \<open>The loop that looks for the first stamp after now; its result is where \<open>i\<close> stops.\<close>

function find_now :: "int \<Rightarrow> int \<Rightarrow> char list list \<Rightarrow> string \<Rightarrow> int outcome" where
  "find_now i n rows now =
     (if i < n then
        bind_out (array_get rows i) (\<lambda>row.
        bind_out (cstring row) (\<lambda>s.
        if strcmp s now \<le> 0 then find_now (i + 1) n rows now else Val i))
      else Val i)"
  by pat_completeness auto
termination
  by (relation "measure (\<lambda>(i, n, rows, now). nat (n - i))") auto

declare find_now.simps [simp del]

text \<open>
  \<open>cur_subject\<close>: the number \<open>n\<close> is the caller's, the entries are read again here. The
  result is the string copied into \<open>buf\<close>.
\<close>

definition cur_subject ::
  "string option \<Rightarrow> schedule list \<Rightarrow> char list list \<Rightarrow> tm \<Rightarrow> int \<Rightarrow> string outcome"
where
  "cur_subject file tmp_sched sched_time t n =
     bind_out (txt_read file tmp_sched) (\<lambda>(cnt, a).
     bind_out (now_time t) (\<lambda>nowtime.
     bind_out (re_align a cnt) (\<lambda>a.
     bind_out (output_schedtime 0 n a sched_time) (\<lambda>rows.
     bind_out (find_now 0 n rows nowtime) (\<lambda>i.
     let now = (if n \<le> i then n - 1 else i - 1) in
     if i = 0 then Val ''NOTHING''
     else bind_out (array_get a now) (\<lambda>e. Val (name_sub e)))))))"

section \<open>Stamps and their order\<close>

definition stamp :: "schedule \<Rightarrow> string" where
  "stamp e = date e @ time e"

text \<open>The entries the function is made for: a date of 6 and a time of at most 4 characters.\<close>

definition dated :: "schedule \<Rightarrow> bool" where
  "dated e \<longleftrightarrow> sched_ok e \<and> length (date e) = 6"

lemma append_less_iff:
  fixes d d' t t' :: string
  assumes "length d = length d'"
  shows "d @ t < d' @ t' \<longleftrightarrow> d < d' \<or> d = d' \<and> t < t'"
  using assms by (induction d d' rule: list_induct2) auto

lemma stamp_le_iff:
  assumes "dated e" "dated f"
  shows "stamp e \<le> stamp f \<longleftrightarrow> sched_key e \<le> sched_key f"
proof -
  have "length (date f) = length (date e)" using assms by (simp add: dated_def)
  from append_less_iff [OF this, of "time f" "time e"] show ?thesis
    by (auto simp: stamp_def sched_key_def less_eq_sched_key_def linorder_not_less [symmetric])
qed

lemma sorted_stamps:
  assumes "\<forall>e \<in> set es. dated e"
  shows "sorted (map stamp (align_list es))"
proof -
  have "sorted_wrt (\<lambda>e f. sched_key e \<le> sched_key f) (align_list es)"
    using align_list_sorted [of es] by (simp add: sorted_wrt_map)
  then have "sorted_wrt (\<lambda>e f. stamp e \<le> stamp f) (align_list es)"
    using assms stamp_le_iff by (auto elim!: sorted_wrt_mono_rel [rotated])
  then show ?thesis by (simp add: sorted_wrt_map)
qed

lemma schedtime_row_stamp:
  assumes "dated e" "length row = 11"
  shows "\<exists>r. schedtime_row row e = Val r \<and> cstring r = Val (stamp e) \<and> length r = 11"
proof -
  from assms have e: "length (date e) = 6" "length (time e) \<le> 4"
    "NUL \<notin> set (date e)" "NUL \<notin> set (time e)" by (auto simp: dated_def sched_ok_def)
  let ?t = "drop (Suc (length (time e))) (drop 6 (date e @ NUL # drop 7 row))"
  have "schedtime_row row e = Val (stamp e @ NUL # ?t)"
    using e assms(2) by (simp add: schedtime_row_def strcpy_into_def stamp_def)
  moreover have "length (stamp e @ NUL # ?t) = 11"
    using e assms(2) by (simp add: stamp_def)
  moreover have "NUL \<notin> set (stamp e)" using e by (simp add: stamp_def)
  ultimately show ?thesis by (metis cstring_append_NUL)
qed

lemma output_schedtime_stamps:
  "i \<le> n \<Longrightarrow> n \<le> length a \<Longrightarrow> n \<le> length rows \<Longrightarrow> \<forall>e \<in> set (take n a). dated e \<Longrightarrow>
   \<forall>r \<in> set rows. length r = 11 \<Longrightarrow>
   \<exists>rows'. output_schedtime (int i) (int n) a rows = Val rows' \<and> length rows' = length rows \<and>
     take i rows' = take i rows \<and>
     (\<forall>j. i \<le> j \<and> j < n \<longrightarrow> cstring (rows' ! j) = Val (stamp (a ! j)))"
proof (induction "n - i" arbitrary: i rows)
  case 0
  then show ?case by (subst output_schedtime.simps) auto
next
  case (Suc k)
  then have i: "i < n" "k = n - Suc i" by simp_all
  have "a ! i \<in> set (take n a)" using i Suc.prems by (auto simp: in_set_conv_nth intro!: exI [of _ i])
  then obtain r where r: "schedtime_row (rows ! i) (a ! i) = Val r" "cstring r = Val (stamp (a ! i))"
    "length r = 11" using schedtime_row_stamp [of "a ! i" "rows ! i"] Suc.prems i by auto
  let ?rows = "rows[i := r]"
  have step: "output_schedtime (int i) (int n) a rows = output_schedtime (int (Suc i)) (int n) a ?rows"
    using i Suc.prems r by (subst output_schedtime.simps) (simp add: int_plus_1 del: of_nat_Suc)
  have "\<forall>r \<in> set ?rows. length r = 11"
    using Suc.prems(5) r(3) by (auto dest!: subsetD [OF set_update_subset_insert])
  with Suc.hyps(1) [of "Suc i" ?rows] Suc.prems i obtain rows' where
    rows': "output_schedtime (int (Suc i)) (int n) a ?rows = Val rows'" "length rows' = length rows"
    "take (Suc i) rows' = take (Suc i) ?rows"
    "\<forall>j. Suc i \<le> j \<and> j < n \<longrightarrow> cstring (rows' ! j) = Val (stamp (a ! j))" by auto
  have "rows' ! i = r" using rows'(3) i Suc.prems(3)
    by (metis length_list_update lessI nth_list_update_eq nth_take order_less_le_trans)
  with rows'(4) r(2) have "\<forall>j. i \<le> j \<and> j < n \<longrightarrow> cstring (rows' ! j) = Val (stamp (a ! j))"
    by (metis Suc_leI le_neq_implies_less)
  moreover have "take i rows' = take i rows" using arg_cong [OF rows'(3), of "take i"] by simp
  ultimately show ?case using step rows'(1,2) by auto
qed

lemma find_now_first:
  "i \<le> n \<Longrightarrow> n \<le> length rows \<Longrightarrow> \<forall>j < n. cstring (rows ! j) = Val (s j) \<Longrightarrow>
   \<exists>k. i \<le> k \<and> k \<le> n \<and> find_now (int i) (int n) rows now = Val (int k) \<and>
     (\<forall>j. i \<le> j \<and> j < k \<longrightarrow> s j \<le> now) \<and> (k < n \<longrightarrow> now < s k)"
proof (induction "n - i" arbitrary: i)
  case 0
  then show ?case by (subst find_now.simps) auto
next
  case (Suc l)
  then have i: "i < n" "l = n - Suc i" by simp_all
  show ?case
  proof (cases "s i \<le> now")
    case True
    with i Suc.prems have "find_now (int i) (int n) rows now = find_now (int (Suc i)) (int n) rows now"
      by (subst find_now.simps) (simp add: int_plus_1 del: of_nat_Suc)
    with Suc.hyps(1) [of "Suc i"] Suc.prems i True show ?thesis
      by (metis Suc_le_eq le_neq_implies_less order_less_imp_le)
  next
    case False
    with i Suc.prems have "find_now (int i) (int n) rows now = Val (int i)"
      by (subst find_now.simps) simp
    with False i show ?thesis by (intro exI [of _ i]) auto
  qed
qed

text \<open>
  The whole function on a file of dated entries: it answers with an entry of the sorted
  list, the last one before the first stamp after now.
\<close>

lemma cur_subject_lines:
  assumes "\<forall>e \<in> set es. dated e" "length es < length mem"
    and "\<forall>e \<in> set es. date e \<noteq> date (mem ! length es)"
    and "length es \<le> length rows" "\<forall>r \<in> set rows. length r = 11"
    and now: "now_time t = Val now"
  shows "\<exists>k. k \<le> length es \<and>
    cur_subject (Some (concat (map entry_line es))) mem rows t (int (length es)) =
      Val (if k = 0 then ''NOTHING'' else name_sub (align_list es ! (k - 1))) \<and>
    (\<forall>j < length es. stamp (align_list es ! j) \<le> now \<longleftrightarrow> j < k)"
proof -
  let ?n = "length es" and ?s = "align_list es"
  have "txt_read (Some (concat (map entry_line es))) mem = Val (int ?n, es @ drop ?n mem)"
    using txt_read_lines [of es mem] assms(1,2) by (auto simp: dated_def)
  moreover have drop: "drop ?n mem = mem ! ?n # drop (Suc ?n) mem"
    using assms(2) by (simp add: Cons_nth_drop_Suc)
  moreover have "re_align (es @ mem ! ?n # drop (Suc ?n) mem) (int ?n) = Val (?s @ drop ?n mem)"
    using re_align_list [OF assms(3)] drop by simp
  moreover obtain rows' where rows': "output_schedtime 0 (int ?n) (?s @ drop ?n mem) rows = Val rows'"
    "length rows' = length rows" "\<forall>j < ?n. cstring (rows' ! j) = Val (stamp (?s ! j))"
    using output_schedtime_stamps [of 0 ?n "?s @ drop ?n mem" rows] assms
    by (auto simp: nth_append)
  moreover from find_now_first [of 0 ?n rows' "\<lambda>j. stamp (?s ! j)" now] rows' assms(4)
  obtain k where k: "k \<le> ?n" "find_now 0 (int ?n) rows' now = Val (int k)"
    "\<forall>j < k. stamp (?s ! j) \<le> now" "k < ?n \<longrightarrow> now < stamp (?s ! k)" by auto
  moreover have "now < stamp (?s ! j)" if "k \<le> j" "j < ?n" for j
  proof -
    have "stamp (?s ! k) \<le> stamp (?s ! j)"
      using sorted_nth_mono [OF sorted_stamps [OF assms(1)], of k j] that by simp
    with k(4) that show ?thesis by simp
  qed
  moreover have "array_get (?s @ drop ?n mem) (if int ?n \<le> int k then int ?n - 1 else int k - 1) =
      Val (?s ! (k - 1))" if "k \<noteq> 0"
    using that k(1) by (auto simp: array_get_def nth_append nat_diff_distrib)
  ultimately show ?thesis
    by (intro exI [of _ k]) (auto simp: cur_subject_def now Let_def linorder_not_less [symmetric])
qed

text \<open>The clock: for the values \<open>localtime\<close> gives, the stamp is ten digits.\<close>

lemma show_nat_length_2:
  assumes "n < 100"
  shows "length (show_nat n) \<le> 2"
proof -
  have "n div 10 < 10" using assms by simp
  then show ?thesis by (simp add: show_nat.simps [of n] show_nat.simps [of "n div 10"])
qed

lemma two_digits_ok:
  assumes "0 \<le> v" "v < 100"
  shows "\<exists>s. two_digits v = Val s \<and> length s = 2"
proof -
  have "length (show_nat (nat v)) \<le> 2" using assms by (intro show_nat_length_2) linarith
  with assms show ?thesis by (simp add: two_digits_def show_int0_def Let_def)
qed

definition tm_ok :: "tm \<Rightarrow> bool" where
  "tm_ok t \<longleftrightarrow> 0 \<le> tm_year t \<and> 0 \<le> tm_mon t \<and> tm_mon t \<le> 11 \<and> 1 \<le> tm_mday t \<and> tm_mday t \<le> 31 \<and>
     0 \<le> tm_hour t \<and> tm_hour t \<le> 23 \<and> 0 \<le> tm_min t \<and> tm_min t \<le> 59"

lemma now_time_ok:
  assumes "tm_ok t"
  shows "\<exists>s. now_time t = Val s \<and> length s = 10"
proof -
  have "tm_year t smod 100 = tm_year t mod 100"
    using assms by (auto simp: tm_ok_def signed_modulo_int_def sgn_if)
  then have "0 \<le> tm_year t smod 100" "tm_year t smod 100 < 100" by simp_all
  then obtain y where y: "two_digits (tm_year t smod 100) = Val y" "length y = 2"
    using two_digits_ok by blast
  obtain mo where mo: "two_digits (tm_mon t + 1) = Val mo" "length mo = 2"
    using two_digits_ok [of "tm_mon t + 1"] assms by (auto simp: tm_ok_def)
  obtain d where d: "two_digits (tm_mday t) = Val d" "length d = 2"
    using two_digits_ok [of "tm_mday t"] assms by (auto simp: tm_ok_def)
  obtain h where h: "two_digits (tm_hour t) = Val h" "length h = 2"
    using two_digits_ok [of "tm_hour t"] assms by (auto simp: tm_ok_def)
  obtain mi where mi: "two_digits (tm_min t) = Val mi" "length mi = 2"
    using two_digits_ok [of "tm_min t"] assms by (auto simp: tm_ok_def)
  from y mo d h mi show ?thesis by (simp add: now_time_def)
qed

text \<open>
  The answer \<open>s\<close> for the entries \<open>es\<close> at the time \<open>now\<close>: the name of an entry with the latest
  stamp that is not after now, or \<open>NOTHING\<close>.
\<close>

definition current :: "schedule list \<Rightarrow> string \<Rightarrow> string \<Rightarrow> bool" where
  "current es now s \<longleftrightarrow>
     (\<forall>e \<in> set es. now < stamp e) \<and> s = ''NOTHING'' \<or>
     (\<exists>e \<in> set es. s = name_sub e \<and> stamp e \<le> now \<and>
        (\<forall>f \<in> set es. stamp f \<le> now \<longrightarrow> stamp f \<le> stamp e))"

lemma cur_subject_current:
  assumes "\<forall>e \<in> set es. dated e" "length es < length mem"
    and "\<forall>e \<in> set es. date e \<noteq> date (mem ! length es)"
    and "length es \<le> length rows" "\<forall>r \<in> set rows. length r = 11"
    and "tm_ok t"
  shows "\<exists>now s. now_time t = Val now \<and> length now = 10 \<and>
    cur_subject (Some (concat (map entry_line es))) mem rows t (int (length es)) = Val s \<and>
    current es now s"
proof -
  let ?s = "align_list es"
  obtain now where now: "now_time t = Val now" "length now = 10" using now_time_ok [OF assms(6)] by blast
  from cur_subject_lines [OF assms(1-5) now(1)] obtain k where k: "k \<le> length es"
    "cur_subject (Some (concat (map entry_line es))) mem rows t (int (length es)) =
      Val (if k = 0 then ''NOTHING'' else name_sub (?s ! (k - 1)))"
    "\<forall>j < length es. stamp (?s ! j) \<le> now \<longleftrightarrow> j < k" by blast
  have in_s: "\<exists>j < length es. e = ?s ! j" if "e \<in> set es" for e
    using that by (metis align_list_length align_list_set in_set_conv_nth)
  show ?thesis
  proof (cases "k = 0")
    case True
    then have "now < stamp e" if "e \<in> set es" for e
      using in_s [OF that] k(3) by (auto simp: linorder_not_less [symmetric])
    with True k(2) now show ?thesis by (auto simp: current_def)
  next
    case False
    then have last: "k - 1 < length es" "stamp (?s ! (k - 1)) \<le> now" using k(1,3) by auto
    then have "?s ! (k - 1) \<in> set es" by (metis align_list_length align_list_set nth_mem)
    moreover have "stamp f \<le> stamp (?s ! (k - 1))" if f: "f \<in> set es" "stamp f \<le> now" for f
    proof -
      obtain j where "j < length es" "f = ?s ! j" using in_s [OF f(1)] by blast
      with k(3) f(2) have "j \<le> k - 1" by auto
      with sorted_nth_mono [OF sorted_stamps [OF assms(1)], of j "k - 1"] last(1)
      show ?thesis using \<open>f = ?s ! j\<close> \<open>j < length es\<close> by simp
    qed
    ultimately show ?thesis using k(2) False last(2) now by (auto simp: current_def)
  qed
qed

section \<open>Properties\<close>

text \<open>
  C11: \<open>cur_subject\<close> finds the current subject. On a file of entries with six-character
  dates, read into an array large enough and followed by an entry of no such date, at any
  time \<open>localtime\<close> can give, it returns without an access out of bounds. Its answer is the
  name of an entry whose date and time are the latest that are not after now, or \<open>NOTHING\<close>
  when every entry is still to come.
\<close>

theorem cur_subject_latest:
  assumes "\<forall>e \<in> set es. dated e" "length es < length mem"
    and "\<forall>e \<in> set es. date e \<noteq> date (mem ! length es)"
    and "length es \<le> length rows" "\<forall>r \<in> set rows. length r = 11"
    and "tm_ok t"
  shows "\<exists>now s. now_time t = Val now \<and> length now = 10 \<and>
    cur_subject (Some (concat (map entry_line es))) mem rows t (int (length es)) = Val s \<and>
    ((\<forall>e \<in> set es. now < stamp e) \<and> s = ''NOTHING'' \<or>
     (\<exists>e \<in> set es. s = name_sub e \<and> stamp e \<le> now \<and>
        (\<forall>f \<in> set es. stamp f \<le> now \<longrightarrow> stamp f \<le> stamp e)))"
  using cur_subject_current [OF assms] by (auto simp: current_def)

theorem cur_subject_latest_witness:
  "cur_subject (Some (concat (map entry_line
         [\<lparr>date = ''170606'', name_sub = ''Music'', time = ''1816''\<rparr>])))
       [no_entry, no_entry] [replicate 11 NUL]
       \<lparr>tm_year = 117, tm_mon = 5, tm_mday = 6, tm_hour = 18, tm_min = 20\<rparr> 1 = Val ''Music''"
proof -
  let ?t = "\<lparr>tm_year = 117, tm_mon = 5, tm_mday = 6, tm_hour = 18, tm_min = 20\<rparr>"
  let ?e = "\<lparr>date = ''170606'', name_sub = ''Music'', time = ''1816''\<rparr>"
  have now: "now_time ?t = Val ''1706061820''" by code_simp
  have "dated ?e" by (simp add: dated_def sched_ok_def c_isspace_def SUBJECT_NAME_MAX_def)
  then show ?thesis
    using cur_subject_latest [of "[?e]" "[no_entry, no_entry]" "[replicate 11 NUL]" ?t]
    by (auto simp: no_entry_def stamp_def now tm_ok_def)
qed

end
