(* ===== verification/Comm.thy ===== *)
theory Comm
  imports Devinfo Cur_Subject "HOL-Library.Word"
begin

text \<open>
  \<open>studysys/comm.c\<close> and \<open>include/comm.h\<close>: the packet that devices send each other, the
  table of what every device last reported, a device's own information and the start-up.

  A packet in memory is its fields and its padding; \<open>packet_bytes\<close> is its image as both
  targets (little-endian, four-byte alignment of \<open>time\<close>) lay it out.
\<close>

unbundle bit_operations_syntax

section \<open>Bytes of a word\<close>

definition byte_of :: "nat \<Rightarrow> 32 word \<Rightarrow> 8 word" where
  "byte_of k w = ucast (drop_bit (8 * k) w)"

definition word_of_bytes :: "8 word \<Rightarrow> 8 word \<Rightarrow> 8 word \<Rightarrow> 8 word \<Rightarrow> 32 word" where
  "word_of_bytes b0 b1 b2 b3 =
     ucast b0 OR push_bit 8 (ucast b1) OR push_bit 16 (ucast b2) OR push_bit 24 (ucast b3)"

lemma bit_word_of_bytes:
  "bit (word_of_bytes b0 b1 b2 b3) n \<longleftrightarrow>
     (if n < 8 then bit b0 n else if n < 16 then bit b1 (n - 8)
      else if n < 24 then bit b2 (n - 16) else bit b3 (n - 24))"
  using bit_imp_le_length [of b0 n] bit_imp_le_length [of b1 "n - 8"]
    bit_imp_le_length [of b2 "n - 16"] bit_imp_le_length [of b3 "n - 24"]
  by (auto simp: word_of_bytes_def bit_simps)

lemma bit_byte_of: "bit (byte_of k w) n \<longleftrightarrow> n < 8 \<and> bit w (8 * k + n)"
  by (auto simp: byte_of_def bit_simps)

lemma word_of_bytes_byte_of [simp]:
  "word_of_bytes (byte_of 0 w) (byte_of 1 w) (byte_of 2 w) (byte_of 3 w) = w"
  by (rule bit_word_eqI) (auto simp: bit_word_of_bytes bit_byte_of)

lemmas word_of_bytes_byte_of_Suc [simp] = word_of_bytes_byte_of [unfolded One_nat_def]

lemma byte_of_word_of_bytes [simp]:
  "byte_of 0 (word_of_bytes b0 b1 b2 b3) = b0"
  "byte_of 1 (word_of_bytes b0 b1 b2 b3) = b1"
  "byte_of 2 (word_of_bytes b0 b1 b2 b3) = b2"
  "byte_of 3 (word_of_bytes b0 b1 b2 b3) = b3"
  by (rule bit_word_eqI, force simp: bit_word_of_bytes bit_byte_of)+

text \<open>\<open>htonl\<close> and \<open>ntohl\<close> on a little-endian machine reverse the bytes.\<close>

definition htonl :: "32 word \<Rightarrow> 32 word" where
  "htonl w = word_of_bytes (byte_of 3 w) (byte_of 2 w) (byte_of 1 w) (byte_of 0 w)"

abbreviation ntohl :: "32 word \<Rightarrow> 32 word" where "ntohl \<equiv> htonl"

lemma ntohl_htonl [simp]: "ntohl (htonl w) = w"
  by (simp add: htonl_def [of w]) (simp add: htonl_def flip: One_nat_def)

section \<open>Packets and information\<close>

record packet =
  pkt_index :: "8 word"
  pkt_pad :: "8 word list"
  pkt_time :: "32 word"
  pkt_name :: "char list"

record information =
  info_index :: "32 word"
  info_time :: int
  rx_time :: int
  subject_name :: "char list"

text \<open>
  \<open>time_t\<close> has 32 bits on the 32-bit targets and 64 on x86-64; a \<open>u_int32_t\<close> stored into
  it is reinterpreted as signed in the first case and zero-extended in the second.
\<close>

datatype abi = ILP32 | LP64

definition time_of_u32 :: "abi \<Rightarrow> 32 word \<Rightarrow> int" where
  "time_of_u32 a w = (case a of ILP32 \<Rightarrow> sint w | LP64 \<Rightarrow> uint w)"

definition unpack_packet :: "abi \<Rightarrow> packet \<Rightarrow> information \<Rightarrow> information outcome" where
  "unpack_packet a p info =
     bind_out (strcpy (subject_name info) (pkt_name p)) (\<lambda>s.
     Val (info\<lparr>info_index := ucast (pkt_index p),
               info_time := time_of_u32 a (ntohl (pkt_time p)),
               subject_name := s\<rparr>))"

definition pack_information :: "information \<Rightarrow> packet \<Rightarrow> packet outcome" where
  "pack_information info p =
     bind_out (strcpy (pkt_name p) (subject_name info)) (\<lambda>s.
     Val (p\<lparr>pkt_index := ucast (info_index info),
            pkt_time := htonl (word_of_int (info_time info)),
            pkt_name := s\<rparr>))"

text \<open>The 28 bytes of a packet, and the packet in 28 bytes.\<close>

definition packet_ok :: "packet \<Rightarrow> bool" where
  "packet_ok p \<longleftrightarrow> length (pkt_pad p) = 3 \<and> length (pkt_name p) = SUBJECT_NAME_MAX"

definition packet_bytes :: "packet \<Rightarrow> 8 word list" where
  "packet_bytes p =
     pkt_index p # pkt_pad p @ map (\<lambda>k. byte_of k (pkt_time p)) [0, 1, 2, 3] @ map of_char (pkt_name p)"

definition packet_of_bytes :: "8 word list \<Rightarrow> packet" where
  "packet_of_bytes bs =
     \<lparr>pkt_index = bs ! 0, pkt_pad = take 3 (drop 1 bs),
      pkt_time = word_of_bytes (bs ! 4) (bs ! 5) (bs ! 6) (bs ! 7),
      pkt_name = map (\<lambda>b. char_of (unat b)) (drop 8 bs)\<rparr>"

definition info_ok :: "information \<Rightarrow> bool" where
  "info_ok i \<longleftrightarrow> length (subject_name i) = SUBJECT_NAME_MAX"

section \<open>The table of reports\<close>

text \<open>\<open>int index = info->index\<close> reads the unsigned index as a signed \<open>int\<close>.\<close>

definition update_infolist :: "information \<Rightarrow> information list \<Rightarrow> information list outcome" where
  "update_infolist info information_list = array_put information_list (sint (info_index info)) info"

definition get_other_info :: "information \<Rightarrow> information list \<Rightarrow> information outcome" where
  "get_other_info info information_list = array_get information_list (sint (info_index info))"

section \<open>The device's own information\<close>

record ifaddr =
  ifa_name :: string
  ifa_addr :: "(nat \<times> string) option"

definition AF_INET :: nat where "AF_INET = 2"

text \<open>
  \<open>self_index_init\<close>: the address of the interface \<open>bat0\<close> gives the index. The argument is
  the list \<open>getifaddrs\<close> built, \<open>None\<close> when it failed and left \<open>ifap\<close> unset; an interface
  without an address has a null \<open>ifa_addr\<close>. The result is the return value and \<open>self_idx\<close>.
\<close>

fun find_bat0 :: "bool \<Rightarrow> ifaddr list \<Rightarrow> 32 word \<Rightarrow> (int \<times> 32 word) outcome" where
  "find_bat0 sc [] idx = Val (-1, idx)"
| "find_bat0 sc (ifa # ifas) idx =
     (case ifa_addr ifa of
        None \<Rightarrow> Undefined NullPointer
      | Some (family, ad) \<Rightarrow>
          if family = AF_INET \<and> strcmp (ifa_name ifa) ''bat0'' = 0
          then bind_out (ip2index sc ad) (\<lambda>i. Val (0, word_of_int i))
          else find_bat0 sc ifas idx)"

definition self_index_init ::
  "bool \<Rightarrow> ifaddr list option \<Rightarrow> 32 word \<Rightarrow> (int \<times> 32 word) outcome"
where
  "self_index_init sc ifap idx =
     (case ifap of None \<Rightarrow> Undefined Unset | Some ifas \<Rightarrow> find_bat0 sc ifas idx)"

text \<open>
  \<open>self_info\<close>: the index, the current subject from the schedule, and the study time. The
  time is \<open>get_total_min\<close> only in a build with \<open>CONFIG_ULTRASONIC\<close>; \<open>total_min\<close> is \<open>None\<close>
  in one without. \<open>scheds\<close> is the static array of 1000 entries, \<open>tmp_sched\<close> and
  \<open>sched_time\<close> are the arrays on the stack of \<open>cur_subject\<close>.
\<close>

record own =
  self_idx :: "32 word"
  sched_file :: "string option"
  scheds :: "schedule list"
  tmp_sched :: "schedule list"
  sched_time :: "char list list"
  clock :: tm
  total_min :: "int option"

definition self_info :: "own \<Rightarrow> information \<Rightarrow> (information \<times> own) outcome" where
  "self_info o1 info =
     bind_out (txt_read (sched_file o1) (scheds o1)) (\<lambda>(nsched, ss).
     bind_out (cur_subject (sched_file o1) (tmp_sched o1) (sched_time o1) (clock o1) nsched) (\<lambda>s.
     bind_out (strcpy_into (subject_name info) s) (\<lambda>name.
     Val (info\<lparr>info_index := self_idx o1, subject_name := name,
               info_time := (case total_min o1 of Some t \<Rightarrow> t | None \<Rightarrow> 10)\<rparr>,
          o1\<lparr>scheds := ss\<rparr>))))"

text \<open>
  \<open>comm_init\<close>: the results of \<open>pthread_create\<close> and \<open>pthread_detach\<close> for the receiver are
  returned when they are not zero; those for the recognizer are not looked at, the test
  that follows reads the \<open>err\<close> of the receiver again.
\<close>

record threads =
  create_receiver :: int
  detach_receiver :: int
  create_recognizer :: int
  detach_recognizer :: int

definition comm_init ::
  "bool \<Rightarrow> ifaddr list option \<Rightarrow> threads \<Rightarrow> 32 word \<Rightarrow> (int \<times> 32 word) outcome"
where
  "comm_init sc ifap th idx =
     bind_out (self_index_init sc ifap idx) (\<lambda>(res, idx).
     if res < 0 then Val (-1, idx)
     else
       bind_out (index2ip (sint idx)) (\<lambda>ip.
       let err = create_receiver th in
       if err \<noteq> 0 then Val (err, idx)
       else
         let err = detach_receiver th in
         if err \<noteq> 0 then Val (err, idx) else Val (0, idx)))"

section \<open>The wire format\<close>

lemma list_of_3:
  "length xs = 3 \<Longrightarrow> \<exists>a b c. xs = [a, b, c]"
  by (auto simp: numeral_3_eq_3 length_Suc_conv)

lemma packet_bytes_drop:
  "length (pkt_pad p) = 3 \<Longrightarrow> drop (9 + n) (packet_bytes p) = drop (Suc n) (map of_char (pkt_name p))"
  using list_of_3 [of "pkt_pad p"] by (auto simp: packet_bytes_def add.commute [of 9] numeral_eq_Suc)

lemma packet_bytes_pad: "length (pkt_pad p) = 3 \<Longrightarrow> take 3 (drop (Suc 0) (packet_bytes p)) = pkt_pad p"
  by (simp add: packet_bytes_def)

lemma length_packet_bytes [simp]: "packet_ok p \<Longrightarrow> length (packet_bytes p) = 28"
  by (simp add: packet_ok_def packet_bytes_def SUBJECT_NAME_MAX_def)

lemma char_byte_char [simp]: "char_of (unat (of_char c :: 8 word)) = c"
proof -
  have "(of_char c :: 8 word) = of_nat (of_char c)" by (simp add: of_nat_of_char)
  moreover have "of_char c < (2 ^ LENGTH(8) :: nat)" using nat_of_char_less_256 [of c] by simp
  ultimately have "unat (of_char c :: 8 word) = of_char c" by (simp add: unat_of_nat)
  then show ?thesis by simp
qed

lemma packet_of_bytes_packet_bytes [simp]: "packet_ok p \<Longrightarrow> packet_of_bytes (packet_bytes p) = p"
  using list_of_3 [of "pkt_pad p"]
  by (cases p) (auto simp: packet_ok_def packet_bytes_def packet_of_bytes_def comp_def)

lemma char_of_unat_NUL: "char_of (unat (b :: 8 word)) = NUL \<longleftrightarrow> b = 0"
proof
  assume "char_of (unat b) = NUL"
  then have "of_char (char_of (unat b)) = (0 :: nat)" by simp
  then have "unat b mod 256 = 0" by simp
  moreover have "unat b < 256" using unsigned_less [of b, where ?'a = nat] by simp
  ultimately show "b = 0" by (simp add: unat_eq_0)
qed (simp add: char_of_def)

lemma packet_ok_packet_of_bytes [simp]: "length bs = 28 \<Longrightarrow> packet_ok (packet_of_bytes bs)"
  by (simp add: packet_ok_def packet_of_bytes_def SUBJECT_NAME_MAX_def)

text \<open>The string in a \<open>char\<close> array, and what \<open>strcpy\<close> makes of it in another of the same length.\<close>

lemma strcpy_fits:
  "cstring src = Val s \<Longrightarrow> length dst = length src \<Longrightarrow>
     strcpy dst src = Val (s @ NUL # drop (Suc (length s)) dst)"
  by (auto simp: strcpy_def strcpy_into_def cstring_Val_iff)

lemma pack_information_eq:
  assumes "packet_ok p" "info_ok info" "cstring (subject_name info) = Val s"
  shows "pack_information info p = Val
    (p\<lparr>pkt_index := ucast (info_index info), pkt_time := htonl (word_of_int (info_time info)),
       pkt_name := s @ NUL # drop (Suc (length s)) (pkt_name p)\<rparr>)"
  using assms by (simp add: pack_information_def packet_ok_def info_ok_def strcpy_fits)

lemma unpack_packet_eq:
  assumes "packet_ok p" "info_ok info" "cstring (pkt_name p) = Val s"
  shows "unpack_packet a p info = Val
    (info\<lparr>info_index := ucast (pkt_index p), info_time := time_of_u32 a (ntohl (pkt_time p)),
       subject_name := s @ NUL # drop (Suc (length s)) (subject_name info)\<rparr>)"
  using assms by (simp add: unpack_packet_def packet_ok_def info_ok_def strcpy_fits)

lemma pack_information_packet_ok:
  "pack_information info p = Val q \<Longrightarrow> packet_ok p \<Longrightarrow> packet_ok q"
  by (auto simp: pack_information_def packet_ok_def strcpy_def outcome_simps dest: strcpy_into_length)

lemma unpack_packet_info_ok:
  "unpack_packet a p info = Val new \<Longrightarrow> info_ok info \<Longrightarrow> info_ok new"
  by (auto simp: unpack_packet_def info_ok_def strcpy_def outcome_simps dest: strcpy_into_length)

section \<open>Reports and who made them\<close>

text \<open>
  What the receiver and its readers rely on: a report put under a valid key is the one found
  there, and no other key is touched.
\<close>

primrec put_all :: "('r \<Rightarrow> 't \<Rightarrow> 't outcome) \<Rightarrow> 'r list \<Rightarrow> 't \<Rightarrow> 't outcome" where
  "put_all put [] t = Val t"
| "put_all put (r # rs) t = bind_out (put r t) (put_all put rs)"

locale report_table =
  fixes put :: "'r \<Rightarrow> 't \<Rightarrow> 't outcome"
    and get :: "'k \<Rightarrow> 't \<Rightarrow> 'r outcome"
    and key :: "'r \<Rightarrow> 'k"
    and table :: "'t \<Rightarrow> bool"
    and valid :: "'k \<Rightarrow> bool"
  assumes put_valid: "table t \<Longrightarrow> valid (key r) \<Longrightarrow>
      \<exists>t'. put r t = Val t' \<and> table t' \<and> get (key r) t' = Val r \<and>
        (\<forall>k. valid k \<and> k \<noteq> key r \<longrightarrow> get k t' = get k t)"
begin

lemma put_all_last:
  "table t \<Longrightarrow> \<forall>r \<in> set rs. valid (key r) \<Longrightarrow>
   \<exists>t'. put_all put rs t = Val t' \<and> table t' \<and>
     (\<forall>k. valid k \<longrightarrow> get k t' =
        (case filter (\<lambda>r. key r = k) (rev rs) of [] \<Rightarrow> get k t | r # _ \<Rightarrow> Val r))"
proof (induction rs arbitrary: t)
  case (Cons r rs)
  then obtain t1 where t1: "put r t = Val t1" "table t1" "get (key r) t1 = Val r"
    "\<forall>k. valid k \<and> k \<noteq> key r \<longrightarrow> get k t1 = get k t"
    using put_valid [of t r] by auto
  with Cons.IH [of t1] Cons.prems obtain t' where t': "put_all put rs t1 = Val t'" "table t'"
    "\<forall>k. valid k \<longrightarrow> get k t' =
        (case filter (\<lambda>r. key r = k) (rev rs) of [] \<Rightarrow> get k t1 | r # _ \<Rightarrow> Val r)" by auto
  have "get k t' = (case filter (\<lambda>r. key r = k) (rev (r # rs)) of [] \<Rightarrow> get k t | r # _ \<Rightarrow> Val r)"
    if "valid k" for k
    using t'(3) t1(3,4) that
    by (cases "filter (\<lambda>r. key r = k) (rev rs)") (auto split: if_splits)
  with t' t1(1) show ?case by auto
qed simp

end

definition blank_info :: information where
  "blank_info = \<lparr>info_index = 0, info_time = 0, rx_time = 0, subject_name = replicate 20 NUL\<rparr>"

definition info_table :: "information list \<Rightarrow> bool" where
  "info_table t \<longleftrightarrow> int (length t) = DEVINFO_MAX \<and> (\<forall>i \<in> set t. info_ok i)"

definition device_index :: "32 word \<Rightarrow> bool" where
  "device_index k \<longleftrightarrow> uint k < DEVINFO_MAX"

lemma sint_device_index: "device_index k \<Longrightarrow> sint k = uint k"
proof -
  assume k: "device_index k"
  have "- (2 ^ 31) \<le> (0 :: int)" by simp
  from this uint_ge_0 [of k] have "- (2 ^ 31) \<le> uint k" by (rule order_trans)
  with k show "sint k = uint k"
    by (simp add: device_index_def DEVINFO_MAX_def sint_uint signed_take_bit_int_eq_self_iff)
qed

lemma unat_device_index: "device_index k \<Longrightarrow> unat k < 256"
  unfolding device_index_def DEVINFO_MAX_def uint_nat by linarith

lemma uint_ucast_take_bit: "uint (ucast (w :: 'a :: len word) :: 'b :: len word) = take_bit LENGTH('b) (uint w)"
  by (simp add: unsigned_ucast_eq unsigned_take_bit_eq)

lemma device_index_ucast [simp]: "device_index (ucast (b :: 8 word))"
  using uint_lt2p [of b] by (simp add: device_index_def DEVINFO_MAX_def uint_up_ucast is_up)

interpretation info_list: report_table
  update_infolist "\<lambda>k. get_other_info (blank_info\<lparr>info_index := k\<rparr>)" info_index
  "\<lambda>t. int (length t) = DEVINFO_MAX" device_index
proof
  fix t :: "information list" and r :: information
  assume t: "int (length t) = DEVINFO_MAX" and r: "device_index (info_index r)"
  then have s: "sint (info_index r) = uint (info_index r)" by (simp add: sint_device_index)
  let ?t = "t[nat (uint (info_index r)) := r]"
  have "update_infolist r t = Val ?t"
    using t r by (simp add: update_infolist_def array_put_def s device_index_def)
  moreover have "get_other_info (blank_info\<lparr>info_index := info_index r\<rparr>) ?t = Val r"
    using t r unat_device_index [OF r]
    by (simp add: get_other_info_def array_get_def s device_index_def DEVINFO_MAX_def)
  moreover have "get_other_info (blank_info\<lparr>info_index := k\<rparr>) ?t =
      get_other_info (blank_info\<lparr>info_index := k\<rparr>) t" if "device_index k \<and> k \<noteq> info_index r" for k
  proof -
    have "unat k \<noteq> unat (info_index r)" using that by (metis word_unat_eq_iff)
    with that show ?thesis by (simp add: get_other_info_def array_get_def sint_device_index)
  qed
  ultimately show "\<exists>t'. update_infolist r t = Val t' \<and> int (length t') = DEVINFO_MAX \<and>
      get_other_info (blank_info\<lparr>info_index := info_index r\<rparr>) t' = Val r \<and>
      (\<forall>k. device_index k \<and> k \<noteq> info_index r \<longrightarrow>
        get_other_info (blank_info\<lparr>info_index := k\<rparr>) t' = get_other_info (blank_info\<lparr>info_index := k\<rparr>) t)"
    using t by auto
qed

section \<open>Properties\<close>

text \<open>
  C18: a report crosses the network intact. Packing an information record into a packet,
  sending its 28 bytes and unpacking them on another device, whatever its word size, keeps
  the subject name, reduces the index modulo 256 and the time modulo \<open>2 ^ 32\<close> (read back
  as signed where \<open>time_t\<close> has 32 bits), and leaves the receiver's \<open>rx_time\<close> alone.
\<close>

theorem packet_wire:
  assumes p: "packet_ok p" and info: "info_ok info" "cstring (subject_name info) = Val s"
    and old: "info_ok old"
  shows "\<exists>q new. pack_information info p = Val q \<and> length (packet_bytes q) = 28 \<and>
    unpack_packet a (packet_of_bytes (packet_bytes q)) old = Val new \<and> info_ok new \<and>
    uint (info_index new) = uint (info_index info) mod 256 \<and>
    info_time new = (case a of ILP32 \<Rightarrow> signed_take_bit 31 (info_time info)
                             | LP64 \<Rightarrow> info_time info mod 2 ^ 32) \<and>
    cstring (subject_name new) = Val s \<and> rx_time new = rx_time old"
proof -
  let ?name = "s @ NUL # drop (Suc (length s)) (pkt_name p)"
  let ?q = "p\<lparr>pkt_index := ucast (info_index info), pkt_time := htonl (word_of_int (info_time info)),
      pkt_name := ?name\<rparr>"
  have q: "pack_information info p = Val ?q" by (rule pack_information_eq [OF p info])
  then have ok: "packet_ok ?q" using p pack_information_packet_ok by blast
  have s: "NUL \<notin> set s" using info(2) by (auto simp: cstring_Val_iff)
  then have "cstring (pkt_name ?q) = Val s" by simp
  note new = unpack_packet_eq [OF ok old this, of a]
  have "uint (ucast (ucast (info_index info) :: 8 word) :: 32 word) = uint (info_index info) mod 256"
    by (simp add: uint_ucast_take_bit take_bit_eq_mod)
  then show ?thesis
    using q ok s new unpack_packet_info_ok [OF new old]
    by (auto simp: time_of_u32_def uint_word_of_int sint_sbintrunc' take_bit_eq_mod split: abi.split)
qed

theorem packet_wire_witness:
  "\<exists>q new. pack_information
        \<lparr>info_index = 258, info_time = -5, rx_time = 0, subject_name = ''Math'' @ replicate 16 NUL\<rparr>
        \<lparr>pkt_index = 0, pkt_pad = [1, 2, 3], pkt_time = 0, pkt_name = replicate 20 (CHR ''x'')\<rparr> = Val q \<and>
     unpack_packet LP64 (packet_of_bytes (packet_bytes q)) blank_info = Val new \<and>
     uint (info_index new) = 2 \<and> info_time new = 4294967291 \<and> cstring (subject_name new) = Val ''Math''"
  using packet_wire [of "\<lparr>pkt_index = 0, pkt_pad = [1, 2, 3], pkt_time = 0, pkt_name = replicate 20 (CHR ''x'')\<rparr>"
      "\<lparr>info_index = 258, info_time = -5, rx_time = 0, subject_name = ''Math'' @ replicate 16 NUL\<rparr>"
      "''Math''" blank_info LP64]
  by (fastforce simp: packet_ok_def info_ok_def blank_info_def SUBJECT_NAME_MAX_def cstring_def)

text \<open>
  What else is on the wire. The three bytes of padding and the bytes of \<open>name\<close> after the
  terminator are sent as they were in the sender's (uninitialised) packet.
\<close>

lemma packet_leaks:
  assumes "packet_ok p" "info_ok info" "cstring (subject_name info) = Val s"
  shows "\<exists>q. pack_information info p = Val q \<and>
    take 3 (drop 1 (packet_bytes q)) = take 3 (drop 1 (packet_bytes p)) \<and>
    drop (9 + length s) (packet_bytes q) = drop (9 + length s) (packet_bytes p)"
  using pack_information_eq [OF assms] assms(1)
  by (auto simp: packet_ok_def packet_bytes_drop packet_bytes_pad drop_map)

text \<open>
  C21: 28 bytes from the network. Unpacking them is safe exactly when the twenty bytes of the
  name hold a terminator; the index then lies inside the table, so storing the report
  is safe too.
\<close>

theorem unpack_packet_safe:
  assumes "length bs = 28" "info_ok old" "int (length t) = DEVINFO_MAX"
  shows "bind_out (unpack_packet a (packet_of_bytes bs) old) (\<lambda>new. update_infolist new t) =
    (if 0 \<in> set (drop 8 bs)
     then Val (t[unat (bs ! 0) := old\<lparr>info_index := ucast (bs ! 0),
        info_time := time_of_u32 a (ntohl (word_of_bytes (bs ! 4) (bs ! 5) (bs ! 6) (bs ! 7))),
        subject_name := (let s = takeWhile (\<lambda>c. c \<noteq> NUL) (map (\<lambda>b. char_of (unat b)) (drop 8 bs))
                         in s @ NUL # drop (Suc (length s)) (subject_name old))\<rparr>])
     else Undefined OutOfBounds)"
proof -
  let ?p = "packet_of_bytes bs"
  have p: "packet_ok ?p" "pkt_name ?p = map (\<lambda>b. char_of (unat b)) (drop 8 bs)"
    using assms(1) by simp (simp add: packet_of_bytes_def)
  have nul: "NUL \<in> set (pkt_name ?p) \<longleftrightarrow> 0 \<in> set (drop 8 bs)"
    by (auto simp: p(2) char_of_unat_NUL image_iff eq_commute [of NUL])
  show ?thesis
  proof (cases "0 \<in> set (drop 8 bs)")
    case True
    let ?new = "old\<lparr>info_index := ucast (bs ! 0),
        info_time := time_of_u32 a (ntohl (word_of_bytes (bs ! 4) (bs ! 5) (bs ! 6) (bs ! 7))),
        subject_name := (let s = takeWhile (\<lambda>c. c \<noteq> NUL) (pkt_name ?p)
                         in s @ NUL # drop (Suc (length s)) (subject_name old))\<rparr>"
    have "unpack_packet a ?p old = Val ?new"
      using True nul unpack_packet_eq [OF p(1) assms(2)]
      by (simp add: cstring_def Let_def) (simp add: packet_of_bytes_def)
    moreover have "update_infolist ?new t = Val (t[unat (bs ! 0) := ?new])"
      using assms(3) device_index_ucast [of "bs ! 0"]
      by (simp add: update_infolist_def array_put_def sint_device_index device_index_def uint_up_ucast is_up
          flip: unat_eq_nat_uint)
    ultimately show ?thesis using True by (simp add: p(2))
  next
    case False
    with nul show ?thesis by (simp add: unpack_packet_def strcpy_def cstring_def)
  qed
qed

theorem unpack_packet_safe_witness:
  "bind_out (unpack_packet LP64 (packet_of_bytes ([2, 0, 0, 0, 0, 0, 1, 10, 77] @ replicate 19 0)) blank_info)
      (\<lambda>new. update_infolist new (replicate 256 blank_info)) =
    Val ((replicate 256 blank_info)[2 := blank_info\<lparr>info_index := 2, info_time := 266,
      subject_name := ''M'' @ replicate 19 NUL\<rparr>])"
proof -
  have "time_of_u32 LP64 (ntohl (word_of_bytes 0 0 1 10)) = 266" by code_simp
  moreover have "(let s = takeWhile (\<lambda>c. c \<noteq> NUL) (map (\<lambda>b. char_of (unat b)) (77 # replicate 19 (0 :: 8 word)))
      in s @ NUL # drop (Suc (length s)) (subject_name blank_info)) = ''M'' @ replicate 19 NUL" by code_simp
  moreover have "info_ok blank_info" by (simp add: info_ok_def blank_info_def SUBJECT_NAME_MAX_def)
  ultimately show ?thesis
    using unpack_packet_safe [of "[2, 0, 0, 0, 0, 0, 1, 10, 77] @ replicate 19 0" blank_info
        "replicate 256 blank_info" LP64] by (simp add: DEVINFO_MAX_def)
qed

lemma find_bat0_skip:
  "\<forall>ifa \<in> set pre. \<exists>fam ad. ifa_addr ifa = Some (fam, ad) \<and> (fam \<noteq> AF_INET \<or> ifa_name ifa \<noteq> ''bat0'') \<Longrightarrow>
     find_bat0 sc (pre @ ifas) idx = find_bat0 sc ifas idx"
  by (induction pre) auto

lemma ip2index_table: "index2ip k = Val ad \<Longrightarrow> ip2index sc ad = Val k \<and> 1 \<le> k \<and> k \<le> 4"
proof -
  assume a: "index2ip k = Val ad"
  then have "k = 1 \<or> k = 2 \<or> k = 3 \<or> k = 4"
    by (auto simp: index2ip_def array_get_def arptbl_def split: if_splits)
  with a show "ip2index sc ad = Val k \<and> 1 \<le> k \<and> k \<le> 4"
    by (auto simp: index2ip_def ip2index_def array_get_def arptbl_def char_to_int_def)
qed

text \<open>
  Start-up. On a machine whose interface \<open>bat0\<close> has an address of the table,
  \<open>comm_init\<close> sets the own index from it and returns what creating or detaching the
  receiver's thread returned. Whether the recognizer's thread could be created makes no
  difference, although the code tests for it.
\<close>

lemma comm_init_bat0:
  assumes "\<forall>ifa \<in> set pre. \<exists>fam ad. ifa_addr ifa = Some (fam, ad) \<and> (fam \<noteq> AF_INET \<or> ifa_name ifa \<noteq> ''bat0'')"
    and "index2ip k = Val ad"
  shows "comm_init sc (Some (pre @ \<lparr>ifa_name = ''bat0'', ifa_addr = Some (AF_INET, ad)\<rparr> # post)) th idx =
    Val (if create_receiver th \<noteq> 0 then create_receiver th else detach_receiver th, word_of_int k)"
proof -
  from ip2index_table [OF assms(2), of sc]
  have k: "ip2index sc ad = Val k" "k = 1 \<or> k = 2 \<or> k = 3 \<or> k = 4" by auto
  then have "sint (word_of_int k :: 32 word) = k" by auto
  then show ?thesis
    using k assms(2) find_bat0_skip [OF assms(1)]
    by (simp add: comm_init_def self_index_init_def Let_def)
qed

text \<open>
  What a device reports of itself: its index, the subject \<open>cur_subject\<close> finds, and the
  study time (always 10 in a build without \<open>CONFIG_ULTRASONIC\<close>).
\<close>

definition own_ok :: "own \<Rightarrow> schedule list \<Rightarrow> bool" where
  "own_ok o1 es \<longleftrightarrow>
     sched_file o1 = Some (concat (map entry_line es)) \<and> (\<forall>e \<in> set es. dated e) \<and>
     length es < length (scheds o1) \<and> length es < length (tmp_sched o1) \<and>
     (\<forall>e \<in> set es. date e \<noteq> date (tmp_sched o1 ! length es)) \<and>
     length es \<le> length (sched_time o1) \<and> (\<forall>r \<in> set (sched_time o1). length r = 11) \<and>
     tm_ok (clock o1)"

lemma current_name: "current es now s \<Longrightarrow> \<forall>e \<in> set es. dated e \<Longrightarrow> length s < SUBJECT_NAME_MAX \<and> NUL \<notin> set s"
  by (auto simp: current_def dated_def sched_ok_def SUBJECT_NAME_MAX_def)

lemma self_info_current:
  assumes "own_ok o1 es" "info_ok info"
  shows "\<exists>now s info' o2. self_info o1 info = Val (info', o2) \<and> now_time (clock o1) = Val now \<and>
    current es now s \<and> cstring (subject_name info') = Val s \<and> info_ok info' \<and>
    info_index info' = self_idx o1 \<and> rx_time info' = rx_time info \<and>
    info_time info' = (case total_min o1 of Some t \<Rightarrow> t | None \<Rightarrow> 10) \<and>
    o2 = o1\<lparr>scheds := es @ drop (length es) (scheds o1)\<rparr>"
proof -
  from assms(1) have o1: "sched_file o1 = Some (concat (map entry_line es))" "\<forall>e \<in> set es. dated e"
    "length es < length (scheds o1)" "length es < length (tmp_sched o1)"
    "\<forall>e \<in> set es. date e \<noteq> date (tmp_sched o1 ! length es)"
    "length es \<le> length (sched_time o1)" "\<forall>r \<in> set (sched_time o1). length r = 11"
    "tm_ok (clock o1)" by (auto simp: own_ok_def)
  from cur_subject_current [OF o1(2,4-8)] obtain now s where now: "now_time (clock o1) = Val now"
    "cur_subject (sched_file o1) (tmp_sched o1) (sched_time o1) (clock o1) (int (length es)) = Val s"
    "current es now s" using o1(1) by auto
  have "txt_read (sched_file o1) (scheds o1) = Val (int (length es), es @ drop (length es) (scheds o1))"
    using txt_read_lines [of es "scheds o1"] o1(1-3) by (auto simp: dated_def)
  moreover have "length s < 20" "NUL \<notin> set s"
    using current_name [OF now(3) o1(2)] by (simp_all add: SUBJECT_NAME_MAX_def)
  moreover then have "strcpy_into (subject_name info) s =
      Val (s @ NUL # drop (Suc (length s)) (subject_name info))"
    using assms(2) by (simp add: strcpy_into_def info_ok_def SUBJECT_NAME_MAX_def)
  ultimately show ?thesis
    using now assms(2) by (auto simp: self_info_def info_ok_def SUBJECT_NAME_MAX_def)
qed

end
