(* ===== verification/Recognizer.thy ===== *)
theory Recognizer
  imports Comm
begin

text \<open>
  \<open>studysys/recognizer.c\<close>: the thread that finds the neighbours and sends them this device's
  report. \<open>delay_time\<close> seconds lie between the times it notes before asking for the neighbours.

  The state holds the two static variables, the variables the thread keeps on its stack
  across rounds, and what lives outside it: the process, the kernel's static reader. A run
  is a list of events: a round of the loop, with what the clock, \<open>batctl\<close> and the schedule
  file are at that moment, or another thread's \<open>set_delay_time\<close>.
\<close>

section \<open>The thread\<close>

record recog =
  delay_time :: int
  devinfos :: "devinfo list"
  retrieve_time :: int
  rec_packet :: packet
  rec_info :: information
  rec_proc :: proc
  rec_kern :: reader
  rec_idx :: "32 word"
  rec_scheds :: "schedule list"

text \<open>
  The clock is read twice in a round; \<open>r_send\<close> is the time when \<open>batctl\<close> has been read and the
  packets are handed to \<open>sendto\<close>. \<open>r_world\<close> is what \<open>self_info\<close> finds: the schedule
  file, the time of day and the arrays on the stack of \<open>cur_subject\<close>.
\<close>

record round =
  r_check :: int
  r_stamp :: int
  r_send :: int
  r_spawn :: spawn
  r_world :: own

datatype rec_event = Round round | SetDelay int

datatype rec_status = Running | Stopped | Replaced

definition set_delay_time :: "int \<Rightarrow> recog \<Rightarrow> recog" where
  "set_delay_time t st = st\<lparr>delay_time := t\<rparr>"

text \<open>What is handed to \<open>sendto\<close>, whose result is not looked at: an address and the bytes.\<close>

type_synonym message = "string \<times> 8 word list"

function send_loop :: "int \<Rightarrow> int \<Rightarrow> devinfo list \<Rightarrow> packet \<Rightarrow> message list outcome" where
  "send_loop i ndev devs p =
     (if i < ndev then
        bind_out (array_get devs i) (\<lambda>d.
        bind_out (cstring (ip d)) (\<lambda>a.
        bind_out (send_loop (i + 1) ndev devs p) (\<lambda>ms. Val ((a, packet_bytes p) # ms))))
      else Val [])"
  by pat_completeness auto
termination
  by (relation "measure (\<lambda>(i, ndev, devs, p). nat (ndev - i))") auto

declare send_loop.simps [simp del]

text \<open>One round: the status, the state, and the broadcast made, if any, with its time.\<close>

definition recognize ::
  "bool \<Rightarrow> round \<Rightarrow> recog \<Rightarrow> (rec_status \<times> recog \<times> (int \<times> message list) list) outcome"
where
  "recognize sc r st =
     (if retrieve_time st + delay_time st > r_check r then Val (Running, st, [])
      else
        let st = st\<lparr>retrieve_time := r_stamp r\<rparr> in
        bind_out (getdevinfo sc DEVINFO_MAX (devinfos st) (r_spawn r) (rec_kern st) (rec_proc st)) (\<lambda>g.
        case g of
          BecomesBatctl \<Rightarrow> Val (Replaced, st, [])
        | Returns ndev devs p kern \<Rightarrow>
            let st = st\<lparr>devinfos := devs, rec_proc := p, rec_kern := kern\<rparr> in
            if ndev < 0 then Val (Stopped, st\<lparr>rec_proc := p\<lparr>open_fds := open_fds p - 1\<rparr>\<rparr>, [])
            else
              bind_out (self_info ((r_world r)\<lparr>self_idx := rec_idx st, scheds := rec_scheds st\<rparr>) (rec_info st))
                (\<lambda>(info, o2).
              bind_out (pack_information info (rec_packet st)) (\<lambda>pkt.
              bind_out (send_loop 0 ndev devs pkt) (\<lambda>ms.
              Val (Running, st\<lparr>rec_info := info, rec_packet := pkt, rec_scheds := scheds o2\<rparr>,
                   [(r_send r, ms)]))))))"

fun recognize_loop ::
  "bool \<Rightarrow> rec_event list \<Rightarrow> recog \<Rightarrow> (rec_status \<times> recog \<times> (int \<times> message list) list) outcome"
where
  "recognize_loop sc [] st = Val (Running, st, [])"
| "recognize_loop sc (SetDelay t # es) st = recognize_loop sc es (set_delay_time t st)"
| "recognize_loop sc (Round r # es) st =
     bind_out (recognize sc r st) (\<lambda>(status, st, log).
     if status = Running
     then bind_out (recognize_loop sc es st) (\<lambda>(status, st, log'). Val (status, st, log @ log'))
     else Val (status, st, log))"

text \<open>The socket comes first; \<open>None\<close> when it could not be made.\<close>

definition thr_recognizer ::
  "bool \<Rightarrow> int option \<Rightarrow> rec_event list \<Rightarrow> recog \<Rightarrow> (rec_status \<times> recog \<times> (int \<times> message list) list) outcome"
where
  "thr_recognizer sc sock es st =
     (case sock of
        Some e \<Rightarrow> Val (Stopped, st\<lparr>rec_proc := (rec_proc st)\<lparr>errno := e\<rparr>\<rparr>, [])
      | None \<Rightarrow>
          recognize_loop sc es
            (st\<lparr>retrieve_time := 0,
                rec_proc := (rec_proc st)\<lparr>open_fds := open_fds (rec_proc st) + 1\<rparr>\<rparr>))"

section \<open>One round\<close>

definition rec_ok :: "recog \<Rightarrow> bool" where
  "rec_ok st \<longleftrightarrow> devs_ok DEVINFO_MAX (devinfos st) \<and> packet_ok (rec_packet st) \<and>
     info_ok (rec_info st) \<and> buf_ok (rec_kern st)"

lemma send_loop_all:
  "i \<le> n \<Longrightarrow> n \<le> length devs \<Longrightarrow> \<forall>j < n. cstring (ip (devs ! j)) = Val (a j) \<Longrightarrow>
     send_loop (int i) (int n) devs p = Val (map (\<lambda>j. (a j, packet_bytes p)) [i..<n])"
proof (induction "n - i" arbitrary: i)
  case 0
  then show ?case by (subst send_loop.simps) simp
next
  case (Suc k)
  then have i: "i < n" "k = n - Suc i" by simp_all
  from Suc.hyps(1) [of "Suc i"] Suc.prems i
  have "send_loop (int (Suc i)) (int n) devs p = Val (map (\<lambda>j. (a j, packet_bytes p)) [Suc i..<n])" by simp
  with i Suc.prems show ?case
    by (subst send_loop.simps) (simp add: int_plus_1 upt_conv_Cons del: of_nat_Suc)
qed

lemma self_info_ok: "self_info o1 info = Val (info', o2) \<Longrightarrow> info_ok info \<Longrightarrow> info_ok info'"
  by (auto simp: self_info_def info_ok_def outcome_simps dest: strcpy_into_length)

lemma recognize_due:
  assumes "rec_ok st" "retrieve_time st + delay_time st \<le> r_check r"
    and "recognize sc r st = Val (status, st', log)"
  shows "log = [] \<and> status \<noteq> Running \<or>
    (\<exists>ms. status = Running \<and> log = [(r_send r, ms)] \<and> retrieve_time st' = r_stamp r \<and>
       delay_time st' = delay_time st \<and> rec_ok st' \<and>
       open_fds (rec_proc st) + 2 \<le> fd_max (rec_proc st) \<and>
       rec_proc st' = (rec_proc st)\<lparr>open_fds := open_fds (rec_proc st) + 1\<rparr>)"
proof -
  from getdevinfo_any [of "rec_kern st" DEVINFO_MAX "devinfos st" sc "r_spawn r" "rec_proc st"] assms(1)
  obtain g where
    g: "getdevinfo sc DEVINFO_MAX (devinfos st) (r_spawn r) (rec_kern st) (rec_proc st) = Val g"
      "getdev_ok DEVINFO_MAX (rec_proc st) g" by (auto simp: rec_ok_def)
  show ?thesis
  proof (cases g)
    case BecomesBatctl
    with assms g show ?thesis by (simp add: recognize_def)
  next
    case (Returns n devs p kern)
    with assms g show ?thesis
      by (auto simp: recognize_def Let_def getdev_ok_def rec_ok_def outcome_simps
          dest: self_info_ok pack_information_packet_ok split: if_splits)
  qed
qed

lemma recognize_early:
  "r_check r < retrieve_time st + delay_time st \<Longrightarrow> recognize sc r st = Val (Running, st, [])"
  by (simp add: recognize_def)

lemma recognize_cases:
  assumes "rec_ok st" "recognize sc r st = Val (status, st', log)"
  obtains (early) "status = Running" "st' = st" "log = []"
  | (ends) "status \<noteq> Running" "log = []"
  | (sends) ms where "status = Running" "log = [(r_send r, ms)]" "rec_ok st'"
      "retrieve_time st + delay_time st \<le> r_check r" "retrieve_time st' = r_stamp r"
      "delay_time st' = delay_time st" "open_fds (rec_proc st) + 2 \<le> fd_max (rec_proc st)"
      "rec_proc st' = (rec_proc st)\<lparr>open_fds := open_fds (rec_proc st) + 1\<rparr>"
proof (cases "retrieve_time st + delay_time st \<le> r_check r")
  case True
  from recognize_due [OF assms(1) True assms(2)] True show ?thesis using ends sends by blast
next
  case False
  with recognize_early [of r st sc] assms(2) show ?thesis using early by simp
qed

text \<open>A round that is due, on a table of known neighbours and a file of dated entries.\<close>

lemma recognize_sends:
  assumes st: "rec_ok st" and due: "retrieve_time st + delay_time st \<le> r_check r"
    and fds: "open_fds (rec_proc st) + 2 \<le> fd_max (rec_proc st)" "fork_res (r_spawn r) = InParent pid"
    and h: "ascii h1" "ascii h2" "LF \<notin> set h1" "LF \<notin> set h2"
    and rows: "\<forall>w \<in> set rows. row_ok w \<and> mac2ip (addr w) \<noteq> None"
    and out: "pipe_chars (batctl_out (r_spawn r)) = print_batctl h1 h2 rows"
      "pipe_end (batctl_out (r_spawn r)) = 0"
    and own: "own_ok ((r_world r)\<lparr>self_idx := rec_idx st, scheds := rec_scheds st\<rparr>) es"
  shows "\<exists>now s q st'. now_time (clock (r_world r)) = Val now \<and> current es now s \<and>
    recognize sc r st = Val (Running, st',
      [(r_send r, map (\<lambda>w. (the (mac2ip (addr w)), packet_bytes q)) (take 256 rows))]) \<and>
    rec_ok st' \<and> retrieve_time st' = r_stamp r \<and> delay_time st' = delay_time st \<and>
    rec_idx st' = rec_idx st \<and> rec_scheds st' = es @ drop (length es) (rec_scheds st) \<and>
    rec_proc st' = (rec_proc st)\<lparr>open_fds := open_fds (rec_proc st) + 1\<rparr> \<and> packet_ok q \<and>
    pkt_index q = ucast (rec_idx st) \<and> cstring (pkt_name q) = Val s \<and>
    ntohl (pkt_time q) = word_of_int (case total_min (r_world r) of Some t \<Rightarrow> t | None \<Rightarrow> 10)"
proof -
  let ?own = "(r_world r)\<lparr>self_idx := rec_idx st, scheds := rec_scheds st\<rparr>"
  let ?m = "min (length rows) 256"
  have ok: "buf_ok (rec_kern st)" "devs_ok DEVINFO_MAX (devinfos st)" "packet_ok (rec_packet st)"
    "info_ok (rec_info st)" using st by (simp_all add: rec_ok_def)
  from getdevinfo_table [OF fds ok(1,2) h rows out, of ?m sc] obtain devs kern where
    g: "getdevinfo sc DEVINFO_MAX (devinfos st) (r_spawn r) (rec_kern st) (rec_proc st) =
        Val (Returns (int ?m) devs ((rec_proc st)\<lparr>open_fds := open_fds (rec_proc st) + 1\<rparr>) kern)"
    and ips: "\<forall>j < ?m. Some (cstring (ip (devs ! j))) = map_option Val (mac2ip (addr (rows ! j)))"
    by (auto simp: DEVINFO_MAX_def)
  have len: "?m \<le> length devs"
    using getdevinfo_any [OF ok(1,2), of sc "r_spawn r" "rec_proc st"] g
    by (auto simp: getdev_ok_def devs_ok_def DEVINFO_MAX_def)
  have "\<forall>j < ?m. cstring (ip (devs ! j)) = Val (the (mac2ip (addr (rows ! j))))"
  proof (intro allI impI)
    fix j assume j: "j < ?m"
    then have "mac2ip (addr (rows ! j)) \<noteq> None" using rows by simp
    with ips j show "cstring (ip (devs ! j)) = Val (the (mac2ip (addr (rows ! j))))" by fastforce
  qed
  note send = send_loop_all [OF _ len this, of 0]
  from self_info_current [OF own ok(4)] obtain now s info o2 where
    self: "self_info ?own (rec_info st) = Val (info, o2)" "now_time (clock (r_world r)) = Val now"
      "current es now s" "cstring (subject_name info) = Val s" "info_ok info"
      "info_index info = rec_idx st"
      "info_time info = (case total_min (r_world r) of Some t \<Rightarrow> t | None \<Rightarrow> 10)"
      "scheds o2 = es @ drop (length es) (rec_scheds st)"
    by auto
  note pack = pack_information_eq [OF ok(3) self(5,4)]
  let ?q = "(rec_packet st)\<lparr>pkt_index := ucast (info_index info), pkt_time := htonl (word_of_int (info_time info)),
       pkt_name := s @ NUL # drop (Suc (length s)) (pkt_name (rec_packet st))\<rparr>"
  have s: "NUL \<notin> set s" using self(4) by (auto simp: cstring_Val_iff)
  have take: "map (\<lambda>j. (the (mac2ip (addr (rows ! j))), packet_bytes ?q)) [0..<?m] =
      map (\<lambda>w. (the (mac2ip (addr w)), packet_bytes ?q)) (take 256 rows)"
    by (rule nth_equalityI) auto
  obtain st' where res: "recognize sc r st = Val (Running, st',
      [(r_send r, map (\<lambda>w. (the (mac2ip (addr w)), packet_bytes ?q)) (take 256 rows))])"
    "rec_idx st' = rec_idx st" "rec_scheds st' = es @ drop (length es) (rec_scheds st)"
    using due g self(1,8) pack send take
    by (auto simp: recognize_def Let_def)
  moreover have "packet_ok ?q" by (rule pack_information_packet_ok [OF pack ok(3)])
  moreover have "rec_ok st' \<and> retrieve_time st' = r_stamp r \<and> delay_time st' = delay_time st \<and>
      rec_proc st' = (rec_proc st)\<lparr>open_fds := open_fds (rec_proc st) + 1\<rparr>"
    using recognize_due [OF st due res(1)] by auto
  ultimately show ?thesis
    using self s by (intro exI [of _ now] exI [of _ s] exI [of _ ?q] exI [of _ st']) simp
qed

section \<open>Properties\<close>

text \<open>
  C7: one broadcast. In a round that is due, with \<open>batctl\<close> listing known neighbours and a
  schedule file of dated entries, the thread sends one packet to each neighbour listed (the
  first 256), at its address of the table, and nothing else. The packet carries the own index
  modulo 256, the study time and the name of the current subject.
\<close>

theorem recognize_broadcast:
  assumes st: "rec_ok st" and due: "retrieve_time st + delay_time st \<le> r_check r"
    and fds: "open_fds (rec_proc st) + 2 \<le> fd_max (rec_proc st)" "fork_res (r_spawn r) = InParent pid"
    and h: "ascii h1" "ascii h2" "LF \<notin> set h1" "LF \<notin> set h2"
    and rows: "\<forall>w \<in> set rows. row_ok w \<and> mac2ip (addr w) \<noteq> None"
    and out: "pipe_chars (batctl_out (r_spawn r)) = print_batctl h1 h2 rows"
      "pipe_end (batctl_out (r_spawn r)) = 0"
    and own: "own_ok ((r_world r)\<lparr>self_idx := rec_idx st, scheds := rec_scheds st\<rparr>) es"
  shows "\<exists>now s q st'. now_time (clock (r_world r)) = Val now \<and> current es now s \<and>
    recognize sc r st = Val (Running, st',
      [(r_send r, map (\<lambda>w. (the (mac2ip (addr w)), packet_bytes q)) (take 256 rows))]) \<and>
    rec_ok st' \<and> retrieve_time st' = r_stamp r \<and> delay_time st' = delay_time st \<and>
    rec_idx st' = rec_idx st \<and> rec_scheds st' = es @ drop (length es) (rec_scheds st) \<and>
    rec_proc st' = (rec_proc st)\<lparr>open_fds := open_fds (rec_proc st) + 1\<rparr> \<and> packet_ok q \<and>
    pkt_index q = ucast (rec_idx st) \<and> cstring (pkt_name q) = Val s \<and>
    ntohl (pkt_time q) = word_of_int (case total_min (r_world r) of Some t \<Rightarrow> t | None \<Rightarrow> 10)"
  by (rule recognize_sends [OF assms])

text \<open>A small world to run the thread in.\<close>

definition sample_world :: own where
  "sample_world =
     \<lparr>self_idx = 0, sched_file = Some [], scheds = [], tmp_sched = [no_entry], sched_time = [],
      clock = \<lparr>tm_year = 117, tm_mon = 5, tm_mday = 6, tm_hour = 18, tm_min = 20\<rparr>, total_min = None\<rparr>"

definition sample_round :: "int \<Rightarrow> int \<Rightarrow> pending list \<Rightarrow> round" where
  "sample_round t t' ps =
     \<lparr>r_check = t, r_stamp = t', r_send = t',
      r_spawn = \<lparr>fork_res = InParent 77, dup2_err = None, execv_err = None, batctl_out = ps\<rparr>,
      r_world = sample_world\<rparr>"

definition sample_recog :: recog where
  "sample_recog =
     \<lparr>delay_time = 1, devinfos = blank_devs 256, retrieve_time = 0,
      rec_packet = \<lparr>pkt_index = 0, pkt_pad = [1, 2, 3], pkt_time = 0, pkt_name = replicate 20 NUL\<rparr>,
      rec_info = blank_info, rec_proc = \<lparr>open_fds = 5, fd_max = 1024, errno = 0\<rparr>,
      rec_kern = boot_reader [] USER_DS, rec_idx = 3, rec_scheds = [no_entry]\<rparr>"

lemma sample_recog_ok [simp]: "rec_ok sample_recog"
  by (simp add: rec_ok_def sample_recog_def DEVINFO_MAX_def packet_ok_def info_ok_def blank_info_def
      SUBJECT_NAME_MAX_def)

lemma sample_round_sends:
  assumes "rec_ok st" "retrieve_time st + delay_time st \<le> t" "rec_scheds st = [no_entry]"
    "open_fds (rec_proc st) + 2 \<le> fd_max (rec_proc st)"
  shows "\<exists>st'. recognize sc ((sample_round t t' [Bytes (''head'' @ [LF] @ ''IF'' @ [LF])])\<lparr>r_send := s\<rparr>) st =
      Val (Running, st', [(s, [])]) \<and> rec_ok st' \<and> rec_scheds st' = [no_entry] \<and>
    retrieve_time st' = t' \<and> delay_time st' = delay_time st \<and>
    rec_proc st' = (rec_proc st)\<lparr>open_fds := open_fds (rec_proc st) + 1\<rparr>"
  using recognize_sends [OF assms(1), of "(sample_round t t' [Bytes (''head'' @ [LF] @ ''IF'' @ [LF])])\<lparr>r_send := s\<rparr>" 77
      "''head''" "''IF''" "[]" "[]" sc] assms
  by (auto simp: sample_round_def sample_world_def print_batctl_def own_ok_def tm_ok_def)

text \<open>\<open>batctl\<close> takes five seconds in the first round; the third round comes too early.\<close>

abbreviation sample_events :: "rec_event list" where
  "sample_events \<equiv>
     map (\<lambda>(t, t', s). Round ((sample_round t t' [Bytes (''head'' @ [LF] @ ''IF'' @ [LF])])\<lparr>r_send := s\<rparr>))
       [(10, 10, 15), (15, 15, 15), (15, 15, 15), (16, 17, 17)]"

lemma sample_run:
  "\<exists>st. recognize_loop True sample_events sample_recog = Val (Running, st, [(15, []), (15, []), (17, [])])"
proof -
  let ?r = "\<lambda>t t' s. (sample_round t t' [Bytes (''head'' @ [LF] @ ''IF'' @ [LF])])\<lparr>r_send := s\<rparr>"
  from sample_round_sends [OF sample_recog_ok, of 10 True 15 10] obtain st1 where
    1: "recognize True (?r 10 10 15) sample_recog = Val (Running, st1, [(15, [])])" "rec_ok st1"
      "rec_scheds st1 = [no_entry]" "retrieve_time st1 = 10" "delay_time st1 = 1"
      "open_fds (rec_proc st1) = 6" "fd_max (rec_proc st1) = 1024"
    by (auto simp: sample_recog_def)
  from sample_round_sends [OF 1(2), of 15 True 15 15] 1 obtain st2 where
    2: "recognize True (?r 15 15 15) st1 = Val (Running, st2, [(15, [])])" "rec_ok st2"
      "rec_scheds st2 = [no_entry]" "retrieve_time st2 = 15" "delay_time st2 = 1"
      "open_fds (rec_proc st2) = 7" "fd_max (rec_proc st2) = 1024"
    by auto
  have 3: "recognize True (?r 15 15 15) st2 = Val (Running, st2, [])"
    using 2(4,5) by (intro recognize_early) (simp add: sample_round_def)
  from sample_round_sends [OF 2(2), of 16 True 17 17] 2 obtain st3 where
    4: "recognize True (?r 16 17 17) st2 = Val (Running, st3, [(17, [])])" by auto
  from 1(1) 2(1) 3 4 show ?thesis by simp
qed

theorem recognize_broadcast_witness:
  "\<exists>s q st'. recognize True
      (sample_round 100 101
         [Bytes (''head'' @ [LF] @ ''IF'' @ [LF] @ ''  wlan0 90:9f:33:ec:04:8a 0.190s'' @ [LF])])
      sample_recog =
    Val (Running, st', [(101, [(''192.168.2.1'', packet_bytes q)])]) \<and> pkt_index q = 3 \<and>
    cstring (pkt_name q) = Val ''NOTHING''"
proof -
  let ?r = "sample_round 100 101
      [Bytes (''head'' @ [LF] @ ''IF'' @ [LF] @ ''  wlan0 90:9f:33:ec:04:8a 0.190s'' @ [LF])]"
  have own: "own_ok ((r_world ?r)\<lparr>self_idx := rec_idx sample_recog, scheds := rec_scheds sample_recog\<rparr>) []"
    by (simp add: own_ok_def tm_ok_def sample_round_def sample_recog_def sample_world_def)
  show ?thesis
    using recognize_broadcast [OF sample_recog_ok, of ?r 77 "''head''" "''IF''"
        "[BatRow ''  '' ''wlan0'' '' '' ''90:9f:33:ec:04:8a'' '' 0.190s'']" "[]" True] own
    by (auto simp: row_ok_def print_batctl_def print_row_def isspace_def mac2ip_def arptbl_def current_def
        sample_round_def sample_recog_def sample_world_def)
qed

text \<open>
  The times of a run in order: each round begins after the one before has sent, and within a
  round the clock does not step back.
\<close>

fun in_order :: "int \<Rightarrow> rec_event list \<Rightarrow> bool" where
  "in_order t [] = True"
| "in_order t (SetDelay d # es) = in_order t es"
| "in_order t (Round r # es) =
     (t \<le> r_check r \<and> r_check r \<le> r_stamp r \<and> r_stamp r \<le> r_send r \<and> in_order (r_send r) es)"

text \<open>
  Broadcasts at times \<open>ts\<close>, each with a time noted before it that is \<open>d\<close> after the one noted
  last (\<open>R\<close>) and not before the last broadcast (\<open>t\<close>).
\<close>

inductive paced :: "int \<Rightarrow> int \<Rightarrow> int \<Rightarrow> int list \<Rightarrow> bool" for d where
  none: "paced d R t []"
| one: "R + d \<le> R' \<Longrightarrow> t \<le> R' \<Longrightarrow> R' \<le> t' \<Longrightarrow> paced d R' t' ts \<Longrightarrow> paced d R t (t' # ts)"

inductive_cases pacedE: "paced d R t (t' # ts)"

lemma in_order_later: "in_order t es \<Longrightarrow> s \<le> t \<Longrightarrow> in_order s es"
  by (induction s es rule: in_order.induct) auto

lemma paced_sorted: "paced d R t ts \<Longrightarrow> sorted (t # ts)"
  by (induction rule: paced.induct) auto

lemma paced_first: "paced d R t ts \<Longrightarrow> t' \<in> set ts \<Longrightarrow> R + d \<le> t'"
proof (cases ts)
  case (Cons u us)
  assume "paced d R t ts" "t' \<in> set ts"
  moreover from this Cons have "R + d \<le> u" by (auto elim: pacedE)
  ultimately show ?thesis using paced_sorted [of d R t ts] Cons by auto
qed simp

lemma paced_pairs: "paced d R t ts \<Longrightarrow> i + 2 < length (t # ts) \<Longrightarrow> (t # ts) ! i + d \<le> ts ! (i + 1)"
proof (induction arbitrary: i rule: paced.induct)
  case (one R R' t t' ts)
  show ?case
  proof (cases i)
    case 0
    with one.prems obtain u us where "ts = u # us" by (cases ts) auto
    with one.hyps 0 show ?thesis by (auto elim: pacedE)
  next
    case (Suc j)
    with one.IH [of j] one.prems show ?thesis by simp
  qed
qed simp

lemma recognize_loop_paced:
  assumes "rec_ok st" "d \<le> delay_time st" "\<forall>t. SetDelay t \<in> set es \<longrightarrow> d \<le> t" "in_order t es"
    and "recognize_loop sc es st = Val (status, st', log)"
  shows "paced d (retrieve_time st) t (map fst log)"
  using assms
proof (induction es arbitrary: st t log)
  case (Cons e es)
  show ?case
  proof (cases e)
    case (SetDelay u)
    with Cons.IH [of "set_delay_time u st" t log] Cons.prems show ?thesis
      by (simp add: set_delay_time_def rec_ok_def)
  next
    case (Round r)
    with Cons.prems(5) obtain status1 st1 log1 where
      one: "recognize sc r st = Val (status1, st1, log1)"
      and rest: "if status1 = Running
        then \<exists>log2. recognize_loop sc es st1 = Val (status, st', log2) \<and> log = log1 @ log2
        else log = log1" by (auto simp: outcome_simps split: if_splits)
    from Cons.prems(4) Round have r: "t \<le> r_check r" "r_check r \<le> r_stamp r" "r_stamp r \<le> r_send r"
      "in_order (r_send r) es" by simp_all
    then have "in_order t es" using in_order_later by (meson order_trans)
    note IH = Cons.IH [OF _ _ _ this]
    from Cons.prems(1) one show ?thesis
    proof (cases rule: recognize_cases)
      case early
      with rest Cons.prems IH [of st log] show ?thesis by auto
    next
      case ends
      with rest show ?thesis by (simp add: paced.none)
    next
      case (sends ms)
      with rest obtain log2 where log2: "recognize_loop sc es st1 = Val (status, st', log2)" "log = log1 @ log2"
        by auto
      have "paced d (r_stamp r) (r_send r) (map fst log2)"
        using Cons.IH [OF sends(3) _ _ r(4) log2(1)] Cons.prems(2,3) sends(5,6) by simp
      with sends(2,4) log2(2) r Cons.prems(2) show ?thesis
        by (auto intro: paced.one [where R' = "r_stamp r"])
    qed
  qed
qed (simp add: paced.none)

text \<open>
  C24: the rate of the broadcasts, as long as nobody sets a shorter delay than \<open>d\<close> and the
  clock does not step back. The delay counts from the time noted before \<open>batctl\<close> ran, so two
  broadcasts in a row may come in the same second; every broadcast is at least \<open>d\<close> after the
  one before the last, and the first at least \<open>d\<close> after the time last noted.
\<close>

theorem recognizer_rate:
  assumes "rec_ok st" "d \<le> delay_time st" "\<forall>t. SetDelay t \<in> set es \<longrightarrow> d \<le> t" "in_order t es"
    and "recognize_loop sc es st = Val (status, st', log)" "ts = map fst log"
  shows "sorted ts \<and> (\<forall>t' \<in> set ts. retrieve_time st + d \<le> t') \<and>
    (\<forall>i. i + 2 < length ts \<longrightarrow> ts ! i + d \<le> ts ! (i + 2))"
proof -
  note p = recognize_loop_paced [OF assms(1-5)]
  have "ts ! i + d \<le> ts ! (i + 2)" if "i + 2 < length ts" for i
    using paced_pairs [OF p, of "Suc i"] that assms(6) by simp
  with paced_sorted [OF p] paced_first [OF p] assms(6) show ?thesis by simp
qed

theorem recognizer_rate_witness:
  "\<exists>st. recognize_loop True sample_events sample_recog = Val (Running, st, [(15, []), (15, []), (17, [])]) \<and>
     (\<forall>i. i + 2 < 3 \<longrightarrow> [15, 15, 17] ! i + 1 \<le> [15, 15, 17 :: int] ! (i + 2))"
proof -
  obtain st where run: "recognize_loop True sample_events sample_recog =
      Val (Running, st, [(15, []), (15, []), (17, [])])" using sample_run by blast
  have "in_order 0 sample_events" by (simp add: sample_round_def)
  from recognizer_rate [OF sample_recog_ok _ _ this run refl, of 1] run show ?thesis
    by (simp add: sample_recog_def)
qed

text \<open>
  C33: the recognizer runs out of descriptors. Every broadcast leaves one more open, the
  read end of its pipe, so a process that starts with \<open>open_fds\<close> of \<open>fd_max\<close> open makes
  less than \<open>fd_max - open_fds\<close> broadcasts in its life, however long it runs.
\<close>

theorem recognizer_fd_leak:
  assumes "rec_ok st" "recognize_loop sc es st = Val (status, st', log)"
  shows "(status = Running \<longrightarrow> open_fds (rec_proc st') = open_fds (rec_proc st) + length log) \<and>
    (log \<noteq> [] \<longrightarrow> open_fds (rec_proc st) + length log + 1 \<le> fd_max (rec_proc st))"
  using assms
proof (induction es arbitrary: st log)
  case (Cons e es)
  show ?case
  proof (cases e)
    case (SetDelay t)
    with Cons.IH [of "set_delay_time t st" log] Cons.prems show ?thesis
      by (simp add: set_delay_time_def rec_ok_def)
  next
    case (Round r)
    with Cons.prems(2) obtain status1 st1 log1 where
      one: "recognize sc r st = Val (status1, st1, log1)"
      and rest: "if status1 = Running
        then \<exists>log2. recognize_loop sc es st1 = Val (status, st', log2) \<and> log = log1 @ log2
        else log = log1 \<and> status = status1" by (auto simp: outcome_simps split: if_splits)
    from Cons.prems(1) one show ?thesis
    proof (cases rule: recognize_cases)
      case early
      with rest Cons show ?thesis by auto
    next
      case ends
      with rest show ?thesis by simp
    next
      case (sends ms)
      with rest obtain log2 where log2: "recognize_loop sc es st1 = Val (status, st', log2)" "log = log1 @ log2"
        by auto
      with Cons.IH [OF sends(3) log2(1)] sends show ?thesis by (cases "log2 = []") auto
    qed
  qed
qed simp

theorem recognizer_fd_leak_witness:
  "\<exists>st. recognize_loop True sample_events sample_recog = Val (Running, st, [(15, []), (15, []), (17, [])]) \<and>
     open_fds (rec_proc st) = 8"
proof -
  obtain st where run: "recognize_loop True sample_events sample_recog = Val (Running, st, [(15, []), (15, []), (17, [])])"
    using sample_run by blast
  from recognizer_fd_leak [OF sample_recog_ok run] run show ?thesis by (simp add: sample_recog_def)
qed

end
