(* ===== verification/Receiver.thy ===== *)
theory Receiver
  imports Comm
begin

text \<open>
  \<open>studysys/receiver.c\<close>: the thread that waits for packets and keeps the table of reports.

  The thread's own variables live across the rounds of its loop: \<open>rcv_packet\<close> and \<open>rcv_info\<close>
  are \<open>packet\<close> and \<open>info\<close> on its stack, \<open>infos\<close> is the shared table \<open>information_list\<close>, which
  is only read and written under its lock. What \<open>select\<close> and \<open>recvfrom\<close> bring, and what
  \<open>time\<close> answers, is the list of events of a run.
\<close>

section \<open>The thread\<close>

record rx =
  rcv_packet :: packet
  rcv_info :: information
  infos :: "information list"

datatype wakeup = SelectFails | RecvFails | Datagram "8 word list"

datatype thread = Exited | Waiting

record sock_calls =
  socket_res :: int
  setsockopt_res :: int
  bind_res :: int

text \<open>
  \<open>recvfrom\<close> fills as much of the packet as the datagram has, up to its size; nothing when
  it fails. Its result is not looked at.
\<close>

definition recvfrom :: "wakeup \<Rightarrow> packet \<Rightarrow> packet" where
  "recvfrom w p =
     (case w of
        Datagram bs \<Rightarrow>
          (let mem = packet_bytes p; d = take (length mem) bs
           in packet_of_bytes (d @ drop (length d) mem))
      | _ \<Rightarrow> p)"

text \<open>One round after \<open>select\<close>: the arguments of the log message are evaluated as well.\<close>

definition receive :: "abi \<Rightarrow> wakeup \<Rightarrow> int \<Rightarrow> rx \<Rightarrow> rx outcome" where
  "receive a w now st =
     (let p = recvfrom w (rcv_packet st) in
      bind_out (unpack_packet a p (rcv_info st)) (\<lambda>info.
      bind_out (index2ip (sint (info_index info))) (\<lambda>from.
      bind_out (cstring (subject_name info)) (\<lambda>subject.
      let info = info\<lparr>rx_time := now\<rparr> in
      bind_out (update_infolist info (infos st)) (\<lambda>t.
      Val (st\<lparr>rcv_packet := p, rcv_info := info, infos := t\<rparr>))))))"

text \<open>The loop; at the end of the events the thread waits in \<open>select\<close>.\<close>

fun receive_loop :: "abi \<Rightarrow> (wakeup \<times> int) list \<Rightarrow> rx \<Rightarrow> (thread \<times> rx) outcome" where
  "receive_loop a [] st = Val (Waiting, st)"
| "receive_loop a ((w, now) # ws) st =
     (if w = SelectFails then Val (Exited, st)
      else bind_out (receive a w now st) (receive_loop a ws))"

definition thr_receiver ::
  "abi \<Rightarrow> sock_calls \<Rightarrow> 32 word \<Rightarrow> (wakeup \<times> int) list \<Rightarrow> rx \<Rightarrow> (thread \<times> rx) outcome"
where
  "thr_receiver a sc idx ws st =
     (if socket_res sc = -1 then Val (Exited, st)
      else if setsockopt_res sc < 0 then Val (Exited, st)
      else bind_out (index2ip (sint idx)) (\<lambda>ip.
        if bind_res sc = -1 then Val (Exited, st) else receive_loop a ws st))"

section \<open>One packet\<close>

text \<open>The record \<open>r\<close> is what the packet \<open>q\<close>, received at \<open>now\<close>, says.\<close>

definition reports :: "abi \<Rightarrow> packet \<Rightarrow> int \<Rightarrow> information \<Rightarrow> bool" where
  "reports a q now r \<longleftrightarrow>
     info_index r = ucast (pkt_index q) \<and> info_time r = time_of_u32 a (ntohl (pkt_time q)) \<and>
     cstring (subject_name r) = cstring (pkt_name q) \<and> rx_time r = now"

definition rx_ok :: "rx \<Rightarrow> bool" where
  "rx_ok st \<longleftrightarrow> packet_ok (rcv_packet st) \<and> info_ok (rcv_info st) \<and> int (length (infos st)) = DEVINFO_MAX"

text \<open>A packet the receiver can take: a terminated name and the index of a known device.\<close>

definition acceptable :: "packet \<Rightarrow> bool" where
  "acceptable q \<longleftrightarrow> NUL \<in> set (pkt_name q) \<and> 1 \<le> unat (pkt_index q) \<and> unat (pkt_index q) \<le> 4"

lemma recvfrom_ok: "packet_ok p \<Longrightarrow> packet_ok (recvfrom w p)"
  by (auto simp: recvfrom_def Let_def split: wakeup.split intro!: packet_ok_packet_of_bytes)

lemma recvfrom_whole: "packet_ok p \<Longrightarrow> length bs = 28 \<Longrightarrow> recvfrom (Datagram bs) p = packet_of_bytes bs"
  by (simp add: recvfrom_def Let_def)

lemma sint_ucast_byte: "sint (ucast (b :: 8 word) :: 32 word) = uint b"
proof -
  have "sint (ucast b :: 32 word) = uint (ucast b :: 32 word)"
    by (rule sint_device_index [OF device_index_ucast])
  also have "\<dots> = uint b" by (simp add: uint_up_ucast is_up)
  finally show ?thesis .
qed

lemma array_put_uint: "unat w < length xs \<Longrightarrow> array_put xs (uint w) x = Val (xs[unat w := x])"
  using array_put_int [of xs "unat w" x] by simp

lemma index2ip_int:
  "index2ip (int n) = (if 1 \<le> n \<and> n \<le> 4 then Val (snd (arptbl ! (n - 1))) else Undefined OutOfBounds)"
proof (cases n)
  case (Suc m)
  then have "int n - 1 = int m" by simp
  then show ?thesis using Suc by (simp only: index2ip_def array_get_int) (auto simp: arptbl_def)
qed (simp add: index2ip_def array_get_def)

lemma index2ip_uint:
  "index2ip (uint w) =
     (if 1 \<le> unat w \<and> unat w \<le> 4 then Val (snd (arptbl ! (unat w - 1))) else Undefined OutOfBounds)"
  using index2ip_int [of "unat w"] by simp

lemma receive_packet:
  assumes st: "rx_ok st" and q: "recvfrom w (rcv_packet st) = q"
  shows "if acceptable q
    then \<exists>r. receive a w now st = Val (st\<lparr>rcv_packet := q, rcv_info := r, infos := (infos st)[unat (pkt_index q) := r]\<rparr>) \<and>
      update_infolist r (infos st) = Val ((infos st)[unat (pkt_index q) := r]) \<and>
      reports a q now r \<and> info_ok r
    else receive a w now st = Undefined OutOfBounds"
proof -
  have pq: "packet_ok q" using st q recvfrom_ok by (auto simp: rx_ok_def)
  show ?thesis
  proof (cases "NUL \<in> set (pkt_name q)")
    case True
    then obtain s where s: "cstring (pkt_name q) = Val s" "NUL \<notin> set s"
      by (auto simp: cstring_def dest: set_takeWhileD)
    from st have info: "info_ok (rcv_info st)" by (simp add: rx_ok_def)
    obtain r0 where r0: "unpack_packet a q (rcv_info st) = Val r0" "reports a q now (r0\<lparr>rx_time := now\<rparr>)"
      using unpack_packet_eq [OF pq info s(1), of a] s by (auto simp: reports_def)
    have "info_ok r0" by (rule unpack_packet_info_ok [OF r0(1) info])
    have idx: "sint (info_index r0) = uint (pkt_index q)"
      using r0(2) by (simp add: reports_def sint_ucast_byte)
    have "unat (pkt_index q) < 256" using unsigned_less [of "pkt_index q", where ?'a = nat] by simp
    then have "update_infolist (r0\<lparr>rx_time := now\<rparr>) (infos st) =
        Val ((infos st)[unat (pkt_index q) := r0\<lparr>rx_time := now\<rparr>])"
      using st by (simp add: update_infolist_def idx rx_ok_def DEVINFO_MAX_def array_put_uint)
    moreover have "cstring (subject_name r0) = Val s" using r0(2) s(1) by (simp add: reports_def)
    moreover have "info_ok (r0\<lparr>rx_time := now\<rparr>)" using \<open>info_ok r0\<close> by (simp add: info_ok_def)
    ultimately show ?thesis
      using r0 True q by (auto simp: receive_def Let_def idx index2ip_uint acceptable_def)
  next
    case False
    with q show ?thesis
      by (simp add: receive_def acceptable_def unpack_packet_def strcpy_def cstring_def)
  qed
qed

lemma receive_ok: "rx_ok st \<Longrightarrow> receive a w now st = Val st' \<Longrightarrow> rx_ok st'"
  using receive_packet [of st w _ a now] recvfrom_ok [of "rcv_packet st" w]
  by (auto simp: rx_ok_def split: if_splits)

section \<open>Properties\<close>

text \<open>
  C20: which packets the receiver survives. On a datagram of 28 bytes the round succeeds
  exactly when the name is terminated and the index is one of the four known devices; it then
  files the report under the index with the time of arrival. Any other datagram makes it read
  or write outside an array, also those that only carry an index nobody has.
\<close>

theorem receive_safe:
  assumes "rx_ok st" "length bs = 28"
  shows "if 0 \<in> set (drop 8 bs) \<and> 1 \<le> unat (bs ! 0) \<and> unat (bs ! 0) \<le> 4
    then \<exists>st' r. receive a (Datagram bs) now st = Val st' \<and> rx_ok st' \<and>
      infos st' = (infos st)[unat (bs ! 0) := r] \<and> reports a (packet_of_bytes bs) now r
    else receive a (Datagram bs) now st = Undefined OutOfBounds"
proof -
  let ?q = "packet_of_bytes bs"
  have whole: "recvfrom (Datagram bs) (rcv_packet st) = ?q"
    using assms by (intro recvfrom_whole) (auto simp: rx_ok_def)
  have "acceptable ?q \<longleftrightarrow> 0 \<in> set (drop 8 bs) \<and> 1 \<le> unat (bs ! 0) \<and> unat (bs ! 0) \<le> 4"
    by (auto simp: acceptable_def packet_of_bytes_def char_of_unat_NUL image_iff eq_commute [of NUL])
  moreover have "pkt_index ?q = bs ! 0" by (simp add: packet_of_bytes_def)
  ultimately show ?thesis
    using receive_packet [OF assms(1) whole, of a now] receive_ok [OF assms(1)]
    by (fastforce split: if_splits)
qed

theorem receive_safe_witness:
  "\<exists>st' r. receive LP64 (Datagram ([2, 0, 0, 0, 0, 0, 0, 10, 77] @ replicate 19 0)) 1000
        \<lparr>rcv_packet = \<lparr>pkt_index = 0, pkt_pad = [1, 2, 3], pkt_time = 0, pkt_name = replicate 20 (CHR ''x'')\<rparr>,
         rcv_info = blank_info, infos = replicate 256 blank_info\<rparr> = Val st' \<and>
     infos st' = (replicate 256 blank_info)[2 := r] \<and> rx_time r = 1000"
  using receive_safe [of "\<lparr>rcv_packet = \<lparr>pkt_index = 0, pkt_pad = [1, 2, 3], pkt_time = 0,
        pkt_name = replicate 20 (CHR ''x'')\<rparr>, rcv_info = blank_info, infos = replicate 256 blank_info\<rparr>"
      "[2, 0, 0, 0, 0, 0, 0, 10, 77] @ replicate 19 0" LP64 1000]
  by (auto simp: rx_ok_def packet_ok_def info_ok_def blank_info_def SUBJECT_NAME_MAX_def DEVINFO_MAX_def
      reports_def)

text \<open>
  C37: a failed \<open>recvfrom\<close>, like an empty datagram, is a report. The packet on the stack is
  processed again, so the previous sender's report is filed once more with the present time.
\<close>

theorem receive_stale:
  assumes "rx_ok st" "acceptable (rcv_packet st)" "w = RecvFails \<or> w = Datagram []"
  shows "\<exists>st' r. receive a w now st = Val st' \<and> rcv_packet st' = rcv_packet st \<and>
    infos st' = (infos st)[unat (pkt_index (rcv_packet st)) := r] \<and>
    reports a (rcv_packet st) now r"
proof -
  have "recvfrom w (rcv_packet st) = rcv_packet st"
    using assms by (auto simp: recvfrom_def Let_def rx_ok_def)
  from receive_packet [OF assms(1) this, of a now] assms(2) show ?thesis by auto
qed

theorem receive_stale_witness:
  "\<exists>st' r. receive LP64 RecvFails 2000
        \<lparr>rcv_packet = \<lparr>pkt_index = 3, pkt_pad = [1, 2, 3], pkt_time = 0, pkt_name = replicate 20 NUL\<rparr>,
         rcv_info = blank_info, infos = replicate 256 blank_info\<rparr> = Val st' \<and>
     infos st' = (replicate 256 blank_info)[3 := r] \<and> rx_time r = 2000"
  using receive_stale [of "\<lparr>rcv_packet = \<lparr>pkt_index = 3, pkt_pad = [1, 2, 3], pkt_time = 0,
        pkt_name = replicate 20 NUL\<rparr>, rcv_info = blank_info, infos = replicate 256 blank_info\<rparr>"
      RecvFails LP64 2000]
  by (auto simp: rx_ok_def packet_ok_def info_ok_def blank_info_def SUBJECT_NAME_MAX_def DEVINFO_MAX_def
      reports_def acceptable_def)

section \<open>Many packets\<close>

lemma receive_loop_put_all:
  "rx_ok st \<Longrightarrow> \<forall>(q, now) \<in> set qs. packet_ok q \<and> acceptable q \<Longrightarrow>
   \<exists>st' rs. receive_loop a (map (\<lambda>(q, now). (Datagram (packet_bytes q), now)) qs) st = Val (Waiting, st') \<and>
     rx_ok st' \<and> put_all update_infolist rs (infos st) = Val (infos st') \<and>
     list_all2 (\<lambda>(q, now) r. reports a q now r) qs rs"
proof (induction qs arbitrary: st)
  case (Cons e qs)
  obtain q now where e: "e = (q, now)" by fastforce
  with Cons.prems have q: "packet_ok q" "acceptable q" by auto
  have "recvfrom (Datagram (packet_bytes q)) (rcv_packet st) = q"
    using q Cons.prems(1) by (subst recvfrom_whole) (auto simp: rx_ok_def)
  from receive_packet [OF Cons.prems(1) this, of a now] q(2) obtain st1 r where
    st1: "receive a (Datagram (packet_bytes q)) now st = Val st1"
      "update_infolist r (infos st) = Val (infos st1)" "reports a q now r" by auto
  from Cons.IH [OF receive_ok [OF Cons.prems(1) st1(1)]] Cons.prems(2) obtain st' rs where
    "receive_loop a (map (\<lambda>(q, now). (Datagram (packet_bytes q), now)) qs) st1 = Val (Waiting, st')"
    "rx_ok st'" "put_all update_infolist rs (infos st1) = Val (infos st')"
    "list_all2 (\<lambda>(q, now) r. reports a q now r) qs rs" by auto
  with st1 show ?case by (intro exI [of _ st'] exI [of _ "r # rs"]) (simp add: e)
qed simp

text \<open>The last of a list of reports that satisfies a test, on both sides of a relation.\<close>

lemma list_all2_filter_rev:
  assumes "list_all2 R xs ys" "\<And>x y. R x y \<Longrightarrow> P x \<longleftrightarrow> Q y"
  shows "list_all2 R (filter P (rev xs)) (filter Q (rev ys))"
proof -
  have "list_all2 R (filter P xs) (filter Q ys)"
    using assms(1) by (induction rule: list_all2_induct) (auto simp: assms(2))
  then show ?thesis by (simp flip: rev_filter)
qed

lemma get_other_info_index:
  "get_other_info i t = get_other_info (blank_info\<lparr>info_index := info_index i\<rparr>) t"
  by (simp add: get_other_info_def)

text \<open>
  C8: the table holds what each device said last. After any sequence of packets from known
  devices the thread waits for the next one, and reading a device's entry gives its last
  report with its time of arrival, or what was there before if it has sent none.
\<close>

theorem receiver_last_report:
  assumes "rx_ok st" "\<forall>(q, now) \<in> set qs. packet_ok q \<and> acceptable q"
  shows "\<exists>st'. receive_loop a (map (\<lambda>(q, now). (Datagram (packet_bytes q), now)) qs) st = Val (Waiting, st') \<and>
    rx_ok st' \<and>
    (\<forall>i. device_index (info_index i) \<longrightarrow>
      (case filter (\<lambda>(q, now). ucast (pkt_index q) = info_index i) (rev qs) of
         [] \<Rightarrow> get_other_info i (infos st') = get_other_info i (infos st)
       | (q, now) # _ \<Rightarrow> \<exists>r. get_other_info i (infos st') = Val r \<and> reports a q now r))"
proof -
  from receive_loop_put_all [OF assms, of a] obtain st' rs where
    st': "receive_loop a (map (\<lambda>(q, now). (Datagram (packet_bytes q), now)) qs) st = Val (Waiting, st')"
      "rx_ok st'" and put: "put_all update_infolist rs (infos st) = Val (infos st')"
    and rs: "list_all2 (\<lambda>(q, now) r. reports a q now r) qs rs" by blast
  have valid: "\<forall>r \<in> set rs. device_index (info_index r)"
    using rs by (auto simp: list_all2_conv_all_nth in_set_conv_nth reports_def split_beta')
  have "int (length (infos st)) = DEVINFO_MAX" using assms(1) by (simp add: rx_ok_def)
  from info_list.put_all_last [OF this valid] put
  have last: "get_other_info i (infos st') =
      (case filter (\<lambda>r. info_index r = info_index i) (rev rs) of
         [] \<Rightarrow> get_other_info i (infos st) | r # _ \<Rightarrow> Val r)"
    if "device_index (info_index i)" for i
    using that by (subst (1 2) get_other_info_index) (simp add: get_other_info_def)
  have "list_all2 (\<lambda>(q, now) r. reports a q now r)
      (filter (\<lambda>(q, now). ucast (pkt_index q) = k) (rev qs)) (filter (\<lambda>r. info_index r = k) (rev rs))" for k
    by (rule list_all2_filter_rev [OF rs]) (auto simp: reports_def)
  note both = this
  have "case filter (\<lambda>(q, now). ucast (pkt_index q) = info_index i) (rev qs) of
         [] \<Rightarrow> get_other_info i (infos st') = get_other_info i (infos st)
       | (q, now) # _ \<Rightarrow> \<exists>r. get_other_info i (infos st') = Val r \<and> reports a q now r"
    if "device_index (info_index i)" for i
    using both [of "info_index i"] last [OF that]
    by (cases "filter (\<lambda>(q, now). ucast (pkt_index q) = info_index i) (rev qs)")
      (auto simp: list_all2_Cons1)
  with st' show ?thesis by blast
qed

theorem receiver_last_report_witness:
  "\<exists>st' r. receive_loop LP64
      [(Datagram (packet_bytes \<lparr>pkt_index = 2, pkt_pad = [0, 0, 0], pkt_time = 0, pkt_name = replicate 20 NUL\<rparr>), 5),
       (Datagram (packet_bytes \<lparr>pkt_index = 2, pkt_pad = [0, 0, 0], pkt_time = 0, pkt_name = replicate 20 NUL\<rparr>), 7)]
      \<lparr>rcv_packet = \<lparr>pkt_index = 3, pkt_pad = [1, 2, 3], pkt_time = 0, pkt_name = replicate 20 (CHR ''x'')\<rparr>,
       rcv_info = blank_info, infos = replicate 256 blank_info\<rparr> = Val (Waiting, st') \<and>
     get_other_info (blank_info\<lparr>info_index := 2\<rparr>) (infos st') = Val r \<and> rx_time r = 7"
proof -
  let ?q = "\<lparr>pkt_index = 2, pkt_pad = [0, 0, 0], pkt_time = 0, pkt_name = replicate 20 NUL\<rparr>"
  let ?st = "\<lparr>rcv_packet = \<lparr>pkt_index = 3, pkt_pad = [1, 2, 3], pkt_time = 0,
      pkt_name = replicate 20 (CHR ''x'')\<rparr>, rcv_info = blank_info, infos = replicate 256 blank_info\<rparr>"
  have "rx_ok ?st" "\<forall>(q, now) \<in> set [(?q, 5), (?q, 7)]. packet_ok q \<and> acceptable q"
    by (simp_all add: rx_ok_def packet_ok_def info_ok_def blank_info_def SUBJECT_NAME_MAX_def
        DEVINFO_MAX_def acceptable_def)
  from receiver_last_report [OF this, of LP64] obtain st' where
    st': "receive_loop LP64 (map (\<lambda>(q, now). (Datagram (packet_bytes q), now)) [(?q, 5), (?q, 7)]) ?st
        = Val (Waiting, st')"
    and all: "\<And>i. device_index (info_index i) \<Longrightarrow>
      (case filter (\<lambda>(q, now). ucast (pkt_index q) = info_index i) (rev [(?q, 5), (?q, 7)]) of
         [] \<Rightarrow> get_other_info i (infos st') = get_other_info i (infos ?st)
       | (q, now) # _ \<Rightarrow> \<exists>r. get_other_info i (infos st') = Val r \<and> reports LP64 q now r)" by blast
  have "device_index 2" by (simp add: device_index_def DEVINFO_MAX_def)
  with all [of "blank_info\<lparr>info_index := 2\<rparr>"] st' show ?thesis by (auto simp: reports_def)
qed

end
