(* ===== verification/Terminal.thy ===== *)
theory Terminal
  imports Stdio
begin

text \<open>
  The standard input as \<open>studysys/schedule.c\<close> reads it: \<open>myflush\<close>, \<open>getch\<close> and the loops that
  ask until an answer is acceptable. The input is what is left of it, a string; at its end
  every further read fails.
\<close>

section \<open>Reading\<close>

text \<open>\<open>myflush\<close>: \<open>getchar\<close> returns \<open>EOF\<close>, which is no newline, for ever once the input is over.\<close>

fun myflush :: "string \<Rightarrow> string outcome" where
  "myflush [] = Hangs"
| "myflush (c # s) = (if c = LF then Val s else myflush s)"

text \<open>
  \<open>getch\<close>: one character; \<open>tcsetattr\<close> with \<open>TCSAFLUSH\<close>, before and after, discards what the
  terminal has of input not yet read, \<open>ahead s\<close> characters of it when \<open>s\<close> is left.
\<close>

definition getch :: "(string \<Rightarrow> nat) \<Rightarrow> string \<Rightarrow> string" where
  "getch ahead s =
     (let s = drop (ahead s) s;
          s = (case s of [] \<Rightarrow> [] | c # t \<Rightarrow> t)
      in drop (ahead s) s)"

text \<open>\<open>scanf("%s", buf)\<close> into an array of \<open>sz\<close> bytes: \<open>None\<close> when the input is over.\<close>

definition scan_word :: "nat \<Rightarrow> string \<Rightarrow> (string option \<times> string) outcome" where
  "scan_word sz s =
     (case scan_str None s of
        None \<Rightarrow> Val (None, [])
      | Some (w, t) \<Rightarrow> if sz \<le> length w then Undefined OutOfBounds else Val (Some (c_str w), t))"

lemma myflush_shrinks: "myflush s = Val t \<Longrightarrow> length t < length s"
  by (induction s rule: myflush.induct) (auto split: if_splits)

lemma scan_word_shrinks: "scan_word n s = Val (w, t) \<Longrightarrow> length t \<le> length s"
  by (auto simp: scan_word_def dest: scan_str_shrinks split: option.splits if_splits)

lemma getch_shrinks: "length (getch ahead s) \<le> length s"
proof (cases "drop (ahead s) s")
  case (Cons c t)
  then have "length t < length s" by (metis length_drop diff_le_self length_Cons Suc_le_eq)
  then show ?thesis using Cons by (simp add: getch_def)
qed (simp add: getch_def)

section \<open>Asking until the answer is acceptable\<close>

text \<open>\<open>while (1) { res = scanf("%s", buf); if (res == 1 && ok) break; myflush(); }\<close>\<close>

function read_until :: "nat \<Rightarrow> (string \<Rightarrow> bool) \<Rightarrow> string \<Rightarrow> (string \<times> string) outcome" where
  "read_until sz ok s =
     bind_out (scan_word sz s) (\<lambda>(w, t).
     case w of
       Some v \<Rightarrow> if ok v then Val (v, t) else bind_out (myflush t) (read_until sz ok)
     | None \<Rightarrow> bind_out (myflush t) (read_until sz ok))"
  by pat_completeness auto
termination
  by (relation "measure (\<lambda>(sz, ok, s). length s)")
    (auto dest!: myflush_shrinks scan_word_shrinks)

declare read_until.simps [simp del]

text \<open>
  The name of a subject, \<open>char name[20]\<close>: the rest of the line goes before the answer is
  looked at, and a second line before each further attempt.
\<close>

function read_name_again :: "string option \<Rightarrow> string \<Rightarrow> (string \<times> string) outcome" where
  "read_name_again res s =
     (case res of
        Some v \<Rightarrow>
          if length v > 19
          then bind_out (myflush s) (\<lambda>s. bind_out (scan_word 20 s) (\<lambda>(w, t). read_name_again w t))
          else Val (v, s)
      | None \<Rightarrow> bind_out (myflush s) (\<lambda>s. bind_out (scan_word 20 s) (\<lambda>(w, t). read_name_again w t)))"
  by pat_completeness auto
termination
  by (relation "measure (\<lambda>(res, s). length s)")
    (auto dest!: myflush_shrinks scan_word_shrinks)

declare read_name_again.simps [simp del]

definition read_name :: "string \<Rightarrow> (string \<times> string) outcome" where
  "read_name s =
     bind_out (scan_word 20 s) (\<lambda>(res, s). bind_out (myflush s) (read_name_again res))"

text \<open>
  \<open>while (1) { res = scanf("%d", &v); if (res == 1) break; }\<close>: nothing skips what is no number, so the
  loop does not end unless the failed conversion consumed something (white space or a sign).
\<close>

function read_number :: "string \<Rightarrow> (int \<times> string) outcome" where
  "read_number s =
     (case scan_int s of
        (Some v, t) \<Rightarrow> bind_out (as_int v) (\<lambda>v. Val (v, t))
      | (None, t) \<Rightarrow> if length t < length s then read_number t else Hangs)"
  by pat_completeness auto
termination
  by (relation "measure length") auto

declare read_number.simps [simp del]

text \<open>
  Where \<open>read_number\<close> is \<open>Hangs\<close> the conversion has left everything in place: the next round of
  the loop finds the same input, and so does every round after it.
\<close>

lemma scan_int_stuck:
  assumes "scan_int s = (None, t)" "\<not> length t < length s"
  shows "t = s"
proof -
  let ?w = "skip_ws s"
  let ?u = "if ?w \<noteq> [] \<and> hd ?w \<in> {CHR ''-'', CHR ''+''} then tl ?w else ?w"
  have t: "t = ?u" using assms(1) by (auto simp: scan_int_def Let_def split: if_splits)
  obtain k where "?w = drop k s" by (metis skip_ws_def dropWhile_eq_drop)
  then have "\<exists>k. t = drop k s" using t by (auto simp: tl_drop drop_Suc [symmetric] intro: exI [of _ "Suc k"])
  then obtain k where "t = drop k s" by blast
  with assms(2) show ?thesis by (cases "k = 0 \<or> s = []") auto
qed

text \<open>
  The prompt of a menu with the choices \<open>1 .. n\<close>: a line that is no number is flushed, a
  number out of range only reported.
\<close>

lemma scan_int_shrinks: "scan_int s = (r, t) \<Longrightarrow> length t \<le> length s \<and> (r \<noteq> None \<longrightarrow> length t < length s)"
proof -
  assume r: "scan_int s = (r, t)"
  let ?t = "skip_ws s"
  let ?u = "if ?t \<noteq> [] \<and> hd ?t \<in> {CHR ''-'', CHR ''+''} then tl ?t else ?t"
  have u: "length ?u \<le> length s" using skip_ws_length [of s] by auto
  have "takeWhile is_digit ?u = [] \<and> r = None \<and> t = ?u \<or>
      takeWhile is_digit ?u \<noteq> [] \<and> t = drop (length (takeWhile is_digit ?u)) ?u"
    using r by (auto simp: scan_int_def Let_def split: if_splits)
  with u show ?thesis
    by (smt (verit, best) diff_less length_drop length_greater_0_conv length_takeWhile_le
        less_le_trans less_or_eq_imp_le linorder_not_less takeWhile.simps(1))
qed

function read_choice :: "int \<Rightarrow> string \<Rightarrow> (int \<times> string) outcome" where
  "read_choice n s =
     (case scan_int s of
        (Some v, t) \<Rightarrow>
          bind_out (as_int v) (\<lambda>sel.
          if sel < 1 \<or> n < sel then read_choice n t else Val (sel, t))
      | (None, t) \<Rightarrow> bind_out (myflush t) (read_choice n))"
  by pat_completeness auto
termination
  by (relation "measure (\<lambda>(n, s). length s)")
    (auto dest!: myflush_shrinks scan_int_shrinks [OF sym])

declare read_choice.simps [simp del]

section \<open>Lines that are accepted\<close>

text \<open>A word a user can type for a \<open>%s\<close> conversion.\<close>

definition typed :: "string \<Rightarrow> bool" where
  "typed w \<longleftrightarrow> wordy w \<and> w \<noteq> [] \<and> NUL \<notin> set w"

lemma typed_LF: "typed w \<Longrightarrow> LF \<notin> set w"
  by (auto simp: typed_def)

lemma scan_word_typed:
  assumes "typed w" "length w < n" "c_isspace c" "skip_ws s = w @ c # t"
  shows "scan_word n s = Val (Some w, c # t)"
proof -
  have "scan_str None s = Some (w, c # t)"
    using assms by (intro scan_str_word) (auto simp: typed_def)
  with assms show ?thesis by (simp add: scan_word_def typed_def)
qed

lemma read_until_typed:
  assumes "typed w" "length w < n" "ok w" "skip_ws s = w @ LF # t"
  shows "read_until n ok s = Val (w, LF # t)"
  using scan_word_typed [OF assms(1,2) _ assms(4)] assms(3) by (subst read_until.simps) simp

lemma read_name_typed:
  assumes "typed w" "length w < 20" "skip_ws s = w @ LF # t"
  shows "read_name s = Val (w, t)"
  using scan_word_typed [OF assms(1,2) _ assms(3)] assms(2)
  by (simp add: read_name_def read_name_again.simps)

lemma skip_ws_typed: "typed w \<Longrightarrow> skip_ws (w @ t) = w @ t"
  by (simp add: typed_def skip_ws_wordy)

text \<open>A number typed in decimal.\<close>

lemma show_nat_digits: "\<forall>c \<in> set (show_nat n). is_digit c" and show_nat_nonempty: "show_nat n \<noteq> []"
proof (induction n rule: show_nat.induct)
  case (1 n)
  { case 1 with "1.IH" show ?case
      by (subst show_nat.simps) (auto simp: is_digit_def) }
  { case 2 show ?case by (subst show_nat.simps) simp }
qed

lemma digits_val_append: "digits_val (ds @ [c]) = 10 * digits_val ds + digit_val c"
  by (simp add: digits_val_def)

lemma digit_val_char: "d < 10 \<Longrightarrow> digit_val (char_of (48 + d :: nat)) = int d"
proof -
  assume d: "d < 10"
  have "(of_char (char_of (48 + d)) :: int) = int (of_char (char_of (48 + d)))"
    by (simp only: of_nat_of_char)
  with d show ?thesis by (simp add: digit_val_def)
qed

lemma digits_val_show_nat: "digits_val (show_nat n) = int n"
proof (induction n rule: show_nat.induct)
  case (1 n)
  show ?case
  proof (cases "n < 10")
    case True
    then show ?thesis by (subst show_nat.simps) (simp add: digits_val_def digit_val_char)
  next
    case False
    with 1 have "digits_val (show_nat n) = 10 * int (n div 10) + int (n mod 10)"
      by (subst show_nat.simps) (simp add: digits_val_append digit_val_char)
    then show ?thesis by (metis mult_div_mod_eq of_nat_add of_nat_mult of_nat_numeral)
  qed
qed

lemma is_digit_not_space: "is_digit c \<Longrightarrow> \<not> c_isspace c \<and> c \<noteq> CHR ''-'' \<and> c \<noteq> CHR ''+'' \<and> c \<noteq> LF"
  by (auto simp: is_digit_def c_isspace_def)

lemma skip_ws_show_nat: "skip_ws (show_nat n @ t) = show_nat n @ t"
proof -
  obtain d ds where "show_nat n = d # ds" using show_nat_nonempty [of n] by (cases "show_nat n") auto
  moreover from this have "\<not> c_isspace d" using show_nat_digits [of n] is_digit_not_space by simp
  ultimately show ?thesis by simp
qed

lemma scan_int_show_nat:
  assumes "skip_ws s = show_nat n @ c # t" "\<not> is_digit c"
  shows "scan_int s = (Some (int n), c # t)"
proof -
  obtain d ds where d: "show_nat n = d # ds" using show_nat_nonempty [of n] by (cases "show_nat n") auto
  then have "is_digit d" using show_nat_digits [of n] by simp
  note nd = is_digit_not_space [OF this]
  have "takeWhile is_digit (show_nat n @ c # t) = show_nat n"
    using show_nat_digits assms(2) by (intro takeWhile_wordy_append) auto
  then show ?thesis
    using assms(1) nd digits_val_show_nat [of n] by (simp add: scan_int_def Let_def d)
qed

lemma read_number_typed:
  assumes "skip_ws s = show_nat n @ LF # t" "n < 2 ^ 31"
  shows "read_number s = Val (int n, LF # t)"
proof -
  have "scan_int s = (Some (int n), LF # t)"
    using assms(1) by (intro scan_int_show_nat) (simp_all add: is_digit_def)
  moreover have "int n < 2 ^ 31" using assms(2) by simp
  ultimately show ?thesis by (subst read_number.simps) (simp add: as_int_def)
qed

section \<open>The input gets shorter\<close>

lemma read_until_shrinks: "read_until n ok s = Val (w, t) \<Longrightarrow> length t \<le> length s"
proof (induction n ok s rule: read_until.induct)
  case (1 n ok s)
  obtain r u where scan: "scan_word n s = Val (r, u)"
    using "1.prems" by (subst (asm) read_until.simps) (auto simp: bind_out_Val_iff)
  note le = scan_word_shrinks [OF scan]
  show ?case
  proof (cases "\<exists>v. r = Some v \<and> ok v")
    case True
    with "1.prems" scan le show ?thesis by (subst (asm) read_until.simps) auto
  next
    case False
    then have "bind_out (myflush u) (read_until n ok) = Val (w, t)"
      using "1.prems" scan by (subst (asm) read_until.simps) (auto split: option.splits if_splits)
    then obtain u' where u': "myflush u = Val u'" "read_until n ok u' = Val (w, t)"
      by (auto simp: bind_out_Val_iff)
    have "length t \<le> length u'"
      using "1.IH"(1) [OF scan refl _ u'] "1.IH"(2) [OF scan refl _ _ u'] False by (cases r) auto
    with le myflush_shrinks [OF u'(1)] show ?thesis by simp
  qed
qed

lemma read_name_again_shrinks: "read_name_again r s = Val (w, t) \<Longrightarrow> length t \<le> length s"
proof (induction r s rule: read_name_again.induct)
  case (1 r s)
  show ?case
  proof (cases "\<exists>v. r = Some v \<and> length v \<le> 19")
    case True
    with "1.prems" show ?thesis by (subst (asm) read_name_again.simps) (auto split: if_splits)
  next
    case False
    then have "read_name_again r s = bind_out (myflush s) (\<lambda>s. bind_out (scan_word 20 s) (\<lambda>(w, t). read_name_again w t))"
      by (subst read_name_again.simps) (auto split: option.split)
    with "1.prems"(1) obtain u r' u' where
      u: "myflush s = Val u" "scan_word 20 u = Val (r', u')" "read_name_again r' u' = Val (w, t)"
      by (auto simp: bind_out_Val_iff)
    have "length t \<le> length u'"
      using "1.IH"(1) [OF _ u(1,2) refl u(3)] "1.IH"(2) [OF _ _ u(1,2) refl u(3)] False by (cases r) auto
    then show ?thesis using myflush_shrinks [OF u(1)] scan_word_shrinks [OF u(2)] by simp
  qed
qed

lemma read_name_shrinks: "read_name s = Val (w, t) \<Longrightarrow> length t \<le> length s"
  by (auto simp: read_name_def bind_out_Val_iff
      dest!: scan_word_shrinks myflush_shrinks read_name_again_shrinks)

section \<open>Whatever is typed\<close>

text \<open>
  What an answer looks like that was accepted: from input without NUL bytes it is a word, and
  the input has become shorter by at least its length.
\<close>

lemma skip_ws_set: "set (skip_ws s) \<subseteq> set s"
  by (auto simp: skip_ws_def dest: set_dropWhileD)

lemma myflush_set: "myflush s = Val t \<Longrightarrow> set t \<subseteq> set s"
  by (induction s rule: myflush.induct) (auto split: if_splits)

lemma scan_int_set: "scan_int s = (r, t) \<Longrightarrow> set t \<subseteq> set s"
proof -
  assume r: "scan_int s = (r, t)"
  let ?t = "skip_ws s"
  let ?u = "if ?t \<noteq> [] \<and> hd ?t \<in> {CHR ''-'', CHR ''+''} then tl ?t else ?t"
  have "set ?u \<subseteq> set s" using skip_ws_set [of s] by (auto dest: list.set_sel(2) split: if_splits)
  moreover have "\<exists>k. t = drop k ?u"
    using r by (auto simp: scan_int_def Let_def split: if_splits intro: exI [of _ 0])
  ultimately show ?thesis by (meson in_set_dropD subset_code(1) subset_iff)
qed

lemma read_number_rest: "read_number s = Val (n, t) \<Longrightarrow> length t < length s \<and> set t \<subseteq> set s"
proof (induction s rule: read_number.induct)
  case (1 s)
  obtain r u where u: "scan_int s = (r, u)" by fastforce
  note facts = scan_int_shrinks [OF u] scan_int_set [OF u]
  show ?case
  proof (cases r)
    case None
    with "1.prems" u have "length u < length s" "read_number u = Val (n, t)"
      by (subst (asm) read_number.simps, simp split: if_splits)+
    with "1.IH" [OF u [symmetric] None] facts show ?thesis by auto
  next
    case (Some v)
    with "1.prems" u have "t = u" by (subst (asm) read_number.simps) (auto simp: bind_out_Val_iff)
    with facts Some show ?thesis by simp
  qed
qed

lemma read_choice_rest: "read_choice n s = Val (c, t) \<Longrightarrow> 1 \<le> c \<and> c \<le> n \<and> length t < length s \<and> set t \<subseteq> set s"
proof (induction n s rule: read_choice.induct)
  case (1 n s)
  obtain r u where u: "scan_int s = (r, u)" by fastforce
  note facts = scan_int_shrinks [OF u] scan_int_set [OF u]
  show ?case
  proof (cases r)
    case None
    with "1.prems" u obtain u' where u': "myflush u = Val u'" "read_choice n u' = Val (c, t)"
      by (subst (asm) read_choice.simps) (auto simp: bind_out_Val_iff)
    from "1.IH"(1) [OF u [symmetric] None u'] myflush_shrinks [OF u'(1)] myflush_set [OF u'(1)] facts
    show ?thesis by auto
  next
    case (Some v)
    with "1.prems" u obtain sel where sel: "as_int v = Val sel"
      "if sel < 1 \<or> n < sel then read_choice n u = Val (c, t) else c = sel \<and> t = u"
      by (subst (asm) read_choice.simps) (auto simp: bind_out_Val_iff split: if_splits)
    with "1.IH"(2) [OF u [symmetric] Some sel(1)] facts Some show ?thesis by (auto split: if_splits)
  qed
qed

lemma getch_set: "set (getch ahead s) \<subseteq> set s"
proof -
  have "set (drop k u) \<subseteq> set u" for k and u :: string by (rule set_drop_subset)
  then show ?thesis
    by (cases "drop (ahead s) s") (auto simp: getch_def dest!: in_set_dropD, metis in_set_dropD list.set_intros(2))
qed

end
