(* ===== verification/Schedule_Menu.thy ===== *)
theory Schedule_Menu
  imports Schedule_File Terminal
begin

text \<open>
  The interactive part of \<open>studysys/schedule.c\<close>: registering, changing, deleting and
  showing entries, and the menu that leads there. Each function takes the schedule file
  (\<open>None\<close>: there is none) and the input that is left, and gives them back.

  What the functions do not control is in \<open>env\<close>: whether \<open>fopen\<close> succeeds, what the terminal
  discards, and the old contents of the array of 10000 entries on the stack. All three may
  depend on the input left, so that every call may find something else.
\<close>

record env =
  can_open :: "string \<Rightarrow> string \<Rightarrow> bool"
  ahead :: "string \<Rightarrow> nat"
  stack :: "string \<Rightarrow> schedule list"

text \<open>The end of most functions: flush the line, wait for a key.\<close>

definition wait_key :: "env \<Rightarrow> string \<Rightarrow> string outcome" where
  "wait_key v s = bind_out (myflush s) (\<lambda>s. Val (getch (ahead v) s))"

definition ask_date :: "string \<Rightarrow> (string \<times> string) outcome" where
  "ask_date s = read_until DATA_MAX (\<lambda>w. length w = 6) s"

definition ask_time :: "string \<Rightarrow> (string \<times> string) outcome" where
  "ask_time s = read_until TIME_STR_MAX (\<lambda>w. length w = 4) s"

section \<open>Registering\<close>

text \<open>The loop over the subjects, \<open>k\<close> still to come; the lines go to the end of the file.\<close>

fun ask_subjects :: "nat \<Rightarrow> string \<Rightarrow> string \<Rightarrow> string \<Rightarrow> (string \<times> string) outcome" where
  "ask_subjects 0 d s out = Val (out, s)"
| "ask_subjects (Suc k) d s out =
     bind_out (read_name s) (\<lambda>(nm, s).
     bind_out (ask_time s) (\<lambda>(t, s).
     ask_subjects k d s (out @ pad_left 6 d @ '' '' @ (nm @ '' '' @ pad_left 4 t) @ [LF])))"

text \<open>Printing from the start of a file opened with \<open>"r+"\<close> leaves what is longer in place.\<close>

definition overwrite :: "string \<Rightarrow> string \<Rightarrow> string" where
  "overwrite old new = new @ drop (length new) old"

definition register_sched ::
  "env \<Rightarrow> string option \<Rightarrow> string \<Rightarrow> (int \<times> string option \<times> string) outcome"
where
  "register_sched v file s =
     bind_out (ask_date s) (\<lambda>(d, s).
     bind_out (read_number s) (\<lambda>(num_sub, s).
     if \<not> can_open v ''a'' s then Aborts
     else
       bind_out (ask_subjects (nat num_sub) d s []) (\<lambda>(out, s).
       let old = (case file of None \<Rightarrow> [] | Some c \<Rightarrow> c) @ out in
       if \<not> can_open v ''r+'' s then Undefined NullPointer
       else
         bind_out (txt_read_loop 0 (stack v s) old) (\<lambda>(cnt, a).
         bind_out (re_align a cnt) (\<lambda>a.
         bind_out (write_loop 0 cnt a []) (\<lambda>new.
         Val (1, Some (overwrite old new), s)))))))"

section \<open>Showing\<close>

text \<open>The rows of the tables: the date is printed once for a run of entries.\<close>

fun shown :: "string \<Rightarrow> schedule list \<Rightarrow> string" where
  "shown tmp_date [] = []"
| "shown tmp_date (e # es) =
     (if strcmp tmp_date (date e) \<noteq> 0
      then [LF] @ pad_left 10 (date e) @ ''|'' @ pad_left 10 (name_sub e) @ ''|'' @
           pad_left 10 (time e) @ [LF] @ shown (date e) es
      else replicate 11 (CHR '' '') @ pad_left 10 (name_sub e) @ ''|'' @ pad_left 10 (time e) @ [LF] @
           shown tmp_date es)"

definition check_sched :: "env \<Rightarrow> string option \<Rightarrow> string \<Rightarrow> (string \<times> string) outcome" where
  "check_sched v file s =
     (case file of
        None \<Rightarrow> Undefined NullPointer
      | Some c \<Rightarrow>
          bind_out (txt_read_loop 0 (stack v s) c) (\<lambda>(cnt, a).
          bind_out (re_align a cnt) (\<lambda>a.
          bind_out (wait_key v s) (\<lambda>s.
          Val (shown ''000000'' (take (nat cnt) a), s)))))"

definition check_sched_date :: "env \<Rightarrow> string option \<Rightarrow> string \<Rightarrow> (string \<times> string) outcome" where
  "check_sched_date v file s =
     bind_out (txt_read file (stack v s)) (\<lambda>(cnt, a).
     bind_out (re_align a cnt) (\<lambda>a.
     bind_out (ask_date s) (\<lambda>(find_date, s).
     bind_out (wait_key v s) (\<lambda>s.
     Val (shown ''000000'' (filter (\<lambda>e. strcmp find_date (date e) = 0) (take (nat cnt) a)), s)))))"

text \<open>
  What a table should be, independently of the loop: one row for every entry, with the date in
  it if the entry before has another date (\<open>000000\<close> before the first).
\<close>

definition table_row :: "string \<Rightarrow> schedule \<Rightarrow> string" where
  "table_row prev e =
     (if date e = prev then replicate 11 (CHR '' '') @ pad_left 10 (name_sub e) @ ''|'' @ pad_left 10 (time e) @ [LF]
      else [LF] @ pad_left 10 (date e) @ ''|'' @ pad_left 10 (name_sub e) @ ''|'' @ pad_left 10 (time e) @ [LF])"

definition table_rows :: "schedule list \<Rightarrow> string" where
  "table_rows xs = concat (map2 table_row (''000000'' # map date xs) xs)"

lemma shown_rows: "shown d xs = concat (map2 table_row (d # map date xs) xs)"
  by (induction d xs rule: shown.induct) (auto simp: table_row_def strcmp_eq_0)

section \<open>Deleting\<close>

function shift_down :: "int \<Rightarrow> int \<Rightarrow> schedule list \<Rightarrow> schedule list outcome" where
  "shift_down j cnt a =
     (if j < cnt then
        bind_out (array_get a (j + 1)) (\<lambda>e.
        bind_out (array_put a j e) (\<lambda>a.
        shift_down (j + 1) cnt a))
      else Val a)"
  by pat_completeness auto
termination
  by (relation "measure (\<lambda>(j, cnt, a). nat (cnt - j))") auto

declare shift_down.simps [simp del]

text \<open>
  The search: \<open>Val (Some (cnt, a))\<close> when an entry was removed or the loop ran to its end,
  \<open>Val None\<close> when the function returns because the first entry of the date has another name.
\<close>

function delete_loop ::
  "int \<Rightarrow> int \<Rightarrow> string \<Rightarrow> string \<Rightarrow> schedule list \<Rightarrow> (int \<times> schedule list) option outcome"
where
  "delete_loop i cnt d nm a =
     (if i < cnt then
        bind_out (array_get a i) (\<lambda>e.
        if strcmp d (date e) = 0 then
          (if strcmp nm (name_sub e) = 0
           then bind_out (shift_down i cnt a) (\<lambda>a. Val (Some (cnt - 1, a)))
           else Val None)
        else delete_loop (i + 1) cnt d nm a)
      else Val (Some (cnt, a)))"
  by pat_completeness auto
termination
  by (relation "measure (\<lambda>(i, cnt, d, nm, a). nat (cnt - i))") auto

declare delete_loop.simps [simp del]

definition delete_sched :: "env \<Rightarrow> string option \<Rightarrow> string \<Rightarrow> (string option \<times> string) outcome" where
  "delete_sched v file s =
     bind_out (txt_read file (replicate 10000 no_entry)) (\<lambda>(cnt, a).
     bind_out (re_align a cnt) (\<lambda>a.
     bind_out (ask_date s) (\<lambda>(d, s).
     if filter (\<lambda>e. strcmp d (date e) = 0) (take (nat cnt) a) = []
     then bind_out (wait_key v s) (\<lambda>s. Val (file, s))
     else
       bind_out (read_until SUBJECT_NAME_MAX (\<lambda>w. True) s) (\<lambda>(nm, s).
       bind_out (delete_loop 0 cnt d nm a) (\<lambda>found.
       case found of
         None \<Rightarrow> Val (file, s)
       | Some (cnt, a) \<Rightarrow>
           bind_out (re_align a cnt) (\<lambda>a.
           bind_out (txt_write (can_open v ''w'' s) a cnt) (\<lambda>(res, new).
           bind_out (wait_key v s) (\<lambda>s.
           Val (Some new, s)))))))))"

section \<open>Changing\<close>

text \<open>The last entry with the date and the name, if any: \<open>change\<close> starts uninitialised.\<close>

function find_change ::
  "int \<Rightarrow> int \<Rightarrow> string \<Rightarrow> string \<Rightarrow> schedule list \<Rightarrow> int option \<Rightarrow> int option outcome"
where
  "find_change i cnt d nm a change =
     (if i < cnt then
        bind_out (array_get a i) (\<lambda>e.
        find_change (i + 1) cnt d nm a
          (if strcmp d (date e) = 0 \<and> strcmp nm (name_sub e) = 0 then Some i else change))
      else Val change)"
  by pat_completeness auto
termination
  by (relation "measure (\<lambda>(i, cnt, d, nm, a, change). nat (cnt - i))") auto

declare find_change.simps [simp del]

function change_loop ::
  "int \<Rightarrow> int \<Rightarrow> int option \<Rightarrow> schedule list \<Rightarrow> string \<Rightarrow> string \<Rightarrow> (string \<times> string) outcome"
where
  "change_loop i cnt change a out s =
     (if i < cnt then
        bind_out (array_get a i) (\<lambda>e.
        case change of
          None \<Rightarrow> Undefined Unset
        | Some k \<Rightarrow>
            if i \<noteq> k then change_loop (i + 1) cnt change a (out @ entry_line e) s
            else
              bind_out (read_name s) (\<lambda>(nm, s).
              bind_out (ask_time s) (\<lambda>(t, s).
              change_loop (i + 1) cnt change a
                (out @ entry_line (e\<lparr>name_sub := nm, time := t\<rparr>)) s)))
      else Val (out, s))"
  by pat_completeness auto
termination
  by (relation "measure (\<lambda>(i, cnt, change, a, out, s). nat (cnt - i))") auto

declare change_loop.simps [simp del]

text \<open>
  The first part of the function, up to \<open>fopen\<close> with \<open>"w"\<close>: the file is empty from then on. In
  the result \<open>None\<close> is a file without entries, for which the function returns.
\<close>

definition change_pick ::
  "env \<Rightarrow> string option \<Rightarrow> string \<Rightarrow>
   ((int option \<times> int \<times> schedule list) option \<times> string option \<times> string) outcome"
where
  "change_pick v file s =
     bind_out (txt_read file (stack v s)) (\<lambda>(cnt, a).
     bind_out (re_align a cnt) (\<lambda>a.
     bind_out (ask_date s) (\<lambda>(d, s).
     if cnt = 0 then bind_out (wait_key v s) (\<lambda>s. Val (None, file, s))
     else
       bind_out (read_until SUBJECT_NAME_MAX (\<lambda>w. True) s) (\<lambda>(nm, s).
       bind_out (find_change 0 cnt d nm a None) (\<lambda>change.
       if \<not> can_open v ''w'' s then Undefined NullPointer
       else Val (Some (change, cnt, a), Some [], s))))))"

definition change_sched :: "env \<Rightarrow> string option \<Rightarrow> string \<Rightarrow> (string option \<times> string) outcome" where
  "change_sched v file s =
     bind_out (change_pick v file s) (\<lambda>(found, file, s).
     case found of
       None \<Rightarrow> Val (file, s)
     | Some (change, cnt, a) \<Rightarrow>
         bind_out (change_loop 0 cnt change a [] s) (\<lambda>(out, s).
         bind_out (wait_key v s) (\<lambda>s. Val (map_option (\<lambda>c. c @ out) file, s))))"

section \<open>Registering: lemmas\<close>

text \<open>What is left on the stack has room, and does not continue the last date.\<close>

definition roomy :: "schedule list \<Rightarrow> schedule list \<Rightarrow> bool" where
  "roomy mem xs \<longleftrightarrow> length xs < length mem \<and> (\<forall>x \<in> set xs. date x \<noteq> date (mem ! length xs))"

lemma read_align:
  assumes "\<forall>e \<in> set es. sched_ok e" "roomy mem es"
  shows "txt_read_loop 0 mem (concat (map entry_line es)) =
      Val (int (length es), es @ drop (length es) mem)"
    and "txt_read (Some (concat (map entry_line es))) mem =
      Val (int (length es), es @ drop (length es) mem)"
    and "re_align (es @ drop (length es) mem) (int (length es)) =
      Val (align_list es @ drop (length es) mem)"
proof -
  have drop: "drop (length es) mem = mem ! length es # drop (Suc (length es)) mem"
    using assms(2) by (simp add: roomy_def Cons_nth_drop_Suc)
  show "txt_read_loop 0 mem (concat (map entry_line es)) =
      Val (int (length es), es @ drop (length es) mem)"
    using txt_read_loop_lines [OF assms(1), of 0 mem "concat (map entry_line es)"] assms(2)
    by (simp add: roomy_def)
  then show "txt_read (Some (concat (map entry_line es))) mem =
      Val (int (length es), es @ drop (length es) mem)" by (simp add: txt_read_def)
  have "\<forall>x \<in> set es. date x \<noteq> date (mem ! length es)" using assms(2) by (simp add: roomy_def)
  then show "re_align (es @ drop (length es) mem) (int (length es)) =
      Val (align_list es @ drop (length es) mem)"
    unfolding drop by (rule re_align_list)
qed

text \<open>A subject as it is typed, and the entry it makes.\<close>

definition sub_ok :: "string \<times> string \<Rightarrow> bool" where
  "sub_ok p \<longleftrightarrow> typed (fst p) \<and> length (fst p) < 20 \<and> typed (snd p) \<and> length (snd p) = 4"

definition sub_lines :: "string \<times> string \<Rightarrow> string" where
  "sub_lines p = fst p @ [LF] @ snd p @ [LF]"

definition sub_entry :: "string \<Rightarrow> string \<times> string \<Rightarrow> schedule" where
  "sub_entry d p = \<lparr>date = d, name_sub = fst p, time = snd p\<rparr>"

lemma sub_entry_ok: "typed d \<Longrightarrow> length d = 6 \<Longrightarrow> sub_ok p \<Longrightarrow> sched_ok (sub_entry d p)"
  by (auto simp: sub_entry_def sub_ok_def sched_ok_def typed_def SUBJECT_NAME_MAX_def)

lemma ask_date_typed:
  "typed d \<Longrightarrow> length d = 6 \<Longrightarrow> skip_ws s = d @ LF # t \<Longrightarrow> ask_date s = Val (d, LF # t)"
  by (simp add: ask_date_def read_until_typed DATA_MAX_def)

lemma ask_time_typed:
  "typed w \<Longrightarrow> length w = 4 \<Longrightarrow> skip_ws s = w @ LF # t \<Longrightarrow> ask_time s = Val (w, LF # t)"
  by (simp add: ask_time_def read_until_typed TIME_STR_MAX_def)

lemma ask_subjects_typed:
  "\<forall>p \<in> set subs. sub_ok p \<Longrightarrow> skip_ws s = skip_ws (concat (map sub_lines subs) @ rest) \<Longrightarrow>
   \<exists>s'. ask_subjects (length subs) d s out =
      Val (out @ concat (map entry_line (map (sub_entry d) subs)), s') \<and> skip_ws s' = skip_ws rest"
proof (induction subs arbitrary: s out)
  case (Cons p subs)
  obtain nm t where p: "p = (nm, t)" by fastforce
  let ?rest = "concat (map sub_lines subs) @ rest"
  have ok: "typed nm" "length nm < 20" "typed t" "length t = 4"
    using Cons.prems(1) by (auto simp: p sub_ok_def)
  have "skip_ws s = nm @ LF # t @ LF # ?rest"
    using Cons.prems(2) ok(1) skip_ws_typed [of nm "LF # t @ LF # ?rest"]
    by (simp add: p sub_lines_def [of "(nm, t)"])
  from read_name_typed [OF ok(1,2) this] have 1: "read_name s = Val (nm, t @ LF # ?rest)" .
  from ok(3,4) have 2: "ask_time (t @ LF # ?rest) = Val (t, LF # ?rest)"
    by (intro ask_time_typed) (simp_all add: skip_ws_typed)
  from Cons.IH [of "LF # ?rest" "out @ entry_line (sub_entry d p)"] Cons.prems(1)
  obtain s' where "ask_subjects (length subs) d (LF # ?rest) (out @ entry_line (sub_entry d p)) =
      Val (out @ entry_line (sub_entry d p) @ concat (map entry_line (map (sub_entry d) subs)), s')"
    "skip_ws s' = skip_ws rest" by auto
  moreover have "entry_line (sub_entry d p) = pad_left 6 d @ '' '' @ (nm @ '' '' @ pad_left 4 t) @ [LF]"
    by (simp add: p entry_line_def sub_entry_def)
  ultimately show ?case using 1 2 by (simp add: p)
qed simp

lemma length_lines_mset:
  assumes "mset xs = mset ys"
  shows "length (concat (map f xs)) = length (concat (map f ys))"
proof -
  have "sum_list (map (\<lambda>x. length (f x)) xs) = sum_mset (image_mset (\<lambda>x. length (f x)) (mset xs))"
    for xs :: "'a list" by (metis mset_map sum_mset_sum_list)
  with assms show ?thesis by (simp add: length_concat comp_def)
qed

lemma write_aligned:
  "write_loop 0 (int (length es)) (align_list es @ mem) [] = Val (concat (map entry_line (align_list es)))"
  using write_loop_lines [of 0 "length es" "align_list es @ mem" "[]"] by simp

lemma register_sched_run:
  assumes d: "typed d" "length d = 6" and subs: "\<forall>p \<in> set subs. sub_ok p" "length subs < 2 ^ 31"
    and s: "s = d @ [LF] @ show_nat (length subs) @ [LF] @ concat (map sub_lines subs) @ rest"
    and es: "\<forall>e \<in> set es. sched_ok e" "file = Some (concat (map entry_line es)) \<or> file = None \<and> es = []"
    and v: "\<forall>t. can_open v ''a'' t \<and> can_open v ''r+'' t"
      "\<forall>t. roomy (stack v t) (es @ map (sub_entry d) subs)"
  shows "\<exists>xs s'. register_sched v file s = Val (1, Some (concat (map entry_line xs)), s') \<and>
    mset xs = mset es + mset (map (sub_entry d) subs) \<and> sorted (map sched_key xs) \<and>
    skip_ws s' = skip_ws rest"
proof -
  let ?lines = "concat (map sub_lines subs) @ rest" and ?all = "es @ map (sub_entry d) subs"
  have 1: "ask_date s = Val (d, LF # show_nat (length subs) @ LF # ?lines)"
    using d by (intro ask_date_typed) (simp_all add: s skip_ws_typed)
  have 2: "read_number (LF # show_nat (length subs) @ LF # ?lines) = Val (int (length subs), LF # ?lines)"
    using subs(2) by (intro read_number_typed) (simp_all add: skip_ws_show_nat)
  obtain s' where 3: "ask_subjects (length subs) d (LF # ?lines) [] =
      Val (concat (map entry_line (map (sub_entry d) subs)), s')" "skip_ws s' = skip_ws rest"
    using ask_subjects_typed [OF subs(1), of "LF # ?lines" rest d "[]"] by auto
  have old: "(case file of None \<Rightarrow> [] | Some c \<Rightarrow> c) @ concat (map entry_line (map (sub_entry d) subs)) =
      concat (map entry_line ?all)" using es(2) by auto
  have all_ok: "\<forall>e \<in> set ?all. sched_ok e" using es(1) subs(1) d sub_entry_ok by auto
  have room: "roomy (stack v s') ?all" using v(2) by blast
  have "overwrite (concat (map entry_line ?all)) (concat (map entry_line (align_list ?all))) =
      concat (map entry_line (align_list ?all))"
    using length_lines_mset [of "align_list ?all" ?all entry_line] by (simp add: overwrite_def)
  then have "register_sched v file s = Val (1, Some (concat (map entry_line (align_list ?all))), s')"
    using 1 2 3(1) v(1) read_align(1,3) [OF all_ok room] write_aligned [of ?all]
    by (simp add: register_sched_def Let_def old del: map_append append_assoc map_map length_append)
  then show ?thesis using 3(2) align_list_sorted [of ?all] by (intro exI [of _ "align_list ?all"]) simp
qed

section \<open>Properties\<close>

text \<open>
  C13: registering. Given a date, a number of subjects and that many names and times on the
  terminal, and a schedule file of well-formed entries (or none), \<open>register_sched\<close> succeeds
  and leaves a file with one line for each old and each new entry, in the order of date and
  time. It reads no more of the input than it was given.
\<close>

theorem register_sched_sorted:
  assumes d: "typed d" "length d = 6" and subs: "\<forall>p \<in> set subs. sub_ok p" "length subs < 2 ^ 31"
    and s: "s = d @ [LF] @ show_nat (length subs) @ [LF] @ concat (map sub_lines subs) @ rest"
    and es: "\<forall>e \<in> set es. sched_ok e" "file = Some (concat (map entry_line es)) \<or> file = None \<and> es = []"
    and v: "\<forall>t. can_open v ''a'' t \<and> can_open v ''r+'' t"
      "\<forall>t. roomy (stack v t) (es @ map (sub_entry d) subs)"
  shows "\<exists>xs s'. register_sched v file s = Val (1, Some (concat (map entry_line xs)), s') \<and>
    mset xs = mset es + mset (map (sub_entry d) subs) \<and> sorted (map sched_key xs) \<and>
    skip_ws s' = skip_ws rest"
  by (rule register_sched_run [OF assms])

text \<open>An environment in which every \<open>fopen\<close> succeeds and the stack holds zeroes.\<close>

definition calm :: env where
  "calm = \<lparr>can_open = \<lambda>m s. True, ahead = \<lambda>s. 0, stack = \<lambda>s. replicate 10000 no_entry\<rparr>"

lemma calm_simps [simp]:
  "can_open calm m s" "ahead calm s = 0" "stack calm s = replicate 10000 no_entry"
  by (simp_all add: calm_def)

lemma roomy_blank: "\<forall>x \<in> set xs. date x \<noteq> [] \<Longrightarrow> length xs < 10000 \<Longrightarrow> roomy (replicate 10000 no_entry) xs"
  by (simp add: roomy_def no_entry_def)

theorem register_sched_sorted_witness:
  "\<exists>xs s'. register_sched calm (Some (''170606 Korean 1819'' @ [LF]))
      (''170313'' @ [LF] @ ''1'' @ [LF] @ ''Science'' @ [LF] @ ''1500'' @ [LF]) =
      Val (1, Some (concat (map entry_line xs)), s') \<and>
    mset xs = {#\<lparr>date = ''170606'', name_sub = ''Korean'', time = ''1819''\<rparr>,
                \<lparr>date = ''170313'', name_sub = ''Science'', time = ''1500''\<rparr>#} \<and>
    sorted (map sched_key xs)"
proof -
  let ?e = "\<lparr>date = ''170606'', name_sub = ''Korean'', time = ''1819''\<rparr>"
  let ?p = "(''Science'', ''1500'')"
  have "sched_ok ?e" by (simp add: sched_ok_def c_isspace_def SUBJECT_NAME_MAX_def)
  moreover have "sub_ok ?p" "typed ''170313''" by (simp_all add: sub_ok_def typed_def c_isspace_def)
  moreover have "show_nat 1 = ''1''" by code_simp
  moreover have "roomy (stack calm t) ([?e] @ map (sub_entry ''170313'') [?p])" for t
    by (simp add: roomy_blank sub_entry_def)
  ultimately show ?thesis
    using register_sched_sorted [of "''170313''" "[?p]"
        "''170313'' @ [LF] @ ''1'' @ [LF] @ ''Science'' @ [LF] @ ''1500'' @ [LF]" "[]" "[?e]"
        "Some (''170606 Korean 1819'' @ [LF])" calm]
    by (auto simp: sub_lines_def sub_entry_def entry_line_def pad_left_def)
qed

text \<open>
  C14: the two tables. On a file of well-formed entries both screens come back without leaving
  the array: one prints a row for each of the entries, sorted by date and time, the other for
  each of those of the date typed, in the same order; a row carries the date when the row
  before has another. (The array on the stack has room and does not continue the last date.)
\<close>

theorem schedule_shown:
  assumes "\<forall>e \<in> set es. sched_ok e" "file = Some (concat (map entry_line es))"
    and "roomy (stack v s) es" "wait_key v s = Val t"
    and "roomy (stack v s') es" "ask_date s' = Val (d, u)" "wait_key v u = Val t'"
  shows "\<exists>xs. mset xs = mset es \<and> sorted (map sched_key xs) \<and>
    check_sched v file s = Val (table_rows xs, t) \<and>
    check_sched_date v file s' = Val (table_rows (filter (\<lambda>e. date e = d) xs), t')"
proof -
  have "check_sched v file s = Val (table_rows (align_list es), t)"
    using read_align(1,3) [OF assms(1,3)] assms(2,4) by (simp add: check_sched_def shown_rows table_rows_def)
  moreover have "check_sched_date v file s' = Val (table_rows (filter (\<lambda>e. date e = d) (align_list es)), t')"
    using read_align(2,3) [OF assms(1,5)] assms(2,6,7)
    by (simp add: check_sched_date_def strcmp_eq_0 eq_commute [of d] shown_rows table_rows_def)
  ultimately show ?thesis using align_list_sorted [of es] align_list_mset [of es] by blast
qed

text \<open>Two subjects on one day, written out of order.\<close>

definition korean :: schedule where
  "korean = \<lparr>date = ''170606'', name_sub = ''Korean'', time = ''1819''\<rparr>"

definition music :: schedule where
  "music = \<lparr>date = ''170606'', name_sub = ''Music'', time = ''1816''\<rparr>"

lemma two_subjects:
  "sched_ok korean" "sched_ok music" "align_list [korean, music] = [music, korean]"
proof -
  show "sched_ok korean" "sched_ok music"
    by (simp_all add: korean_def music_def sched_ok_def c_isspace_def SUBJECT_NAME_MAX_def)
  show "align_list [korean, music] = [music, korean]" by code_simp
qed

lemma two_sorted:
  assumes "mset xs = mset [korean, music]" "sorted (map sched_key xs)"
  shows "xs = [music, korean]"
proof -
  from assms(1) have "length xs = 2" by (metis length_Cons list.size(3) numeral_2_eq_2 size_mset)
  then obtain p q where "xs = [p, q]" by (auto simp: numeral_2_eq_2 length_Suc_conv)
  with assms(1) have "xs \<in> {[korean, music], [music, korean]}" by (auto simp: add_eq_conv_ex)
  moreover have "\<not> sched_key korean \<le> sched_key music" by code_simp
  ultimately show ?thesis using assms(2) by auto
qed

theorem schedule_shown_witness:
  "check_sched calm (Some (entry_line korean @ entry_line music)) [LF] =
     Val ([LF] @ ''    170606|     Music|      1816'' @ [LF] @ ''               Korean|      1819'' @ [LF], [])"
proof -
  have ok: "\<forall>e \<in> set [korean, music]. sched_ok e" by (simp add: two_subjects)
  have room: "roomy (stack calm s) [korean, music]" for s by (simp add: roomy_blank korean_def music_def)
  have key: "wait_key calm [LF] = Val []" by code_simp
  have ask: "ask_date (''170606'' @ [LF]) = Val (''170606'', [LF])" by code_simp
  from schedule_shown [OF ok refl room key room ask key] obtain xs where
    xs: "mset xs = mset [korean, music]" "sorted (map sched_key xs)"
      "check_sched calm (Some (concat (map entry_line [korean, music]))) [LF] = Val (table_rows xs, [])" by blast
  have "table_rows [music, korean] =
      [LF] @ ''    170606|     Music|      1816'' @ [LF] @ ''               Korean|      1819'' @ [LF]" by code_simp
  with xs(3) two_sorted [OF xs(1,2)] show ?thesis by simp
qed

section \<open>Deleting and changing: lemmas\<close>

lemma shift_down_removes:
  "j \<le> n \<Longrightarrow> n < length a \<Longrightarrow>
   shift_down (int j) (int n) a = Val (take j a @ take (n - j) (drop (Suc j) a) @ drop n a)"
proof (induction "n - j" arbitrary: j a)
  case 0
  then show ?case by (subst shift_down.simps) simp
next
  case (Suc k)
  then have j: "j < n" "k = n - Suc j" "Suc j \<le> n" by simp_all
  have "shift_down (int j) (int n) a = shift_down (int (Suc j)) (int n) (a[j := a ! Suc j])"
    using j Suc.prems by (subst shift_down.simps) (simp add: int_plus_1 del: of_nat_Suc)
  also have "\<dots> = Val (take (Suc j) (a[j := a ! Suc j]) @ take (n - Suc j) (drop (Suc (Suc j)) (a[j := a ! Suc j])) @
      drop n (a[j := a ! Suc j]))"
    using Suc.hyps(1) [of "Suc j" "a[j := a ! Suc j]"] j Suc.prems by simp
  also have "take (Suc j) (a[j := a ! Suc j]) = take j a @ [a ! Suc j]"
    using j Suc.prems by (simp add: take_Suc_conv_app_nth)
  also have "drop (Suc (Suc j)) (a[j := a ! Suc j]) = drop (Suc (Suc j)) a" by simp
  also have "drop n (a[j := a ! Suc j]) = drop n a" using j by simp
  also have "take (n - j) (drop (Suc j) a) = a ! Suc j # take (n - Suc j) (drop (Suc (Suc j)) a)"
  proof -
    have "drop (Suc j) a = a ! Suc j # drop (Suc (Suc j)) a" using j Suc.prems by (simp add: Cons_nth_drop_Suc)
    moreover have "n - j = Suc (n - Suc j)" using j by simp
    ultimately show ?thesis by simp
  qed
  ultimately show ?case by simp
qed

lemma delete_loop_first:
  "\<forall>p \<in> set pre. date p \<noteq> d \<Longrightarrow> date e = d \<Longrightarrow>
   delete_loop (int (length done)) (int (length done + length pre + 1 + length post)) d nm
      (done @ pre @ e # post @ f # mem) =
     (if nm = name_sub e
      then Val (Some (int (length done + length pre + length post), done @ pre @ post @ f # f # mem))
      else Val None)"
proof (induction pre arbitrary: "done")
  case Nil
  let ?a = "done @ e # post @ f # mem"
  have "shift_down (int (length done)) (int (length done + 1 + length post)) ?a =
      Val (done @ post @ f # f # mem)"
    using shift_down_removes [of "length done" "length done + 1 + length post" ?a] by simp
  with Nil show ?case by (subst delete_loop.simps) (simp add: nth_append add.commute)
next
  case (Cons p pre)
  then have "d \<noteq> date p" by auto
  then have "delete_loop (int (length done)) (int (length done + length (p # pre) + 1 + length post)) d nm
      (done @ (p # pre) @ e # post @ f # mem) =
    delete_loop (int (length (done @ [p]))) (int (length (done @ [p]) + length pre + 1 + length post)) d nm
      ((done @ [p]) @ pre @ e # post @ f # mem)"
    by (subst delete_loop.simps) (simp add: nth_append add.commute)
  with Cons.IH [of "done @ [p]"] Cons.prems show ?case by simp
qed

lemma align_list_split:
  assumes "\<exists>x \<in> set es. date x = d"
  obtains pre e post where "align_list es = pre @ e # post" "\<forall>p \<in> set pre. date p \<noteq> d" "date e = d"
proof -
  have "\<exists>x \<in> set (align_list es). date x = d" using assms by simp
  from split_list_first_prop [OF this] show ?thesis using that by blast
qed

lemma filter_date_Nil:
  "filter (\<lambda>e. strcmp d (date e) = 0) (take (length es) (align_list es @ mem)) = [] \<longleftrightarrow>
     (\<forall>e \<in> set es. date e \<noteq> d)"
  by (auto simp: filter_empty_conv)

lemma wait_key_line: "wait_key v (LF # t) = Val (getch (ahead v) t)"
  by (simp add: wait_key_def)

lemma sched_ok_date: "sched_ok e \<Longrightarrow> date e \<noteq> []"
  by (simp add: sched_ok_def)

text \<open>A run of \<open>delete_sched\<close> up to the key it waits for.\<close>

lemma delete_sched_run:
  assumes es: "\<forall>e \<in> set es. sched_ok e" "length es < 10000"
    and v: "can_open v ''w'' u'"
    and asked: "ask_date s = Val (d, u)" "read_until SUBJECT_NAME_MAX (\<lambda>w. True) u = Val (nm, u')"
    and split: "align_list es = pre @ e # post" "\<forall>p \<in> set pre. date p \<noteq> d" "date e = d"
  shows "delete_sched v (Some (concat (map entry_line es))) s =
    (if nm = name_sub e
     then bind_out (wait_key v u') (\<lambda>s. Val (Some (concat (map entry_line (align_list (pre @ post)))), s))
     else Val (Some (concat (map entry_line es)), u'))"
proof -
  let ?mem = "replicate 10000 no_entry"
  let ?k = "9999 - length es"
  have room: "roomy ?mem es" using es sched_ok_date by (intro roomy_blank) auto
  have rep: "replicate (10000 - length es) no_entry = no_entry # replicate ?k no_entry"
    using es(2) by (simp flip: replicate_Suc)
  have len: "length es = length pre + 1 + length post"
    using arg_cong [OF split(1), of length] by simp
  have e: "e \<in> set es" using split(1) by (metis align_list_set in_set_conv_decomp)
  have 3: "delete_loop 0 (int (length es)) d nm (align_list es @ no_entry # replicate ?k no_entry) =
    (if nm = name_sub e
     then Val (Some (int (length pre + length post), (pre @ post) @ no_entry # no_entry # replicate ?k no_entry))
     else Val None)"
    using delete_loop_first [OF split(2,3), of "[]" post nm no_entry "replicate ?k no_entry"] len
    by (simp add: split(1))
  have "\<not> (\<forall>x \<in> set es. date x \<noteq> d)" using e split(3) by blast
  note run = read_align(2,3) [OF es(1) room] asked 3 filter_date_Nil [of d es, unfolded strcmp_eq_0] this
  have ok: "\<forall>x \<in> set (pre @ post). date x \<noteq> []"
    using es(1) split(1) sched_ok_date by (metis Un_iff align_list_set set_ConsD set_append list.set_intros(2))
  then have "re_align ((pre @ post) @ no_entry # no_entry # replicate ?k no_entry) (int (length (pre @ post))) =
      Val (align_list (pre @ post) @ no_entry # no_entry # replicate ?k no_entry)"
    by (intro re_align_list) (simp add: no_entry_def)
  moreover have "txt_write True (align_list (pre @ post) @ no_entry # no_entry # replicate ?k no_entry)
      (int (length (pre @ post))) = Val (1, concat (map entry_line (align_list (pre @ post))))"
    using txt_write_lines [of "length (pre @ post)"
        "align_list (pre @ post) @ no_entry # no_entry # replicate ?k no_entry"] by simp
  ultimately show ?thesis
    using run v by (auto simp: delete_sched_def rep)
qed

text \<open>
  C28: deleting only ever removes the first subject of a day. On a file of fewer than 10000
  well-formed entries, a date that has entries and a name are typed. If the earliest entry of
  the date has the name, the file afterwards holds all entries but that one, sorted; if it
  has any other name the function returns with the file as it was, also where a later entry
  of the date has the name.
\<close>

theorem delete_sched_first:
  assumes es: "\<forall>e \<in> set es. sched_ok e" "length es < 10000"
    and typed: "typed d" "length d = 6" "typed nm" "length nm < 20"
    and v: "\<forall>t. can_open v ''w'' t"
    and split: "align_list es = pre @ e # post" "\<forall>p \<in> set pre. date p \<noteq> d" "date e = d"
  shows "if nm = name_sub e
    then \<exists>xs. delete_sched v (Some (concat (map entry_line es))) (d @ [LF] @ nm @ [LF] @ rest) =
        Val (Some (concat (map entry_line xs)), getch (ahead v) rest) \<and>
      mset xs = mset es - {#e#} \<and> sorted (map sched_key xs)
    else delete_sched v (Some (concat (map entry_line es))) (d @ [LF] @ nm @ [LF] @ rest) =
      Val (Some (concat (map entry_line es)), LF # rest)"
proof -
  have "ask_date (d @ [LF] @ nm @ [LF] @ rest) = Val (d, LF # nm @ LF # rest)"
    using typed by (intro ask_date_typed) (simp_all add: skip_ws_typed)
  moreover have "read_until SUBJECT_NAME_MAX (\<lambda>w. True) (LF # nm @ LF # rest) = Val (nm, LF # rest)"
    using typed by (intro read_until_typed) (simp_all add: skip_ws_typed SUBJECT_NAME_MAX_def)
  moreover have "mset (align_list (pre @ post)) = mset es - {#e#}"
    using arg_cong [OF split(1), of mset] by (simp add: diff_add_mset_swap)
  ultimately show ?thesis
    using delete_sched_run [OF es _ _ _ split, of v "LF # rest"] v align_list_sorted [of "pre @ post"]
    by (auto simp: wait_key_line intro!: exI [of _ "align_list (pre @ post)"])
qed

theorem delete_sched_first_witness:
  "delete_sched calm (Some (entry_line korean @ entry_line music))
     (''170606'' @ [LF] @ ''Korean'' @ [LF] @ ''x'') =
   Val (Some (entry_line korean @ entry_line music), LF # ''x'')"
  using delete_sched_first [of "[korean, music]" "''170606''" "''Korean''" calm "[]" music "[korean]" "''x''"]
  by (simp add: two_subjects typed_def c_isspace_def) (simp add: music_def)

section \<open>Changing: lemmas\<close>

text \<open>The last of the entries that satisfy a test, from index \<open>i\<close> on.\<close>

lemma find_change_last:
  "i \<le> n \<Longrightarrow> n \<le> length a \<Longrightarrow>
   find_change (int i) (int n) d nm a ch =
     Val (case filter (\<lambda>j. date (a ! j) = d \<and> name_sub (a ! j) = nm) (rev [i..<n]) of
            [] \<Rightarrow> ch | j # _ \<Rightarrow> Some (int j))"
proof (induction "n - i" arbitrary: i ch)
  case 0
  then show ?case by (subst find_change.simps) simp
next
  case (Suc k)
  then have i: "i < n" "k = n - Suc i" "Suc i \<le> n" by simp_all
  have "find_change (int i) (int n) d nm a ch = find_change (int (Suc i)) (int n) d nm a
      (if date (a ! i) = d \<and> name_sub (a ! i) = nm then Some (int i) else ch)"
    using i Suc.prems
    by (subst find_change.simps) (simp add: int_plus_1 eq_commute [of d] eq_commute [of nm] del: of_nat_Suc)
  with Suc.hyps(1) [OF i(2,3) Suc.prems(2)] i(1) show ?case
    by (auto simp: upt_conv_Cons split: list.split)
qed

lemma find_change_front:
  assumes "hits = filter (\<lambda>j. date (xs ! j) = d \<and> name_sub (xs ! j) = nm) [0..<length xs]"
  shows "find_change 0 (int (length xs)) d nm (xs @ mem) None =
    Val (if hits = [] then None else Some (int (last hits)))"
proof -
  have "filter (\<lambda>j. date ((xs @ mem) ! j) = d \<and> name_sub ((xs @ mem) ! j) = nm) (rev [0..<length xs]) =
      rev hits"
    unfolding assms rev_filter [symmetric]
    by (intro arg_cong [where f = rev] filter_cong) (auto simp: nth_append)
  moreover have "hits \<noteq> [] \<Longrightarrow> rev hits = last hits # rev (butlast hits)"
    by (metis append_butlast_last_id rev.simps(2) rev_append rev_rev_ident append_Nil append_Cons)
  ultimately show ?thesis
    using find_change_last [of 0 "length xs" "xs @ mem" d nm None] by (cases "hits = []") simp_all
qed

lemma change_loop_other:
  "i \<le> m \<Longrightarrow> m \<le> n \<Longrightarrow> n \<le> length a \<Longrightarrow> \<forall>j. i \<le> j \<and> j < m \<longrightarrow> j \<noteq> k \<Longrightarrow>
   change_loop (int i) (int n) (Some (int k)) a out s =
   change_loop (int m) (int n) (Some (int k)) a (out @ concat (map entry_line (take (m - i) (drop i a)))) s"
proof (induction "m - i" arbitrary: i out)
  case (Suc l)
  then have i: "i < m" "l = m - Suc i" "Suc i \<le> m" by simp_all
  have "change_loop (int i) (int n) (Some (int k)) a out s =
      change_loop (int (Suc i)) (int n) (Some (int k)) a (out @ entry_line (a ! i)) s"
    using i Suc.prems by (subst change_loop.simps) (simp add: int_plus_1 del: of_nat_Suc)
  moreover have "change_loop (int (Suc i)) (int n) (Some (int k)) a (out @ entry_line (a ! i)) s =
      change_loop (int m) (int n) (Some (int k)) a
      ((out @ entry_line (a ! i)) @ concat (map entry_line (take (m - Suc i) (drop (Suc i) a)))) s"
    using i Suc.prems by (intro Suc.hyps(1)) auto
  moreover have "drop i a = a ! i # drop (Suc i) a" using i Suc.prems by (simp add: Cons_nth_drop_Suc)
  moreover have "m - i = Suc (m - Suc i)" using i by simp
  ultimately show ?case by simp
qed simp

lemma change_loop_end: "change_loop (int n) (int n) ch a out s = Val (out, s)"
  by (subst change_loop.simps) simp

lemma change_loop_typed:
  assumes k: "k < length xs"
    and p: "typed nm" "length nm < 20" "typed t" "length t = 4"
    and s: "skip_ws s = nm @ LF # t @ LF # rest"
  shows "change_loop 0 (int (length xs)) (Some (int k)) (xs @ mem) [] s =
    Val (concat (map entry_line (xs[k := (xs ! k)\<lparr>name_sub := nm, time := t\<rparr>])), LF # rest)"
proof -
  let ?a = "xs @ mem" and ?n = "length xs"
  let ?e = "(xs ! k)\<lparr>name_sub := nm, time := t\<rparr>"
  let ?pre = "concat (map entry_line (take k xs))"
  have 1: "read_name s = Val (nm, t @ LF # rest)" by (rule read_name_typed [OF p(1,2) s])
  have 2: "ask_time (t @ LF # rest) = Val (t, LF # rest)"
    using p(3,4) by (intro ask_time_typed) (simp_all add: skip_ws_typed)
  have "change_loop 0 (int ?n) (Some (int k)) ?a [] s =
      change_loop (int k) (int ?n) (Some (int k)) ?a ?pre s"
    using change_loop_other [of 0 k ?n ?a k "[]" s] k by simp
  also have "\<dots> = change_loop (int (Suc k)) (int ?n) (Some (int k)) ?a (?pre @ entry_line ?e) (LF # rest)"
    using k 1 2 by (subst change_loop.simps) (simp add: nth_append int_plus_1 del: of_nat_Suc)
  also have "\<dots> = change_loop (int ?n) (int ?n) (Some (int k)) ?a
      ((?pre @ entry_line ?e) @ concat (map entry_line (take (?n - Suc k) (drop (Suc k) ?a)))) (LF # rest)"
    using k by (intro change_loop_other) auto
  also have "\<dots> = Val (concat (map entry_line (xs[k := ?e])), LF # rest)"
    using k by (simp add: change_loop_end upd_conv_take_nth_drop)
  finally show ?thesis .
qed

text \<open>
  C30: changing an entry. On a file of well-formed entries, with a date and a name typed that
  some entry has, and then a new name and time, the file afterwards holds the sorted entries
  with the last of the matching ones changed, in its old place. If no entry matches, the file
  has been emptied when the function goes on to use a variable it never set.
\<close>

theorem change_sched_edits:
  assumes es: "\<forall>e \<in> set es. sched_ok e" "es \<noteq> []"
    and p: "typed d" "length d = 6" "typed nm" "length nm < 20" "typed nm'" "length nm' < 20"
      "typed t'" "length t' = 4"
    and v: "\<forall>t. can_open v ''w'' t \<and> roomy (stack v t) es"
    and hits: "hits = filter (\<lambda>j. date (align_list es ! j) = d \<and> name_sub (align_list es ! j) = nm)
      [0..<length es]"
    and s: "s = d @ [LF] @ nm @ [LF] @ nm' @ [LF] @ t' @ [LF] @ rest"
  shows "if hits = []
    then change_sched v (Some (concat (map entry_line es))) s = Undefined Unset \<and>
      (\<exists>cnt a. change_pick v (Some (concat (map entry_line es))) s =
        Val (Some (None, cnt, a), Some [], LF # nm' @ [LF] @ t' @ [LF] @ rest))
    else change_sched v (Some (concat (map entry_line es))) s =
      Val (Some (concat (map entry_line ((align_list es)
         [last hits := (align_list es ! last hits)\<lparr>name_sub := nm', time := t'\<rparr>]))), getch (ahead v) rest)"
proof -
  let ?xs = "align_list es" and ?mem = "drop (length es) (stack v s)"
  have room: "roomy (stack v s) es" using v by blast
  have 1: "ask_date s = Val (d, LF # nm @ LF # nm' @ LF # t' @ LF # rest)"
    using p by (intro ask_date_typed) (simp_all add: s skip_ws_typed)
  have 2: "read_until SUBJECT_NAME_MAX (\<lambda>w. True) (LF # nm @ LF # nm' @ LF # t' @ LF # rest) =
      Val (nm, LF # nm' @ LF # t' @ LF # rest)"
    using p by (intro read_until_typed) (simp_all add: skip_ws_typed SUBJECT_NAME_MAX_def)
  have 3: "find_change 0 (int (length es)) d nm (?xs @ ?mem) None =
      Val (if hits = [] then None else Some (int (last hits)))"
    using find_change_front [of hits ?xs d nm ?mem] hits by simp
  note run = read_align(2,3) [OF es(1) room] 1 2 3
  show ?thesis
  proof (cases "hits = []")
    case True
    have "change_loop 0 (int (length es)) None (?xs @ ?mem) [] u = Undefined Unset" for u
      using es(2) by (subst change_loop.simps) (cases es, auto simp: array_get_def)
    with run True es(2) v show ?thesis by (simp add: change_sched_def change_pick_def)
  next
    case False
    have "last hits \<in> set hits" using False by simp
    then have k: "last hits < length ?xs" by (auto simp: hits)
    have sk: "skip_ws (LF # nm' @ LF # t' @ LF # rest) = nm' @ LF # t' @ LF # rest"
      using p by (simp add: skip_ws_typed)
    from change_loop_typed [OF k p(5-8) sk, of ?mem] run False es(2) v show ?thesis
      by (simp add: change_sched_def change_pick_def wait_key_line)
  qed
qed

theorem change_sched_edits_witness:
  "change_sched calm (Some (entry_line korean @ entry_line music))
     (''170606'' @ [LF] @ ''Korean'' @ [LF] @ ''Art'' @ [LF] @ ''0900'' @ [LF] @ ''x'') =
   Val (Some (entry_line music @ entry_line (korean\<lparr>name_sub := ''Art'', time := ''0900''\<rparr>)), []) \<and>
   (\<exists>cnt a u. change_pick calm (Some (entry_line korean @ entry_line music))
     (''170606'' @ [LF] @ ''Latin'' @ [LF] @ ''Art'' @ [LF] @ ''0900'' @ [LF] @ ''x'') =
     Val (Some (None, cnt, a), Some [], u))"
proof -
  let ?hits = "\<lambda>nm. filter (\<lambda>j. date (align_list [korean, music] ! j) = ''170606'' \<and>
      name_sub (align_list [korean, music] ! j) = nm) [0..<length [korean, music]]"
  have hits: "[1] = ?hits ''Korean''" "[] = ?hits ''Latin''"
    by (simp_all add: two_subjects upt_rec) (simp_all add: korean_def music_def)
  have calm: "\<forall>t. can_open calm ''w'' t \<and> roomy (stack calm t) [korean, music]"
    by (auto intro!: roomy_blank simp: korean_def music_def)
  have ok: "\<forall>e \<in> set [korean, music]. sched_ok e" "[korean, music] \<noteq> []" by (simp_all add: two_subjects)
  have w: "typed ''170606''" "typed ''Korean''" "typed ''Latin''" "typed ''Art''" "typed ''0900''"
    by (simp_all add: typed_def c_isspace_def)
  note edits = change_sched_edits [OF ok w(1) _ _ _ w(4) _ w(5) _ calm _ refl, where rest = "''x''"]
  show ?thesis
    using edits [OF _ w(2) _ _ _ hits(1)] edits [OF _ w(3) _ _ _ hits(2)]
    by (auto simp: two_subjects getch_def)
qed

section \<open>The menu\<close>

text \<open>A file of lines of well-formed entries, or none.\<close>

definition entries_file :: "string option \<Rightarrow> schedule list \<Rightarrow> bool" where
  "entries_file file es \<longleftrightarrow>
     (\<forall>e \<in> set es. sched_ok e) \<and> (file = Some (concat (map entry_line es)) \<or> file = None \<and> es = [])"

lemma wait_key_rest: "wait_key v s = Val t \<Longrightarrow> length t < length s \<and> set t \<subseteq> set s"
  using getch_set [of "ahead v"] getch_shrinks [of "ahead v"] myflush_set myflush_shrinks
  by (fastforce simp: wait_key_def bind_out_Val_iff intro: le_less_trans)

text \<open>No function gives back more input than it took.\<close>

lemma wait_key_shrinks: "wait_key v s = Val t \<Longrightarrow> length t \<le> length s"
  using wait_key_rest by (simp add: less_imp_le)

lemma ask_subjects_shrinks: "ask_subjects k d s out = Val (out', t) \<Longrightarrow> length t \<le> length s"
proof (induction k d s out rule: ask_subjects.induct)
  case (2 k d s out)
  from "2.prems" obtain nm u w u' where u: "read_name s = Val (nm, u)" "ask_time u = Val (w, u')"
    "ask_subjects k d u' (out @ pad_left 6 d @ '' '' @ (nm @ '' '' @ pad_left 4 w) @ [LF]) = Val (out', t)"
    by (auto simp: bind_out_Val_iff)
  from "2.IH" [OF u(1) refl u(2) refl u(3)] u(1,2) show ?case
    by (auto simp: ask_time_def dest!: read_name_shrinks read_until_shrinks)
qed simp

lemma register_sched_shrinks: "register_sched v file s = Val (r, file', t) \<Longrightarrow> length t \<le> length s"
  by (auto simp: register_sched_def ask_date_def Let_def bind_out_Val_iff split: if_splits
      dest!: read_until_shrinks read_number_rest ask_subjects_shrinks)

lemma check_sched_shrinks: "check_sched v file s = Val (out, t) \<Longrightarrow> length t \<le> length s"
  by (auto simp: check_sched_def bind_out_Val_iff split: option.splits dest!: wait_key_shrinks)

lemma check_sched_date_shrinks: "check_sched_date v file s = Val (out, t) \<Longrightarrow> length t \<le> length s"
  by (auto simp: check_sched_date_def ask_date_def bind_out_Val_iff
      dest!: read_until_shrinks wait_key_shrinks)

lemma delete_sched_shrinks: "delete_sched v file s = Val (file', t) \<Longrightarrow> length t \<le> length s"
  by (auto simp: delete_sched_def ask_date_def bind_out_Val_iff split: if_splits option.splits
      dest!: read_until_shrinks wait_key_shrinks)

lemma change_loop_shrinks: "change_loop i n ch a out s = Val (out', t) \<Longrightarrow> length t \<le> length s"
proof (induction i n ch a out s rule: change_loop.induct)
  case (1 i n ch a out s)
  show ?case
  proof (cases "i < n")
    case True
    with "1.prems" obtain e k where e: "array_get a i = Val e" "ch = Some k"
      by (subst (asm) change_loop.simps) (auto simp: bind_out_Val_iff split: option.splits)
    show ?thesis
    proof (cases "i = k")
      case False
      with "1.prems" True e have "change_loop (i + 1) n ch a (out @ entry_line e) s = Val (out', t)"
        by (subst (asm) change_loop.simps) simp
      with "1.IH"(1) [OF True e] False show ?thesis by simp
    next
      case same: True
      with "1.prems" True e obtain nm u w u' where u: "read_name s = Val (nm, u)" "ask_time u = Val (w, u')"
        "change_loop (i + 1) n ch a (out @ entry_line (e\<lparr>name_sub := nm, time := w\<rparr>)) u' = Val (out', t)"
        by (subst (asm) change_loop.simps) (auto simp: bind_out_Val_iff)
      have "length t \<le> length u'" using "1.IH"(2) [OF True e _ u(1) refl u(2) refl u(3)] same by simp
      with u(1,2) show ?thesis
        by (auto simp: ask_time_def dest!: read_name_shrinks read_until_shrinks)
    qed
  next
    case False
    with "1.prems" show ?thesis by (subst (asm) change_loop.simps) simp
  qed
qed

lemma change_sched_shrinks: "change_sched v file s = Val (file', t) \<Longrightarrow> length t \<le> length s"
  by (auto simp: change_sched_def change_pick_def ask_date_def bind_out_Val_iff split: if_splits option.splits
      dest!: read_until_shrinks wait_key_shrinks change_loop_shrinks)

text \<open>The menu: what the functions show is left out, the file and the input go on.\<close>

function menu_sched :: "env \<Rightarrow> string option \<Rightarrow> string \<Rightarrow> (string option \<times> string) outcome" where
  "menu_sched v file s =
     bind_out (read_choice 6 s) (\<lambda>(sel, s).
     if sel = 1 then bind_out (register_sched v file s) (\<lambda>(r, file, s). menu_sched v file s)
     else if sel = 2 then bind_out (change_sched v file s) (\<lambda>(file, s). menu_sched v file s)
     else if sel = 3 then bind_out (delete_sched v file s) (\<lambda>(file, s). menu_sched v file s)
     else if sel = 4 then bind_out (check_sched v file s) (\<lambda>(out, s). menu_sched v file s)
     else if sel = 5 then bind_out (check_sched_date v file s) (\<lambda>(out, s). menu_sched v file s)
     else Val (file, s))"
  by pat_completeness auto
termination
  by (relation "measure (\<lambda>(v, file, s). length s)")
    (auto dest!: read_choice_rest register_sched_shrinks change_sched_shrinks delete_sched_shrinks
      check_sched_shrinks check_sched_date_shrinks)

declare menu_sched.simps [simp del]

definition menu_sel :: "string \<Rightarrow> (int \<times> string) outcome" where
  "menu_sel s = read_choice 3 s"

section \<open>Deleting, whatever is typed\<close>

lemma delete_sched_asked:
  assumes es: "\<forall>e \<in> set es. sched_ok e" "length es < 10000" and u: "ask_date s = Val (d, u)"
    and run: "delete_sched v (Some (concat (map entry_line es))) s = Val (file', t)"
  obtains (nothing) "wait_key v u = Val t" "file' = Some (concat (map entry_line es))"
  | (asked) nm u' where "\<exists>e \<in> set es. date e = d" "read_until SUBJECT_NAME_MAX (\<lambda>w. True) u = Val (nm, u')"
      "can_open v ''w'' u' \<or> file' = Some (concat (map entry_line es)) \<and> t = u'"
proof -
  have room: "roomy (replicate 10000 no_entry) es" using es sched_ok_date by (intro roomy_blank) auto
  note prep = read_align(2,3) [OF es(1) room] u filter_date_Nil [of d es, unfolded strcmp_eq_0]
  show thesis
  proof (cases "\<forall>e \<in> set es. date e \<noteq> d")
    case True
    with run prep have "wait_key v u = Val t \<and> file' = Some (concat (map entry_line es))"
      by (auto simp: delete_sched_def bind_out_Val_iff)
    then show ?thesis using that(1) by blast
  next
    case False
    with run prep obtain nm u' where
      "read_until SUBJECT_NAME_MAX (\<lambda>w. True) u = Val (nm, u')"
      "can_open v ''w'' u' \<or> file' = Some (concat (map entry_line es)) \<and> t = u'"
      by (auto simp: delete_sched_def bind_out_Val_iff txt_write_def simp del: bex_simps ball_simps
          split: if_splits option.splits)
    with False that(2) show ?thesis by blast
  qed
qed

text \<open>
  C29: deleting keeps the file well-formed, whatever is typed. On a file of fewer than 10000
  well-formed entries (or none) and any input, when \<open>delete_sched\<close> comes back the file again
  holds well-formed entries, all of them entries it had, and at most one is missing.
\<close>

theorem delete_sched_keeps_file:
  assumes run: "delete_sched v file s = Val (file', t)" and f: "entries_file file es" "length es < 10000"
  shows "\<exists>es'. entries_file file' es' \<and> mset es' \<subseteq># mset es \<and> length es \<le> length es' + 1"
proof -
  from run obtain d u where u: "ask_date s = Val (d, u)" by (auto simp: delete_sched_def bind_out_Val_iff)
  have es: "\<forall>e \<in> set es. sched_ok e" using f(1) by (simp add: entries_file_def)
  have same: "?thesis" if "file' = file" using that f(1) by auto
  show ?thesis
  proof (cases "file")
    case None
    with run u same show ?thesis by (auto simp: delete_sched_def txt_read_def re_align_negative bind_out_Val_iff)
  next
    case (Some c)
    then have c: "file = Some (concat (map entry_line es))" using f(1) by (auto simp: entries_file_def)
    from es f(2) u run [unfolded c] show ?thesis
    proof (cases rule: delete_sched_asked)
      case nothing
      with same c show ?thesis by simp
    next
      case (asked nm u')
      from align_list_split [OF asked(1)] obtain pre e post where
        split: "align_list es = pre @ e # post" "\<forall>p \<in> set pre. date p \<noteq> d" "date e = d" by blast
      have perm: "mset es = mset (pre @ e # post)" by (metis align_list_mset split(1))
      show ?thesis
      proof (cases "can_open v ''w'' u' \<and> nm = name_sub e")
        case True
        with delete_sched_run [OF es f(2) _ u asked(2) split, of v] run c
        have "file' = Some (concat (map entry_line (align_list (pre @ post))))"
          by (auto simp: bind_out_Val_iff)
        moreover have "\<forall>x \<in> set (align_list (pre @ post)). sched_ok x"
          using es mset_eq_setD [OF perm] by auto
        ultimately show ?thesis
          using perm mset_eq_length [OF perm]
          by (intro exI [of _ "align_list (pre @ post)"]) (simp add: entries_file_def)
      next
        case False
        with delete_sched_run [OF es f(2) _ u asked(2) split, of v] run c asked(3) same show ?thesis by auto
      qed
    qed
  qed
qed

theorem delete_sched_keeps_file_witness:
  "\<exists>es'. delete_sched calm (Some (entry_line korean @ entry_line music))
     (''1706'' @ [LF] @ ''170606'' @ [LF] @ ''Music'' @ [LF] @ ''x'') = Val (Some (entry_line korean), []) \<and>
   entries_file (Some (entry_line korean)) es' \<and> mset es' \<subseteq># mset [korean, music] \<and> 1 \<le> length es'"
proof -
  let ?f = "Some (entry_line korean @ entry_line music)"
  let ?s = "''1706'' @ [LF] @ ''170606'' @ [LF] @ ''Music'' @ [LF] @ ''x''"
  have ask: "ask_date ?s = Val (''170606'', [LF] @ ''Music'' @ [LF] @ ''x'')" by code_simp
  have nm: "read_until SUBJECT_NAME_MAX (\<lambda>w. True) ([LF] @ ''Music'' @ [LF] @ ''x'') = Val (''Music'', LF # ''x'')"
    by code_simp
  have ok: "\<forall>e \<in> set [korean, music]. sched_ok e" by (simp add: two_subjects)
  have m: "date music = ''170606''" "name_sub music = ''Music''" by (simp_all add: music_def)
  have "align_list [korean] = [korean]" by code_simp
  then have run: "delete_sched calm ?f ?s = Val (Some (entry_line korean), [])"
    using delete_sched_run [OF ok _ _ ask nm, of calm "[]" music "[korean]"] m two_subjects(3)
    by (simp add: wait_key_line getch_def)
  have "entries_file ?f [korean, music]" using ok by (simp add: entries_file_def)
  from delete_sched_keeps_file [OF run this] run show ?thesis by auto
qed

text \<open>A machine with little on its stack, to run sessions on.\<close>

definition small :: env where
  "small = \<lparr>can_open = \<lambda>m s. True, ahead = \<lambda>s. 0, stack = \<lambda>s. replicate 60 no_entry\<rparr>"

text \<open>
  A file that was not printed by the program. Registering rewrites the file in place
  without truncating it, so a file with wider spacing keeps its last bytes after the sorted
  lines; the next subject registered is appended to that rest, and reading the file finds
  another date, name and time.
\<close>

lemma register_sched_garbage:
  "map_out (\<lambda>(r, f, s). f) (register_sched small (Some (''170606    Korean 1819'' @ [LF]))
       (''170607'' @ [LF] @ ''1'' @ [LF] @ ''Art'' @ [LF] @ ''0900'' @ [LF])) =
     Val (Some (''170606 Korean 1819'' @ [LF] @ ''170607 Art 0900'' @ [LF] @ ''00'' @ [LF])) \<and>
   map_out (\<lambda>(r, f, s). records scan_sched (the f))
     (register_sched small (Some (''170606 Korean 1819'' @ [LF] @ ''170607 Art 0900'' @ [LF] @ ''00'' @ [LF]))
       (''170608'' @ [LF] @ ''1'' @ [LF] @ ''Biology'' @ [LF] @ ''0900'' @ [LF])) =
     Val [\<lparr>date = ''00'', name_sub = ''170608'', time = ''Biol''\<rparr>,
          \<lparr>date = ''170606'', name_sub = ''Korean'', time = ''1819''\<rparr>,
          \<lparr>date = ''170607'', name_sub = ''Art'', time = ''0900''\<rparr>]"
  by (intro conjI) code_simp+

end
