(* ===== verification/Overview.thy ===== *)
theory Overview
  imports Receiver Schedule_Menu
begin

text \<open>
  \<open>print_other_infos\<close> of \<open>studysys/schedule.c\<close>: what the devices reported in the last ten
  seconds, read from the table the receiver keeps. The receiver may store a report between two
  reads of the table, so the table is given for every index it is read at; \<open>tab i\<close> is the
  table when entry \<open>i\<close> is read.
\<close>

section \<open>The screen\<close>

abbreviation TAB :: char where "TAB \<equiv> CHR 0x09"

text \<open>Arithmetic on \<open>time_t\<close>, and a \<open>time_t\<close> printed with \<open>%lu\<close>.\<close>

definition as_time :: "abi \<Rightarrow> int \<Rightarrow> int outcome" where
  "as_time a v =
     (let w = (case a of ILP32 \<Rightarrow> 31 | LP64 \<Rightarrow> 63) in
      if - (2 ^ w) \<le> v \<and> v < 2 ^ w then Val v else Undefined IntOverflow)"

definition as_ulong :: "abi \<Rightarrow> int \<Rightarrow> nat" where
  "as_ulong a v = nat (v mod 2 ^ (case a of ILP32 \<Rightarrow> 32 | LP64 \<Rightarrow> 64))"

definition other_heading :: string where
  "other_heading =
     ''n'' @ [TAB] @ ''ip'' @ [TAB, TAB] @ ''subject'' @ [TAB, TAB] @ ''time'' @ [LF] @
     replicate 44 (CHR ''-'') @ [LF]"

text \<open>One line; the address is looked up with the index the entry itself holds.\<close>

definition other_row :: "abi \<Rightarrow> int \<Rightarrow> information \<Rightarrow> string outcome" where
  "other_row a n info =
     bind_out (index2ip (sint (info_index info))) (\<lambda>ad.
     bind_out (cstring (subject_name info)) (\<lambda>subject.
     Val (show_int0 0 n @ [TAB] @ ad @ [TAB] @ subject @ [TAB, TAB] @
          show_nat (as_ulong a (info_time info)) @ ''min'' @ [LF])))"

function other_loop ::
  "abi \<Rightarrow> int \<Rightarrow> (int \<Rightarrow> information list) \<Rightarrow> int \<Rightarrow> int \<Rightarrow> string outcome"
where
  "other_loop a cur_time tab n i =
     (if i < DEVINFO_MAX then
        bind_out (get_other_info (blank_info\<lparr>info_index := word_of_int i\<rparr>) (tab i)) (\<lambda>info.
        bind_out (as_time a (rx_time info + 10)) (\<lambda>until.
        if until < cur_time then other_loop a cur_time tab n (i + 1)
        else
          bind_out (other_row a n info) (\<lambda>row.
          bind_out (other_loop a cur_time tab n (i + 1)) (\<lambda>rows. Val (row @ rows)))))
      else Val [])"
  by pat_completeness auto
termination
  by (relation "measure (\<lambda>(a, cur_time, tab, n, i). nat (DEVINFO_MAX - i))") auto

declare other_loop.simps [simp del]

text \<open>The result is what is printed, up to the request for a key, and the input left.\<close>

definition print_other_infos ::
  "abi \<Rightarrow> env \<Rightarrow> int \<Rightarrow> (int \<Rightarrow> information list) \<Rightarrow> string \<Rightarrow> (string \<times> string) outcome"
where
  "print_other_infos a v cur_time tab s =
     bind_out (other_loop a cur_time tab 1 0) (\<lambda>rows.
     bind_out (wait_key v s) (\<lambda>s. Val (other_heading @ rows, s)))"

section \<open>The table the receiver keeps\<close>

definition clock_ok :: "abi \<Rightarrow> int \<Rightarrow> bool" where
  "clock_ok a now \<longleftrightarrow> 0 \<le> now \<and> as_time a (now + 10) = Val (now + 10)"

text \<open>
  An entry is either as it was at the start, or a report filed under the index of one of the
  four devices, with a terminated name and the time of its arrival.
\<close>

definition filed :: "abi \<Rightarrow> nat \<Rightarrow> information \<Rightarrow> bool" where
  "filed a i r \<longleftrightarrow>
     1 \<le> i \<and> i \<le> 4 \<and> info_index r = of_nat i \<and> (\<exists>s. cstring (subject_name r) = Val s) \<and>
     clock_ok a (rx_time r)"

definition table_ok :: "abi \<Rightarrow> information list \<Rightarrow> bool" where
  "table_ok a t \<longleftrightarrow>
     int (length t) = DEVINFO_MAX \<and> (\<forall>i < length t. t ! i = blank_info \<or> filed a i (t ! i))"

text \<open>The devices with a report not older than ten seconds, in the order of their indices.\<close>

definition recent :: "int \<Rightarrow> (int \<Rightarrow> information list) \<Rightarrow> nat list" where
  "recent cur_time tab = filter (\<lambda>i. cur_time \<le> rx_time (tab (int i) ! i) + 10) [1, 2, 3, 4]"

text \<open>The line of the device with index \<open>i\<close>, reporting \<open>s\<close> and \<open>m\<close> minutes.\<close>

definition device_row :: "nat \<Rightarrow> string \<Rightarrow> nat \<Rightarrow> string" where
  "device_row i s m =
     ''1'' @ [TAB] @ snd (arptbl ! (i - 1)) @ [TAB] @ s @ [TAB, TAB] @ show_nat m @ ''min'' @ [LF]"

definition entry_row :: "abi \<Rightarrow> nat \<Rightarrow> information \<Rightarrow> string" where
  "entry_row a i r = device_row i (c_str (subject_name r)) (as_ulong a (info_time r))"

lemma table_ok_entry:
  "table_ok a t \<Longrightarrow> i < 256 \<Longrightarrow> t ! i = blank_info \<or> filed a i (t ! i)"
  by (simp add: table_ok_def DEVINFO_MAX_def)

lemma table_ok_get:
  assumes "table_ok a t" "i < 256"
  shows "get_other_info (blank_info\<lparr>info_index := word_of_int (int i)\<rparr>) t = Val (t ! i)"
proof -
  have u: "uint (word_of_int (int i) :: 32 word) = int i" using assms(2) by (simp add: uint_word_of_int del: of_int_of_nat_eq)
  then have "device_index (word_of_int (int i))" using assms(2) by (simp add: device_index_def DEVINFO_MAX_def)
  from sint_device_index [OF this] u have "sint (word_of_int (int i) :: 32 word) = int i" by simp
  then show ?thesis using assms by (simp add: get_other_info_def table_ok_def DEVINFO_MAX_def)
qed

lemma filed_row: "filed a i r \<Longrightarrow> other_row a 1 r = Val (entry_row a i r)"
proof -
  assume r: "filed a i r"
  then obtain s where s: "cstring (subject_name r) = Val s" by (auto simp: filed_def)
  then have "c_str (subject_name r) = s" by (auto simp: cstring_def c_str_def split: if_splits)
  moreover have "i = 1 \<or> i = 2 \<or> i = 3 \<or> i = 4" using r by (auto simp: filed_def)
  moreover have "show_int0 0 1 = ''1''" by code_simp
  ultimately show ?thesis
    using r s by (auto simp: other_row_def filed_def index2ip_def arptbl_def array_get_def entry_row_def device_row_def)
qed

lemma other_loop_rows:
  assumes tab: "\<forall>i < 256. table_ok a (tab (int i))" and cur: "10 < cur"
  shows "k \<le> 256 \<Longrightarrow> other_loop a cur tab 1 (int k) =
    Val (concat (map (\<lambda>i. entry_row a i (tab (int i) ! i))
      (filter (\<lambda>i. cur \<le> rx_time (tab (int i) ! i) + 10) [k..<256])))"
proof (induction "256 - k" arbitrary: k)
  case 0
  then show ?case by (subst other_loop.simps) (simp add: DEVINFO_MAX_def)
next
  case (Suc m)
  then have k: "k < 256" "m = 256 - Suc k" by simp_all
  let ?r = "tab (int k) ! k"
  have ok: "table_ok a (tab (int k))" using tab k by blast
  have entry: "?r = blank_info \<or> filed a k ?r" by (rule table_ok_entry [OF ok k(1)])
  have until: "as_time a (rx_time ?r + 10) = Val (rx_time ?r + 10)"
    using entry by (auto simp: filed_def clock_ok_def blank_info_def as_time_def split: abi.split)
  have IH: "other_loop a cur tab 1 (int k + 1) =
      Val (concat (map (\<lambda>i. entry_row a i (tab (int i) ! i))
        (filter (\<lambda>i. cur \<le> rx_time (tab (int i) ! i) + 10) [Suc k..<256])))"
    using Suc.hyps(1) [of "Suc k"] k by (simp add: int_plus_1 del: of_nat_Suc)
  have "filed a k ?r" if "cur \<le> rx_time ?r + 10"
    using entry that cur by (auto simp: blank_info_def)
  with k IH until table_ok_get [OF ok k(1)] filed_row [of a k ?r] show ?case
    by (subst other_loop.simps) (auto simp: DEVINFO_MAX_def upt_conv_Cons)
qed

lemma recent_rows:
  assumes tab: "\<forall>i < 256. table_ok a (tab (int i))" and cur: "10 < cur"
  shows "filter (\<lambda>i. cur \<le> rx_time (tab (int i) ! i) + 10) [0..<256] = recent cur tab"
proof -
  have none: "\<not> cur \<le> rx_time (tab (int i) ! i) + 10" if "i < 256" "i = 0 \<or> 5 \<le> i" for i
    using tab that cur table_ok_entry [of a "tab (int i)" i] by (fastforce simp: filed_def blank_info_def)
  have split: "filter P [i..<k] = filter P [i..<j] @ filter P [j..<k]" if "i \<le> j" "j \<le> k" for P i j k
    using that upt_add_eq_append [of i j "k - j"] by simp
  let ?P = "\<lambda>i. cur \<le> rx_time (tab (int i) ! i) + 10"
  have "filter ?P [0..<1] = []" "filter ?P [5..<256] = []"
    unfolding filter_empty_conv using none none [of 0] by (auto simp del: upt_rec_numeral)
  moreover have "[1..<5] = [1, 2, 3, 4 :: nat]" by (simp add: upt_rec)
  ultimately show ?thesis
    using split [of 0 1 256 ?P] split [of 1 5 256 ?P] by (simp add: recent_def del: upt_rec_numeral)
qed

lemma overview_run:
  assumes tab: "\<forall>i < 256. table_ok a (tab (int i))" and cur: "10 < cur" and key: "wait_key v s = Val t"
  shows "print_other_infos a v cur tab s =
    Val (other_heading @ concat (map (\<lambda>i. entry_row a i (tab (int i) ! i)) (recent cur tab)), t)"
  using other_loop_rows [OF tab cur, of 0] recent_rows [OF tab cur] key by (simp add: print_other_infos_def)

lemma receive_table_ok:
  assumes "rx_ok st" "table_ok a (infos st)" "clock_ok a now" "receive a w now st = Val st'"
  shows "table_ok a (infos st')"
proof -
  let ?q = "recvfrom w (rcv_packet st)"
  from receive_packet [OF assms(1) refl, of w a now] assms(4) obtain r where
    r: "acceptable ?q" "infos st' = (infos st)[unat (pkt_index ?q) := r]" "reports a ?q now r"
    by (auto split: if_splits)
  then have "\<exists>s. cstring (pkt_name ?q) = Val s" by (auto simp: acceptable_def cstring_def)
  with r assms(3) have "filed a (unat (pkt_index ?q)) r"
    by (auto simp: filed_def reports_def acceptable_def unsigned_ucast_eq word_unat_eq_iff take_bit_eq_mod)
  moreover have "infos st' ! i = (if i = unat (pkt_index ?q) then r else infos st ! i)"
    if "i < length (infos st)" for i using r(2) that by (auto simp: nth_list_update)
  moreover have "length (infos st') = length (infos st)" by (simp add: r(2))
  ultimately show ?thesis using assms(2) by (simp add: table_ok_def)
qed

text \<open>The table as it is at the start, the same at every read.\<close>

lemma blank_table_ok [simp]: "table_ok a (replicate 256 blank_info)"
  by (simp add: table_ok_def DEVINFO_MAX_def)

text \<open>Every packet taken by the receiver is acceptable, up to a failing \<open>select\<close>.\<close>

fun survives :: "(wakeup \<times> int) list \<Rightarrow> packet \<Rightarrow> bool" where
  "survives [] p = True"
| "survives ((w, now) # ws) p =
     (w = SelectFails \<or> acceptable (recvfrom w p) \<and> survives ws (recvfrom w p))"

section \<open>Properties\<close>

text \<open>
  C9: the table stays well-formed. Whatever comes in, in whatever order, at times \<open>time\<close> can
  give: as long as every packet taken is acceptable the receiver goes on, and every entry of
  its table is either untouched or a report filed under the index of its own device; at the
  first packet that is not, it leaves an array.
\<close>

theorem receiver_keeps_table:
  assumes "rx_ok st" "table_ok a (infos st)" "\<forall>(w, now) \<in> set ws. clock_ok a now"
  shows "if survives ws (rcv_packet st)
    then \<exists>thr st'. receive_loop a ws st = Val (thr, st') \<and> rx_ok st' \<and> table_ok a (infos st')
    else receive_loop a ws st = Undefined OutOfBounds"
  using assms
proof (induction ws arbitrary: st)
  case (Cons e ws)
  obtain w now where e: "e = (w, now)" by fastforce
  show ?case
  proof (cases "w = SelectFails")
    case True
    with Cons.prems e show ?thesis by simp
  next
    case False
    note rx = receive_packet [OF Cons.prems(1) refl, of w a now]
    show ?thesis
    proof (cases "acceptable (recvfrom w (rcv_packet st))")
      case True
      with rx obtain st1 where st1: "receive a w now st = Val st1"
        "rcv_packet st1 = recvfrom w (rcv_packet st)" by auto
      then have "rx_ok st1" "table_ok a (infos st1)"
        using Cons.prems e receive_ok receive_table_ok [of st a now w st1] by auto
      with Cons.IH [of st1] Cons.prems(3) st1 True False e show ?thesis by simp
    next
      case False
      with rx \<open>w \<noteq> SelectFails\<close> e show ?thesis by simp
    qed
  qed
qed simp

lemma two_packets_run:
  "receive_loop LP64 [(Datagram ([2, 0, 0, 0, 0, 0, 0, 10, 77] @ replicate 19 0), 1000), (SelectFails, 1001)]
     \<lparr>rcv_packet = \<lparr>pkt_index = 0, pkt_pad = [1, 2, 3], pkt_time = 0, pkt_name = replicate 20 NUL\<rparr>,
      rcv_info = blank_info, infos = replicate 256 blank_info\<rparr> =
   Val (Exited, \<lparr>rcv_packet = packet_of_bytes ([2, 0, 0, 0, 0, 0, 0, 10, 77] @ replicate 19 0),
     rcv_info = \<lparr>info_index = 2, info_time = 10, rx_time = 1000, subject_name = ''M'' @ replicate 19 NUL\<rparr>,
     infos = (replicate 256 blank_info)
       [2 := \<lparr>info_index = 2, info_time = 10, rx_time = 1000, subject_name = ''M'' @ replicate 19 NUL\<rparr>]\<rparr>)"
  by code_simp

theorem receiver_keeps_table_witness:
  "\<exists>st'. receive_loop LP64 [(Datagram ([2, 0, 0, 0, 0, 0, 0, 10, 77] @ replicate 19 0), 1000), (SelectFails, 1001)]
     \<lparr>rcv_packet = \<lparr>pkt_index = 0, pkt_pad = [1, 2, 3], pkt_time = 0, pkt_name = replicate 20 NUL\<rparr>,
      rcv_info = blank_info, infos = replicate 256 blank_info\<rparr> = Val (Exited, st') \<and>
     table_ok LP64 (infos st') \<and> rx_time (infos st' ! 2) = 1000"
proof -
  let ?st = "\<lparr>rcv_packet = \<lparr>pkt_index = 0, pkt_pad = [1, 2, 3], pkt_time = 0, pkt_name = replicate 20 NUL\<rparr>,
      rcv_info = blank_info, infos = replicate 256 blank_info\<rparr>"
  let ?ws = "[(Datagram ([2, 0, 0, 0, 0, 0, 0, 10, 77] @ replicate 19 0), 1000 :: int), (SelectFails, 1001)]"
  have "info_ok blank_info" by (simp add: info_ok_def blank_info_def SUBJECT_NAME_MAX_def)
  then have "rx_ok ?st" by (simp add: rx_ok_def packet_ok_def SUBJECT_NAME_MAX_def DEVINFO_MAX_def)
  moreover have "survives ?ws (rcv_packet ?st)" by code_simp
  ultimately have "\<exists>thr st'. receive_loop LP64 ?ws ?st = Val (thr, st') \<and> table_ok LP64 (infos st')"
    using receiver_keeps_table [of ?st LP64 ?ws]
    by (auto simp: clock_ok_def as_time_def simp del: receive_loop.simps survives.simps)
  with two_packets_run show ?thesis by (auto simp del: receive_loop.simps append.simps)
qed

text \<open>
  C19: the screen of the other devices. On tables the receiver keeps, changing between the
  reads or not, it never leaves an array and prints, in the order of the indices, one line for
  every device whose report is at most ten seconds old, with its address, its subject and its
  time. Every line is numbered 1.
\<close>

theorem overview_recent:
  assumes "\<forall>i < 256. table_ok a (tab (int i))" "10 < cur" "wait_key v s = Val t"
  shows "print_other_infos a v cur tab s =
    Val (other_heading @ concat (map (\<lambda>i. entry_row a i (tab (int i) ! i)) (recent cur tab)), t)"
  by (rule overview_run [OF assms])

theorem overview_recent_witness:
  "print_other_infos LP64 calm 1010
     (\<lambda>i. (replicate 256 blank_info)
       [2 := \<lparr>info_index = 2, info_time = 10, rx_time = 1000, subject_name = ''M'' @ replicate 19 NUL\<rparr>])
     [LF] =
   Val (other_heading @ ''1'' @ [TAB] @ ''192.168.2.2'' @ [TAB] @ ''M'' @ [TAB, TAB] @ ''10min'' @ [LF], [])"
proof -
  let ?r = "\<lparr>info_index = 2, info_time = 10, rx_time = 1000, subject_name = ''M'' @ replicate 19 NUL\<rparr>"
  let ?t = "(replicate 256 blank_info)[2 := ?r]"
  have "filed LP64 2 ?r" by (simp add: filed_def cstring_def clock_ok_def as_time_def)
  then have "table_ok LP64 ?t" by (auto simp: table_ok_def DEVINFO_MAX_def nth_list_update)
  moreover have "recent 1010 (\<lambda>i. ?t) = [2]" by (simp add: recent_def blank_info_def)
  moreover have "entry_row LP64 2 ?r =
      ''1'' @ [TAB] @ ''192.168.2.2'' @ [TAB] @ ''M'' @ [TAB, TAB] @ ''10min'' @ [LF]" by code_simp
  moreover have "wait_key calm [LF] = Val []" by code_simp
  ultimately show ?thesis using overview_recent [of LP64 "\<lambda>i. ?t" 1010 calm "[LF]" "[]"] by simp
qed

end
