(* ===== verification/Procfs.thy ===== *)
theory Procfs
  imports Terminal
begin

text \<open>
  Looking a process up by name: \<open>get_process_id\<close>, which \<open>studysys/bright_control.c\<close> and
  \<open>ultrasonic_wave/ultrasonic_wave.c\<close> both define, and \<open>get_light_proc_pid\<close>. The directory
  \<open>/proc\<close> is the list of its entries in the order \<open>readdir\<close> gives them, \<open>None\<close> when
  \<open>opendir\<close> fails; a file in an entry is its contents, \<open>None\<close> when it cannot be opened.
\<close>

definition BUF_SIZE :: nat where "BUF_SIZE = 1024"

record dirent =
  d_name :: string
  status :: "string option"
  cmdline :: "string option"

text \<open>\<open>atoi\<close>: the number at the front, 0 when there is none.\<close>

definition atoi :: "string \<Rightarrow> int outcome" where
  "atoi s = (case scan_int s of (Some v, t) \<Rightarrow> as_int v | (None, t) \<Rightarrow> Val 0)"

section \<open>By the name in the status file\<close>

text \<open>
  \<open>sscanf(buf, "%s\t%s", tmp1, tmp2)\<close>: the two arrays keep what they held (\<open>None\<close>: nothing was
  ever stored) where the line has no further token; a token of 512 bytes or more overflows.
\<close>

definition scan_pair ::
  "string \<Rightarrow> string option \<times> string option \<Rightarrow> (string option \<times> string option) outcome"
where
  "scan_pair line tmps =
     (case scan_str None (c_str line) of
        None \<Rightarrow> Val tmps
      | Some (w1, t) \<Rightarrow>
          if BUF_SIZE div 2 \<le> length w1 then Undefined OutOfBounds
          else
            (case scan_str None t of
               None \<Rightarrow> Val (Some w1, snd tmps)
             | Some (w2, t) \<Rightarrow>
                 if BUF_SIZE div 2 \<le> length w2 then Undefined OutOfBounds
                 else Val (Some w1, Some w2)))"

lemma fgets_shrinks: "fgets n s = Some (line, t) \<Longrightarrow> 1 < n \<Longrightarrow> length t < length s"
proof -
  assume g: "fgets n s = Some (line, t)" and n: "1 < n"
  from g have s: "s \<noteq> []" by (auto simp: fgets_def)
  let ?upto = "takeWhile (\<lambda>c. c \<noteq> LF) s"
  let ?line = "if LF \<in> set s then ?upto @ [LF] else ?upto"
  have "?line \<noteq> []" using s by (cases s) auto
  then have "take (n - 1) ?line \<noteq> []" using n by simp
  moreover have "line = take (n - 1) ?line" "t = drop (length line) s"
    using g s by (auto simp: fgets_def Let_def)
  ultimately show ?thesis using s by (cases line) auto
qed

text \<open>The lines of one status file: whether the name in it is the one looked for.\<close>

function status_loop ::
  "string \<Rightarrow> string \<Rightarrow> string option \<times> string option \<Rightarrow> (bool \<times> string option \<times> string option) outcome"
where
  "status_loop proc_name s tmps =
     (case fgets BUF_SIZE s of
        None \<Rightarrow> Val (False, tmps)
      | Some (line, t) \<Rightarrow>
          bind_out (scan_pair line tmps) (\<lambda>(tmp1, tmp2).
          case tmp1 of
            None \<Rightarrow> Undefined Unset
          | Some w1 \<Rightarrow>
              if strcmp w1 ''Name:'' \<noteq> 0 then status_loop proc_name t (tmp1, tmp2)
              else
                (case tmp2 of
                   None \<Rightarrow> Undefined Unset
                 | Some w2 \<Rightarrow> Val (strcmp w2 proc_name = 0, tmp1, tmp2))))"
  by pat_completeness auto
termination
  by (relation "measure (\<lambda>(p, s, tmps). length s)") (auto simp: BUF_SIZE_def dest: fgets_shrinks)

declare status_loop.simps [simp del]

fun dir_loop ::
  "string \<Rightarrow> dirent list \<Rightarrow> string option \<times> string option \<Rightarrow> int outcome"
where
  "dir_loop proc_name [] tmps = Val (-1)"
| "dir_loop proc_name (e # es) tmps =
     (if \<not> (\<forall>c \<in> set (d_name e). is_digit c) then dir_loop proc_name es tmps
      else
        bind_out (atoi (d_name e)) (\<lambda>pid.
        case status e of
          None \<Rightarrow> Val (-1)
        | Some s \<Rightarrow>
            bind_out (status_loop proc_name s tmps) (\<lambda>(found, tmps).
            if found then Val pid else dir_loop proc_name es tmps)))"

definition get_process_id :: "dirent list option \<Rightarrow> string \<Rightarrow> int outcome" where
  "get_process_id proc_dir proc_name =
     (case proc_dir of None \<Rightarrow> Val (-1) | Some es \<Rightarrow> dir_loop proc_name es (None, None))"

section \<open>By the second argument on the command line\<close>

text \<open>
  \<open>get_light_proc_pid\<close>: the bytes go into \<open>buf\<close> from index \<open>i\<close>, which is the length of the
  directory's name at first. \<open>read\<close> sets one byte of an \<open>int\<close>; \<open>hi\<close> is what the other three
  contribute to its value.
\<close>

definition LIGHT_PROC_NAME :: string where
  "LIGHT_PROC_NAME = ''esp_lightWifiBulbLanCtrl.py''"

fun cmdline_loop :: "int \<Rightarrow> string \<Rightarrow> nat \<Rightarrow> nat \<Rightarrow> char list \<Rightarrow> (bool \<times> char list) outcome" where
  "cmdline_loop hi [] i argCount buf = Val (False, buf)"
| "cmdline_loop hi (b # bs) i argCount buf =
     bind_out (array_put buf (int i) b) (\<lambda>buf.
     if of_char b + hi = 0 then
       (if argCount = 1
        then bind_out (cstring buf) (\<lambda>arg. Val (strcmp arg LIGHT_PROC_NAME = 0, buf))
        else cmdline_loop hi bs 0 (Suc argCount) buf)
     else cmdline_loop hi bs (Suc i) argCount buf)"

fun cmdline_dirs :: "int \<Rightarrow> dirent list \<Rightarrow> char list \<Rightarrow> int outcome" where
  "cmdline_dirs hi [] buf = Val (-1)"
| "cmdline_dirs hi (e # es) buf =
     (if \<not> (\<forall>c \<in> set (d_name e). is_digit c) then cmdline_dirs hi es buf
      else
        bind_out (atoi (d_name e)) (\<lambda>pid.
        case cmdline e of
          None \<Rightarrow> Val (-1)
        | Some s \<Rightarrow>
            bind_out (cmdline_loop hi s (length (d_name e)) 0 buf) (\<lambda>(found, buf).
            if found then Val pid else cmdline_dirs hi es buf)))"

definition get_light_proc_pid :: "int \<Rightarrow> dirent list option \<Rightarrow> char list \<Rightarrow> int outcome" where
  "get_light_proc_pid hi proc_dir buf =
     (case proc_dir of None \<Rightarrow> Val (-1) | Some es \<Rightarrow> cmdline_dirs hi es buf)"

section \<open>Lemmas\<close>

text \<open>A status file as the kernel writes it: the name of the command on the first line.\<close>

definition process :: "nat \<Rightarrow> string \<Rightarrow> string \<Rightarrow> dirent \<Rightarrow> bool" where
  "process pid comm rest e \<longleftrightarrow>
     d_name e = show_nat pid \<and> pid < 2 ^ 31 \<and> status e = Some (''Name:'' @ [CHR 0x09] @ comm @ [LF] @ rest) \<and>
     wordy comm \<and> comm \<noteq> [] \<and> NUL \<notin> set comm \<and> length comm < 16"

lemma scan_int_show_nat_end: "scan_int (show_nat n) = (Some (int n), [])"
proof -
  obtain d ds where d: "show_nat n = d # ds" using show_nat_nonempty [of n] by (cases "show_nat n") auto
  then have "is_digit d" using show_nat_digits [of n] by simp
  note nd = is_digit_not_space [OF this]
  have "takeWhile is_digit (show_nat n) = show_nat n"
    using show_nat_digits by (simp add: takeWhile_eq_all_conv)
  then show ?thesis
    using nd digits_val_show_nat [of n] skip_ws_show_nat [of n "[]"] by (simp add: scan_int_def Let_def d)
qed

lemma atoi_show_nat: "n < 2 ^ 31 \<Longrightarrow> atoi (show_nat n) = Val (int n)"
proof -
  assume "n < 2 ^ 31"
  then have "int n < 2 ^ 31" by simp
  then show ?thesis by (simp add: atoi_def scan_int_show_nat_end as_int_def)
qed

lemma fgets_line:
  "LF \<notin> set line \<Longrightarrow> length line + 1 < n \<Longrightarrow> fgets n (line @ LF # rest) = Some (line @ [LF], rest)"
proof -
  assume a: "LF \<notin> set line" "length line + 1 < n"
  have "takeWhile (\<lambda>c. c \<noteq> LF) (line @ LF # rest) = line" using a(1) by (intro takeWhile_wordy_append) auto
  then show ?thesis using a(2) by (simp add: fgets_def Let_def)
qed

lemma status_loop_process:
  assumes "process pid comm rest e"
  shows "\<exists>s. status e = Some s \<and>
    status_loop name s tmps = Val (comm = name, Some ''Name:'', Some comm)"
proof -
  let ?line = "''Name:'' @ [CHR 0x09] @ comm"
  have e: "status e = Some (?line @ LF # rest)" "wordy comm" "comm \<noteq> []" "NUL \<notin> set comm" "length comm < 16"
    using assms by (auto simp: process_def)
  have "LF \<notin> set ?line" using e(2) by auto
  moreover have "length ?line + 1 < BUF_SIZE" using e(5) by (simp add: BUF_SIZE_def)
  ultimately have line: "fgets BUF_SIZE (?line @ LF # rest) = Some (?line @ [LF], rest)" by (rule fgets_line)
  have "c_str (?line @ [LF]) = ?line @ [LF]" using e(4) by simp
  moreover have "scan_str None (?line @ [LF]) = Some (''Name:'', CHR 0x09 # comm @ [LF])"
    by (rule scan_str_word) (simp_all add: c_isspace_def)
  moreover have "scan_str None (CHR 0x09 # comm @ [LF]) = Some (comm, [LF])"
    using e(2,3) by (intro scan_str_word) (simp_all add: c_isspace_def [of "CHR 0x09"] skip_ws_wordy)
  ultimately have "scan_pair (?line @ [LF]) tmps = Val (Some ''Name:'', Some comm)"
    using e(5) by (simp add: scan_pair_def BUF_SIZE_def)
  with line e(1) show ?thesis by (subst status_loop.simps) simp
qed

lemma dir_loop_first:
  "\<forall>e \<in> set es. (\<exists>c \<in> set (d_name e). \<not> is_digit c) \<or> (\<exists>rest. process (pid e) (comm e) rest e) \<Longrightarrow>
   dir_loop name es tmps =
     Val (case filter (\<lambda>e. (\<forall>c \<in> set (d_name e). is_digit c) \<and> comm e = name) es of
            [] \<Rightarrow> -1 | e # _ \<Rightarrow> int (pid e))"
proof (induction es arbitrary: tmps)
  case (Cons e es)
  show ?case
  proof (cases "\<forall>c \<in> set (d_name e). is_digit c")
    case False
    with Cons show ?thesis by auto
  next
    case True
    then obtain rest where p: "process (pid e) (comm e) rest e" using Cons.prems by auto
    from status_loop_process [OF p, of name tmps] obtain s where
      s: "status e = Some s" "status_loop name s tmps = Val (comm e = name, Some ''Name:'', Some (comm e))" by blast
    have "atoi (d_name e) = Val (int (pid e))" using p atoi_show_nat by (simp add: process_def)
    with s True Cons show ?thesis by auto
  qed
qed simp

text \<open>
  C27: looking a process up. In a directory of processes whose status files start with the
  name, with any entries beside them whose names are not all digits, the result is the number
  of the first process in the order of the directory that has the name, or \<open>-1\<close> if none has.
\<close>

theorem get_process_id_first:
  assumes "\<forall>e \<in> set es. (\<exists>c \<in> set (d_name e). \<not> is_digit c) \<or> (\<exists>rest. process (pid e) (comm e) rest e)"
  shows "get_process_id (Some es) name =
    Val (case filter (\<lambda>e. (\<forall>c \<in> set (d_name e). is_digit c) \<and> comm e = name) es of
           [] \<Rightarrow> -1 | e # _ \<Rightarrow> int (pid e))"
  using dir_loop_first [OF assms] by (simp add: get_process_id_def)

theorem get_process_id_first_witness:
  "get_process_id (Some
     [\<lparr>d_name = ''self'', status = None, cmdline = None\<rparr>,
      \<lparr>d_name = ''12'', status = Some (''Name:'' @ [CHR 0x09] @ ''sh'' @ [LF] @ ''Pid: 12'' @ [LF]), cmdline = None\<rparr>,
      \<lparr>d_name = ''34'', status = Some (''Name:'' @ [CHR 0x09] @ ''ultrasonic'' @ [LF]), cmdline = None\<rparr>])
     ''ultrasonic'' = Val 34"
proof -
  let ?sh = "\<lparr>d_name = ''12'', status = Some (''Name:'' @ [CHR 0x09] @ ''sh'' @ [LF] @ ''Pid: 12'' @ [LF]),
      cmdline = None\<rparr>"
  let ?us = "\<lparr>d_name = ''34'', status = Some (''Name:'' @ [CHR 0x09] @ ''ultrasonic'' @ [LF] @ []), cmdline = None\<rparr>"
  let ?pid = "\<lambda>e. if d_name e = ''12'' then 12 else 34"
  let ?comm = "\<lambda>e. if d_name e = ''12'' then ''sh'' else ''ultrasonic''"
  have show_nat: "show_nat 12 = ''12''" "show_nat 34 = ''34''" by code_simp+
  have "process 12 ''sh'' (''Pid: 12'' @ [LF]) ?sh" "process 34 ''ultrasonic'' [] ?us"
    unfolding process_def show_nat by (simp_all add: c_isspace_def)
  then have "\<forall>e \<in> set [\<lparr>d_name = ''self'', status = None, cmdline = None\<rparr>, ?sh, ?us].
      (\<exists>c \<in> set (d_name e). \<not> is_digit c) \<or> (\<exists>rest. process (?pid e) (?comm e) rest e)"
    by (auto simp: is_digit_def)
  from get_process_id_first [OF this, of "''ultrasonic''"] show ?thesis
    by (simp add: is_digit_def)
qed

end
