(* ===== verification/Bright.thy ===== *)
theory Bright
  imports Procfs Schedule_Menu
begin

text \<open>
  \<open>studysys/bright_control.c\<close>: the brightness of the lamp for each subject in
  \<open>light_bright_info.txt\<close>, the menu that changes it, the messages to the process that controls
  the lamp and the question for the study time. The brightness file, like the schedule, is
  its contents or \<open>None\<close>; \<open>env\<close> and the input are those of the schedule menu.
\<close>

section \<open>The brightness file\<close>

record subject =
  subj_name :: string
  bright :: int

text \<open>
  \<open>fscanf(fp, "%s%d", subject.name, &subject.bright)\<close>: the number of conversions, what was
  converted, the rest. A name of 20 bytes or more overflows.
\<close>

definition scan_bright :: "string \<Rightarrow> (int \<times> subject \<times> string) outcome" where
  "scan_bright s =
     (case scan_str None s of
        None \<Rightarrow> Val (-1, \<lparr>subj_name = [], bright = 0\<rparr>, [])
      | Some (w, t) \<Rightarrow>
          if 20 \<le> length w then Undefined OutOfBounds
          else
            (case scan_int t of
               (None, u) \<Rightarrow> Val (1, \<lparr>subj_name = c_str w, bright = 0\<rparr>, u)
             | (Some v, u) \<Rightarrow>
                 bind_out (as_int v) (\<lambda>v. Val (2, \<lparr>subj_name = c_str w, bright = v\<rparr>, u))))"

lemma scan_bright_shrinks: "scan_bright s = Val (k, r, t) \<Longrightarrow> k = 2 \<Longrightarrow> length t < length s"
  by (fastforce simp: scan_bright_def bind_out_Val_iff split: option.splits if_splits prod.splits
      dest: scan_str_shrinks scan_int_shrinks)

function bright_loop :: "string \<Rightarrow> string \<Rightarrow> int outcome" where
  "bright_loop subject_name s =
     bind_out (scan_bright s) (\<lambda>(k, r, t).
     if k = 2 then
       (if strcmp subject_name (subj_name r) = 0 then Val (bright r) else bright_loop subject_name t)
     else Val (-1))"
  by pat_completeness auto
termination
  by (relation "measure (\<lambda>(nm, s). length s)") (auto dest: scan_bright_shrinks)

declare bright_loop.simps [simp del]

definition get_subject_bright :: "string option \<Rightarrow> string \<Rightarrow> int outcome" where
  "get_subject_bright file subject_name =
     (case file of None \<Rightarrow> Val (-1) | Some s \<Rightarrow> bright_loop subject_name s)"

section \<open>Changing a subject\<close>

text \<open>\<open>scanf("%d", &v)\<close> with the result ignored: the variable keeps what it held.\<close>

definition scan_num :: "int option \<Rightarrow> string \<Rightarrow> (int option \<times> string) outcome" where
  "scan_num old s =
     (case scan_int s of
        (None, t) \<Rightarrow> Val (old, t)
      | (Some v, t) \<Rightarrow> bind_out (as_int v) (\<lambda>v. Val (Some v, t)))"

text \<open>\<open>sub_str\<close> has ten rows, of which five are set.\<close>

definition sub_str :: "string option list" where
  "sub_str = map Some [''Korean'', ''Math'', ''English'', ''Science'', ''History''] @ replicate 5 None"

definition bright_line :: "string \<Rightarrow> int \<Rightarrow> string" where
  "bright_line nm b = pad_right 20 nm @ '' '' @ show_int0 3 b @ [LF]"

text \<open>Printing at offset \<open>pos\<close> of a file opened with \<open>"r+"\<close>.\<close>

definition overwrite_at :: "nat \<Rightarrow> string \<Rightarrow> string \<Rightarrow> string" where
  "overwrite_at pos new old = take pos old @ new @ drop (pos + length new) old"

text \<open>
  The loop over the lines, \<open>pos\<close> the offset of the next one. The input that \<open>sscanf\<close> cannot
  read makes the program exit; the new line is printed over the end of the one just read.
\<close>

function change_bright_loop ::
  "env \<Rightarrow> int \<Rightarrow> int \<Rightarrow> nat \<Rightarrow> string \<Rightarrow> string \<Rightarrow> string \<Rightarrow> (int \<times> string \<times> string) outcome"
where
  "change_bright_loop v subject_no i pos lines file s =
     (case fgets BUF_SIZE lines of
        None \<Rightarrow> Val (-1, file, s)
      | Some (buf, rest) \<Rightarrow>
          if i \<noteq> subject_no
          then change_bright_loop v subject_no (i + 1) (pos + length buf) rest file s
          else
            bind_out (scan_bright (c_str buf)) (\<lambda>(k, subject, u).
            if k \<noteq> 2 then Exits 1
            else
              bind_out (scan_num None s) (\<lambda>(new_bright, s).
              bind_out (array_get sub_str i) (\<lambda>nm.
              case (nm, new_bright) of
                (Some nm, Some b) \<Rightarrow>
                  (let file = overwrite_at (pos + length buf - length (c_str buf)) (bright_line nm b) file in
                   bind_out (wait_key v s) (\<lambda>s. Val (0, file, s)))
              | _ \<Rightarrow> Undefined Unset))))"
  by pat_completeness auto
termination
  by (relation "measure (\<lambda>(v, no, i, pos, lines, file, s). length lines)")
    (auto simp: BUF_SIZE_def dest: fgets_shrinks)

declare change_bright_loop.simps [simp del]

definition change_subject_bright ::
  "env \<Rightarrow> int \<Rightarrow> string option \<Rightarrow> string \<Rightarrow> (int \<times> string option \<times> string) outcome"
where
  "change_subject_bright v subject_no file s =
     (case file of
        None \<Rightarrow> Val (-1, file, s)
      | Some c \<Rightarrow>
          bind_out (change_bright_loop v subject_no 0 0 c c s) (\<lambda>(r, c, s). Val (r, Some c, s)))"

text \<open>
  The selection: the numbered list of the lines, then a number. The list is shown, a line
  that \<open>sscanf\<close> cannot read makes the program exit.
\<close>

function list_bright :: "string \<Rightarrow> subject list outcome" where
  "list_bright lines =
     (case fgets BUF_SIZE lines of
        None \<Rightarrow> Val []
      | Some (buf, rest) \<Rightarrow>
          bind_out (scan_bright (c_str buf)) (\<lambda>(k, subject, u).
          if k \<noteq> 2 then Exits 1 else bind_out (list_bright rest) (\<lambda>rs. Val (subject # rs))))"
  by pat_completeness auto
termination
  by (relation "measure length") (auto simp: BUF_SIZE_def dest: fgets_shrinks)

declare list_bright.simps [simp del]

definition select_subject_to_change_bright ::
  "env \<Rightarrow> string option \<Rightarrow> string \<Rightarrow> (int \<times> subject list \<times> string option \<times> string) outcome"
where
  "select_subject_to_change_bright v file s =
     (case file of
        None \<Rightarrow> Val (-1, [], file, s)
      | Some c \<Rightarrow>
          bind_out (list_bright c) (\<lambda>rows.
          bind_out (scan_num None s) (\<lambda>(num, s).
          case num of
            None \<Rightarrow> Undefined Unset
          | Some n \<Rightarrow>
              bind_out (as_int (n - 1)) (\<lambda>no.
              bind_out (change_subject_bright v no file s) (\<lambda>(r, file, s).
              Val (0, rows, file, s))))))"

section \<open>The lamp and the clock\<close>

text \<open>
  What the calls that talk to other processes meet: whether the fifo exists and can be made
  and opened, the processes, and what a read of the other fifo brings (\<open>None\<close>: it fails).
\<close>

record peers =
  fifo_exists :: bool
  mkfifo_works :: bool
  procs :: "dirent list option"
  fifo_opens :: bool
  fifo_read :: "string option"

text \<open>\<open>set_current_light_bright\<close>: a signal to the process, then the text through the fifo.\<close>

definition set_current_light_bright ::
  "peers \<Rightarrow> env \<Rightarrow> string \<Rightarrow> (int \<times> (int \<times> string) list \<times> string) outcome"
where
  "set_current_light_bright w v s =
     (if \<not> fifo_exists w \<and> \<not> mkfifo_works w then Exits 1
      else
        bind_out (get_process_id (procs w) ''esp_lightWifiBu'') (\<lambda>light_pid.
        if light_pid < 0 then Exits 1
        else
          bind_out (scan_word 20 s) (\<lambda>(buf, s).
          if \<not> fifo_opens w then Exits 1
          else
            (case buf of
               None \<Rightarrow> Undefined Unset
             | Some text \<Rightarrow> bind_out (wait_key v s) (\<lambda>s. Val (0, [(light_pid, text)], s))))))"

text \<open>\<open>get_total_min\<close>: twenty bytes may arrive, and the terminator is stored behind them.\<close>

definition get_total_min :: "peers \<Rightarrow> int outcome" where
  "get_total_min w =
     bind_out (get_process_id (procs w) ''ultrasonic'') (\<lambda>pid.
     if pid < 0 then Val (-1)
     else if \<not> fifo_opens w then Exits 1
     else
       (case fifo_read w of
          None \<Rightarrow> Val (-1)
        | Some got \<Rightarrow>
            (let got = take 20 got in
             bind_out (array_put (got @ replicate (20 - length got) NUL) (int (length got)) NUL) (\<lambda>buf.
             atoi (c_str buf)))))"

text \<open>
  One round of the menu: the value returned, if it returns, and what the next round starts
  from. \<open>scanf\<close> leaves what is no number in the input, and \<open>num\<close> as it was. \<open>w\<close> gives the peers
  of each round.
\<close>

definition bright_round ::
  "(string \<Rightarrow> peers) \<Rightarrow> env \<Rightarrow> int option \<Rightarrow> string option \<Rightarrow> string \<Rightarrow>
   (int option \<times> int option \<times> string option \<times> string) outcome"
where
  "bright_round w v num file s =
     bind_out (scan_num num s) (\<lambda>(num, s).
     case num of
       None \<Rightarrow> Undefined Unset
     | Some n \<Rightarrow>
         if n = 1 then
           bind_out (select_subject_to_change_bright v file s) (\<lambda>(r, rows, file, s).
           Val (if r < 0 then Some (-1) else None, num, file, s))
         else if n = 2 then
           bind_out (set_current_light_bright (w s) v s) (\<lambda>(r, msgs, s).
           Val (if r < 0 then Some (-1) else None, num, file, s))
         else Val (if n = 3 then Some 0 else None, num, file, s))"

text \<open>The menu may run for ever: \<open>None\<close> is a call that does not return.\<close>

partial_function (option) select_bright_menu ::
  "(string \<Rightarrow> peers) \<Rightarrow> env \<Rightarrow> int option \<Rightarrow> string option \<Rightarrow> string \<Rightarrow>
   (int \<times> string option \<times> string) outcome option"
where
  "select_bright_menu w v num file s =
     (case bright_round w v num file s of
        Val (ret, num, file, s) \<Rightarrow>
          (case ret of
             Some r \<Rightarrow> Some (Val (r, file, s))
           | None \<Rightarrow> select_bright_menu w v num file s)
      | Undefined u \<Rightarrow> Some (Undefined u) | Hangs \<Rightarrow> Some Hangs
      | Exits k \<Rightarrow> Some (Exits k) | Aborts \<Rightarrow> Some Aborts)"

text \<open>A call that returns, by the rounds it took.\<close>

lemma select_bright_induct:
  assumes run: "select_bright_menu w v num file s = Some y"
    and last: "\<And>num file s y. (case bright_round w v num file s of
        Val (ret, num', file', s') \<Rightarrow> \<exists>r. ret = Some r \<and> y = Val (r, file', s')
      | Undefined u \<Rightarrow> y = Undefined u | Hangs \<Rightarrow> y = Hangs | Exits k \<Rightarrow> y = Exits k | Aborts \<Rightarrow> y = Aborts) \<Longrightarrow>
      P num file s y"
    and again: "\<And>num file s num' file' s' y. bright_round w v num file s = Val (None, num', file', s') \<Longrightarrow>
      P num' file' s' y \<Longrightarrow> P num file s y"
  shows "P num file s y"
proof -
  have "w' = w \<longrightarrow> v' = v \<longrightarrow> P num file s y" if "select_bright_menu w' v' num file s = Some y" for w' v' num "file" s y
  proof (rule select_bright_menu.raw_induct [OF _ that, where P = "\<lambda>w' v' num file s y. w' = w \<longrightarrow> v' = v \<longrightarrow> P num file s y"],
      intro impI)
    fix f w' v' num "file" s y
    assume IH: "\<And>w' v' num file s y. f w' v' num file s = Some y \<Longrightarrow> w' = w \<longrightarrow> v' = v \<longrightarrow> P num file s y"
      and one: "(case bright_round w' v' num file s of
        Val (ret, num, file, s) \<Rightarrow>
          (case ret of
             Some r \<Rightarrow> Some (Val (r, file, s))
           | None \<Rightarrow> f w' v' num file s)
      | Undefined u \<Rightarrow> Some (Undefined u) | Hangs \<Rightarrow> Some Hangs
      | Exits k \<Rightarrow> Some (Exits k) | Aborts \<Rightarrow> Some Aborts) = Some y"
      and args: "w' = w" "v' = v"
    show "P num file s y"
    proof (cases "\<exists>num' file' s'. bright_round w v num file s = Val (None, num', file', s')")
      case True
      with one args IH again show ?thesis by fastforce
    next
      case False
      with one args show ?thesis
        by (intro last) (auto split: outcome.splits option.splits)
    qed
  qed
  with run show ?thesis by blast
qed

section \<open>Lines of the brightness file\<close>

lemma digits_val_zeros: "digits_val (replicate k (CHR ''0'') @ ds) = digits_val ds"
proof -
  have "foldl (\<lambda>v c. 10 * v + digit_val c) 0 (replicate k (CHR ''0'')) = 0"
    by (induction k) (simp_all add: digit_val_def)
  then show ?thesis by (simp add: digits_val_def)
qed

text \<open>A number as \<open>%0Nd\<close> prints it, read back.\<close>

lemma takeWhile_digits:
  "\<forall>c \<in> set ds. is_digit c \<Longrightarrow> t = [] \<or> \<not> is_digit (hd t) \<Longrightarrow> takeWhile is_digit (ds @ t) = ds"
  by (induction ds) (cases t, auto)

lemma scan_int_digits:
  assumes ds: "\<forall>c \<in> set ds. is_digit c" "ds \<noteq> []" and t: "t = [] \<or> \<not> is_digit (hd t)"
  shows "skip_ws s = ds @ t \<Longrightarrow> scan_int s = (Some (digits_val ds), t)"
    and "skip_ws s = CHR ''-'' # ds @ t \<Longrightarrow> scan_int s = (Some (- digits_val ds), t)"
proof -
  note take = takeWhile_digits [OF ds(1) t]
  obtain d es where d: "ds = d # es" using ds(2) by (cases ds) auto
  then have "d \<noteq> CHR ''-''" "d \<noteq> CHR ''+''" using ds(1) is_digit_not_space [of d] by auto
  with take d show "skip_ws s = ds @ t \<Longrightarrow> scan_int s = (Some (digits_val ds), t)"
    by (auto simp: scan_int_def Let_def simp del: takeWhile.simps)
  from take d show "skip_ws s = CHR ''-'' # ds @ t \<Longrightarrow> scan_int s = (Some (- digits_val ds), t)"
    by (auto simp: scan_int_def Let_def simp del: takeWhile.simps)
qed

lemma show_int0_parts:
  "\<exists>ds. show_int0 w v = (if v < 0 then ''-'' else []) @ ds \<and> (\<forall>c \<in> set ds. is_digit c) \<and> ds \<noteq> [] \<and>
     digits_val ds = \<bar>v\<bar>"
proof -
  let ?k = "w - length (if v < 0 then ''-'' else []) - length (show_nat (nat \<bar>v\<bar>))"
  let ?ds = "replicate ?k (CHR ''0'') @ show_nat (nat \<bar>v\<bar>)"
  have "show_int0 w v = (if v < 0 then ''-'' else []) @ ?ds" by (simp add: show_int0_def Let_def)
  moreover have "\<forall>c \<in> set ?ds. is_digit c" using show_nat_digits by (auto simp: is_digit_def)
  moreover have "?ds \<noteq> []" using show_nat_nonempty by simp
  moreover have "digits_val ?ds = \<bar>v\<bar>" by (simp add: digits_val_zeros digits_val_show_nat)
  ultimately show ?thesis by blast
qed

lemma skip_ws_show_int0: "skip_ws (show_int0 w v @ t) = show_int0 w v @ t"
proof -
  obtain ds where ds: "show_int0 w v = (if v < 0 then ''-'' else []) @ ds" "\<forall>c \<in> set ds. is_digit c" "ds \<noteq> []"
    using show_int0_parts by blast
  then obtain d es where "ds = d # es" "\<not> c_isspace d" using is_digit_not_space by (cases ds) auto
  with ds show ?thesis by (simp add: c_isspace_def [of "CHR ''-''"])
qed

lemma scan_int_show_int0:
  assumes "skip_ws s = show_int0 w v @ t" "t = [] \<or> \<not> is_digit (hd t)"
  shows "scan_int s = (Some v, t)"
proof -
  obtain ds where ds: "show_int0 w v = (if v < 0 then ''-'' else []) @ ds" "\<forall>c \<in> set ds. is_digit c" "ds \<noteq> []"
    "digits_val ds = \<bar>v\<bar>" using show_int0_parts by blast
  from scan_int_digits [OF ds(2,3) assms(2), of s] assms(1) ds(1,4) show ?thesis
    by (auto split: if_splits)
qed

definition subject_line :: "subject \<Rightarrow> string" where
  "subject_line r = bright_line (subj_name r) (bright r)"

definition scan_subject :: "string \<Rightarrow> (subject \<times> string) option" where
  "scan_subject s =
     (case scan_bright s of Val (k, r, t) \<Rightarrow> if k = 2 then Some (r, t) else None | _ \<Rightarrow> None)"

definition subject_ok :: "subject \<Rightarrow> bool" where
  "subject_ok r \<longleftrightarrow>
     typed (subj_name r) \<and> length (subj_name r) < 20 \<and> - (2 ^ 31) \<le> bright r \<and> bright r < 2 ^ 31"

lemma skip_ws_pad_right: "typed w \<Longrightarrow> skip_ws (pad_right n w @ t) = w @ replicate (n - length w) (CHR '' '') @ t"
  by (simp add: pad_right_def typed_def skip_ws_wordy)

lemma scan_bright_line:
  assumes "subject_ok r" "skip_ws s = skip_ws (subject_line r @ t)"
  shows "scan_bright s = Val (2, r, LF # t)"
proof -
  let ?rest = "show_int0 3 (bright r) @ LF # t"
  let ?sp = "replicate (20 - length (subj_name r)) (CHR '' '') @ '' ''"
  have ok: "typed (subj_name r)" "length (subj_name r) < 20" "as_int (bright r) = Val (bright r)"
    using assms(1) by (simp_all add: subject_ok_def as_int_def)
  obtain k where k: "?sp = CHR '' '' # replicate k (CHR '' '')"
    using ok(2) by (metis Suc_diff_Suc replicate_append_same replicate_Suc)
  have "skip_ws s = subj_name r @ ?sp @ ?rest"
    using assms(2) ok(1) by (simp add: subject_line_def bright_line_def skip_ws_pad_right)
  then have "skip_ws s = subj_name r @ CHR '' '' # replicate k (CHR '' '') @ ?rest" using k by simp
  then have 1: "scan_str None s = Some (subj_name r, CHR '' '' # replicate k (CHR '' '') @ ?rest)"
    using ok(1) by (intro scan_str_word) (auto simp: typed_def)
  have "scan_int (CHR '' '' # replicate k (CHR '' '') @ ?rest) = (Some (bright r), LF # t)"
    by (rule scan_int_show_int0) (simp_all add: skip_ws_show_int0 is_digit_def)
  with 1 ok show ?thesis by (simp add: scan_bright_def typed_def)
qed

interpretation bright_codec: record_codec subject_line scan_subject subject_ok
proof
  fix r t assume "subject_ok r"
  from scan_bright_line [OF this refl] have "scan_subject (subject_line r @ t) = Some (r, LF # t)"
    by (simp add: scan_subject_def)
  then show "\<exists>t'. scan_subject (subject_line r @ t) = Some (r, t') \<and> skip_ws t' = skip_ws t" by simp
next
  fix s t :: string assume "skip_ws s = skip_ws t"
  then show "scan_subject s = scan_subject t" by (simp add: scan_subject_def scan_bright_def scan_str_def)
next
  fix s :: string assume "skip_ws s = []"
  then show "scan_subject s = None" by (simp add: scan_subject_def scan_bright_def scan_str_def)
next
  fix s r t assume "scan_subject s = Some (r, t)"
  then show "length t < length s"
    by (auto simp: scan_subject_def split: outcome.splits if_splits dest: scan_bright_shrinks)
qed

lemma bright_loop_records:
  "bright_loop nm s = Val b \<Longrightarrow>
     b = (case filter (\<lambda>r. subj_name r = nm) (records scan_subject s) of [] \<Rightarrow> -1 | r # _ \<Rightarrow> bright r)"
proof (induction nm s rule: bright_loop.induct)
  case (1 nm s)
  from "1.prems" obtain k r t where k: "scan_bright s = Val (k, r, t)"
    by (subst (asm) bright_loop.simps) (auto simp: bind_out_Val_iff)
  show ?case
  proof (cases "k = 2")
    case False
    with k have "scan_subject s = None" by (simp add: scan_subject_def)
    then have "records scan_subject s = []" by (subst records.simps) simp
    with "1.prems" k False show ?thesis by (subst (asm) bright_loop.simps) simp
  next
    case True
    with k have "scan_subject s = Some (r, t)" by (simp add: scan_subject_def)
    then have rec: "records scan_subject s = r # records scan_subject t" by (rule bright_codec.records_Cons)
    show ?thesis
    proof (cases "subj_name r = nm")
      case same: True
      with "1.prems" k True rec show ?thesis by (subst (asm) bright_loop.simps) simp
    next
      case False
      then have ne: "nm \<noteq> subj_name r" by simp
      with "1.prems" k True have "bright_loop nm t = Val b" by (subst (asm) bright_loop.simps) simp
      with "1.IH" [OF k refl refl True] ne rec False show ?thesis by simp
    qed
  qed
qed

lemma bright_loop_lines:
  "\<forall>r \<in> set rs. subject_ok r \<Longrightarrow> skip_ws s = skip_ws (concat (map subject_line rs)) \<Longrightarrow>
   bright_loop nm s = Val (case filter (\<lambda>r. subj_name r = nm) rs of [] \<Rightarrow> -1 | r # _ \<Rightarrow> bright r)"
proof (induction rs arbitrary: s)
  case Nil
  then have "scan_str None s = None" by (simp add: scan_str_None)
  then show ?case by (subst bright_loop.simps) (simp add: scan_bright_def)
next
  case (Cons r rs)
  from scan_bright_line [of r s "concat (map subject_line rs)"] Cons.prems
  have "scan_bright s = Val (2, r, LF # concat (map subject_line rs))" by simp
  with Cons show ?case by (subst bright_loop.simps) auto
qed

section \<open>Lines of 25 bytes\<close>

text \<open>The records for which the program's fixed line length is right.\<close>

definition tidy :: "subject \<Rightarrow> bool" where
  "tidy r \<longleftrightarrow> subject_ok r \<and> 0 \<le> bright r \<and> bright r < 1000"

lemma length_show_int0_3:
  assumes "0 \<le> v" "v < 1000"
  shows "length (show_int0 3 v) = 3"
proof -
  let ?n = "nat v"
  have "?n div 10 div 10 < 10" using assms by linarith
  then have "length (show_nat ?n) \<le> 3"
    by (simp add: show_nat.simps [of ?n] show_nat.simps [of "?n div 10"] show_nat.simps [of "?n div 10 div 10"])
  with assms show ?thesis by (simp add: show_int0_def Let_def)
qed

lemma show_int0_chars: "c \<in> set (show_int0 w v) \<Longrightarrow> c = CHR ''-'' \<or> is_digit c"
  using show_int0_parts [of w v] by (auto split: if_splits)

lemma subject_line_tidy:
  assumes "tidy r"
  shows "length (subject_line r) = 25" "fgets BUF_SIZE (subject_line r @ t) = Some (subject_line r, t)"
    "c_str (subject_line r) = subject_line r"
proof -
  have r: "typed (subj_name r)" "length (subj_name r) < 20" "length (show_int0 3 (bright r)) = 3"
    using assms length_show_int0_3 by (auto simp: tidy_def subject_ok_def)
  let ?body = "pad_right 20 (subj_name r) @ '' '' @ show_int0 3 (bright r)"
  have line: "subject_line r = ?body @ [LF]" by (simp add: subject_line_def bright_line_def)
  show "length (subject_line r) = 25" using r by (simp add: line pad_right_def)
  have chars: "c \<noteq> LF \<and> c \<noteq> NUL" if "c \<in> set (show_int0 3 (bright r))" for c
    using show_int0_chars [OF that] by (auto simp: is_digit_def)
  have "LF \<notin> set ?body" using r(1) typed_LF chars by (auto simp: pad_right_def)
  then show "fgets BUF_SIZE (subject_line r @ t) = Some (subject_line r, t)"
    using fgets_line [of ?body BUF_SIZE t] r by (simp add: line BUF_SIZE_def pad_right_def)
  have "NUL \<notin> set (subject_line r)" using r(1) chars by (auto simp: line typed_def pad_right_def)
  then show "c_str (subject_line r) = subject_line r" by simp
qed

lemma length_tidy_lines: "\<forall>r \<in> set rs. tidy r \<Longrightarrow> length (concat (map subject_line rs)) = 25 * length rs"
  by (induction rs) (simp_all add: subject_line_tidy)

lemma change_bright_skip:
  "i \<le> k \<Longrightarrow> k \<le> length rs \<Longrightarrow> \<forall>r \<in> set rs. tidy r \<Longrightarrow>
   change_bright_loop v (int k) (int i) (25 * i) (concat (map subject_line (drop i rs))) c s =
   change_bright_loop v (int k) (int k) (25 * k) (concat (map subject_line (drop k rs))) c s"
proof (induction "k - i" arbitrary: i)
  case (Suc l)
  then have i: "i < k" "l = k - Suc i" "Suc i \<le> k" "i < length rs" by simp_all
  have drop: "drop i rs = rs ! i # drop (Suc i) rs" using i by (simp add: Cons_nth_drop_Suc)
  have "tidy (rs ! i)" using Suc.prems(3) i by simp
  note line = subject_line_tidy [OF this]
  have "change_bright_loop v (int k) (int i) (25 * i) (concat (map subject_line (drop i rs))) c s =
      change_bright_loop v (int k) (int (Suc i)) (25 * Suc i) (concat (map subject_line (drop (Suc i) rs))) c s"
    using i line by (subst change_bright_loop.simps) (simp add: drop int_plus_1 add.commute [of _ 25] del: of_nat_Suc)
  with Suc.hyps(1) [OF i(2,3)] Suc.prems show ?case by simp
qed simp

lemma overwrite_line:
  assumes "\<forall>r \<in> set rs. tidy r" "k < length rs" "tidy r"
  shows "overwrite_at (25 * k) (subject_line r) (concat (map subject_line rs)) =
    concat (map subject_line (rs[k := r]))"
proof -
  have "rs = take k rs @ rs ! k # drop (Suc k) rs" using assms(2) by (rule id_take_nth_drop)
  then have lines: "concat (map subject_line rs) =
      concat (map subject_line (take k rs)) @ subject_line (rs ! k) @ concat (map subject_line (drop (Suc k) rs))"
    by (metis concat_append concat.simps(2) list.simps(9) map_append)
  have "tidy (rs ! k)" using assms by simp
  then have len: "length (subject_line (rs ! k)) = 25" "length (subject_line r) = 25"
    "length (concat (map subject_line (take k rs))) = 25 * k"
    using subject_line_tidy(1) assms length_tidy_lines [of "take k rs"] by (auto dest: in_set_takeD)
  show ?thesis
    using assms(2) by (simp add: overwrite_at_def lines len upd_conv_take_nth_drop)
qed

lemma sub_str_names:
  "k < 5 \<Longrightarrow> sub_str ! k = Some nm \<Longrightarrow> typed nm \<and> length nm < 20"
proof -
  assume k: "k < 5" "sub_str ! k = Some nm"
  then have "k = 0 \<or> k = 1 \<or> k = 2 \<or> k = 3 \<or> k = 4" by auto
  with k(2) show "typed nm \<and> length nm < 20" by (auto simp: sub_str_def typed_def c_isspace_def)
qed

lemma change_bright_run:
  assumes rs: "\<forall>r \<in> set rs. tidy r" "k < length rs" and nm: "sub_str ! k = Some nm" "k < 5"
    and b: "b < 1000"
  shows "change_subject_bright v (int k) (Some (concat (map subject_line rs))) (show_nat b @ [LF] @ rest) =
    Val (0, Some (concat (map subject_line (rs[k := \<lparr>subj_name = nm, bright = int b\<rparr>]))), getch (ahead v) rest)"
proof -
  let ?r = "\<lparr>subj_name = nm, bright = int b\<rparr>" and ?c = "concat (map subject_line rs)"
  have tidy: "tidy ?r" using sub_str_names [OF nm(2,1)] b by (simp add: tidy_def subject_ok_def)
  have drop: "drop k rs = rs ! k # drop (Suc k) rs" using rs(2) by (simp add: Cons_nth_drop_Suc)
  have k: "tidy (rs ! k)" using rs by simp
  note line = subject_line_tidy [OF k]
  have scan: "scan_bright (subject_line (rs ! k)) = Val (2, rs ! k, [LF])"
    using scan_bright_line [of "rs ! k" "subject_line (rs ! k)" "[]"] k by (simp add: tidy_def)
  have "scan_int (show_nat b @ LF # rest) = (Some (int b), LF # rest)"
    by (rule scan_int_show_nat) (simp_all add: skip_ws_show_nat is_digit_def)
  then have num: "scan_num None (show_nat b @ LF # rest) = Val (Some (int b), LF # rest)"
    using b by (simp add: scan_num_def as_int_def)
  have get: "array_get sub_str (int k) = Val (Some nm)"
    using nm by (simp add: sub_str_def)
  have "change_bright_loop v (int k) 0 0 ?c ?c (show_nat b @ [LF] @ rest) =
      change_bright_loop v (int k) (int k) (25 * k) (concat (map subject_line (drop k rs))) ?c (show_nat b @ [LF] @ rest)"
    using change_bright_skip [of 0 k rs v ?c] rs by simp
  also have "\<dots> = Val (0, overwrite_at (25 * k) (subject_line ?r) ?c, getch (ahead v) rest)"
    using line scan num get
    by (subst change_bright_loop.simps)
      (simp add: drop Let_def wait_key_line subject_line_def [of ?r])
  finally show ?thesis
    using overwrite_line [OF rs tidy] by (simp add: change_subject_bright_def)
qed

section \<open>Properties\<close>

text \<open>
  The brightness of a subject. Whatever the file holds, if \<open>get_subject_bright\<close> returns,
  it returns the brightness of the first record with the name, or \<open>-1\<close> if the records at the
  front of the file have none.
\<close>

lemma get_subject_bright_first:
  assumes "get_subject_bright (Some file) nm = Val b"
  shows "b = (case filter (\<lambda>r. subj_name r = nm) (records scan_subject file) of [] \<Rightarrow> -1 | r # _ \<Rightarrow> bright r)"
  using bright_loop_records [of nm "file" b] assms unfolding get_subject_bright_def by simp

text \<open>
  C25: changing the brightness of one of the five subjects. On a file of 25-byte lines, with
  the number of a line and a new value of at most three digits typed, exactly that line is
  replaced, by the built-in name of that number and the value; asking for that name then
  gives the value, unless an earlier line has the same name.
\<close>

theorem change_bright_get:
  assumes "\<forall>r \<in> set rs. tidy r" "k < length rs" "sub_str ! k = Some nm" "k < 5" "b < 1000"
    and "rs' = rs[k := \<lparr>subj_name = nm, bright = int b\<rparr>]"
  shows "change_subject_bright v (int k) (Some (concat (map subject_line rs))) (show_nat b @ [LF] @ rest) =
      Val (0, Some (concat (map subject_line rs')), getch (ahead v) rest) \<and>
    ((\<forall>j < k. subj_name (rs ! j) \<noteq> nm) \<longrightarrow>
      get_subject_bright (Some (concat (map subject_line rs'))) nm = Val (int b))"
proof (intro conjI impI)
  show "change_subject_bright v (int k) (Some (concat (map subject_line rs))) (show_nat b @ [LF] @ rest) =
      Val (0, Some (concat (map subject_line rs')), getch (ahead v) rest)"
    using change_bright_run [OF assms(1-5)] assms(6) by simp
next
  assume before: "\<forall>j < k. subj_name (rs ! j) \<noteq> nm"
  let ?r = "\<lparr>subj_name = nm, bright = int b\<rparr>"
  have "subject_ok ?r" using sub_str_names [OF assms(4,3)] assms(5) by (simp add: subject_ok_def)
  then have ok: "\<forall>r \<in> set rs'. subject_ok r"
    using assms(1) by (auto simp: assms(6) tidy_def dest!: subsetD [OF set_update_subset_insert])
  have "filter (\<lambda>r. subj_name r = nm) (take k rs) = []"
    using before assms(2) by (fastforce simp: filter_empty_conv in_set_conv_nth)
  then have "filter (\<lambda>r. subj_name r = nm) rs' = ?r # filter (\<lambda>r. subj_name r = nm) (drop (Suc k) rs)"
    using assms(2) by (simp add: assms(6) upd_conv_take_nth_drop)
  then show "get_subject_bright (Some (concat (map subject_line rs'))) nm = Val (int b)"
    using bright_loop_lines [OF ok refl, of nm] by (simp add: get_subject_bright_def)
qed

theorem change_bright_get_witness:
  "change_subject_bright calm 1 (Some (bright_line ''Korean'' 100 @ bright_line ''Math'' 75)) (''60'' @ [LF] @ ''x'') =
     Val (0, Some (bright_line ''Korean'' 100 @ bright_line ''Math'' 60), []) \<and>
   get_subject_bright (Some (bright_line ''Korean'' 100 @ bright_line ''Math'' 60)) ''Math'' = Val 60"
proof -
  let ?rs = "[\<lparr>subj_name = ''Korean'', bright = 100\<rparr>, \<lparr>subj_name = ''Math'', bright = 75\<rparr>]"
  have "\<forall>r \<in> set ?rs. tidy r" by (simp add: tidy_def subject_ok_def typed_def c_isspace_def)
  moreover have "show_nat 60 = ''60''" by code_simp
  ultimately show ?thesis
    using change_bright_get [of ?rs 1 "''Math''" 60 _ calm "''x''"]
    by (simp add: sub_str_def subject_line_def getch_def)
qed

text \<open>The file of the repository, \<open>light_bright_info.txt\<close>.\<close>

definition repo_file :: string where
  "repo_file =
     ''Korean               100'' @ [LF] @ ''Math                 075'' @ [LF] @
     ''English              050 '' @ [LF] @ ''Science              025'' @ [LF] @
     ''History              002'' @ [LF]"

text \<open>
  The file of the repository is not of that kind. Its third line has 26 bytes, so after
  changing English through the menu a blank line is left, at which the next visit to the menu
  makes the program exit. A value of four digits does the like to the line after it: the
  subject Math is lost when Korean is set to 1000.
\<close>

lemma repo_file_breaks:
  "(case select_subject_to_change_bright small (Some repo_file) (''3'' @ [LF] @ ''60'' @ [LF]) of
      Val (r, rows, file, s) \<Rightarrow>
        r = 0 \<and> map bright rows = [100, 75, 50, 25, 2] \<and>
        select_subject_to_change_bright small file ''1'' = Exits 1
    | _ \<Rightarrow> False) \<and>
   (case select_subject_to_change_bright small (Some repo_file) (''1'' @ [LF] @ ''1000'' @ [LF]) of
      Val (r, rows, file, s) \<Rightarrow>
        r = 0 \<and> get_subject_bright file ''Math'' = Val (-1) \<and> get_subject_bright file ''ath'' = Val 75
    | _ \<Rightarrow> False)"
  by (intro conjI) code_simp+

lemma scan_num_stuck:
  assumes "skip_ws s = c # t" "\<not> is_digit c" "c \<noteq> CHR ''-''" "c \<noteq> CHR ''+''"
  shows "scan_num old s = Val (old, c # t)"
  using assms by (simp add: scan_num_def scan_int_def Let_def)

lemma bright_menu_word:
  assumes "n \<notin> {1, 2, 3}" "skip_ws s = c # t" "\<not> is_digit c" "c \<noteq> CHR ''-''" "c \<noteq> CHR ''+''"
  shows "select_bright_menu w v (Some n) file s = None"
proof -
  have stuck: "bright_round w v (Some n) file u = Val (None, Some n, file, c # t)" if "skip_ws u = c # t" for u "file"
    using scan_num_stuck [OF that assms(3-5)] assms(1) by (simp add: bright_round_def)
  have "\<not> (num = Some n \<and> skip_ws s = c # t)" if "select_bright_menu w v num file s = Some y" for num "file" s y
    using that
  proof (rule select_bright_induct)
    fix num "file" s num' file' s' y
    assume "bright_round w v num file s = Val (None, num', file', s')"
      and "\<not> (num' = Some n \<and> skip_ws s' = c # t)"
    then show "\<not> (num = Some n \<and> skip_ws s = c # t)" using stuck [of s "file"] skip_ws_idem [of s] by auto
  qed (use stuck in auto)
  with assms(2) show ?thesis by (cases "select_bright_menu w v (Some n) file s") auto
qed

text \<open>
  C39: a word at the brightness menu hangs the program. Once a number was read that is not on
  the menu, input that does not start with a number is never consumed and the menu goes round
  for ever.
\<close>

theorem bright_menu_hangs:
  assumes "n \<notin> {1, 2, 3}" "skip_ws s = c # t" "\<not> is_digit c" "c \<noteq> CHR ''-''" "c \<noteq> CHR ''+''"
  shows "select_bright_menu w v (Some n) file s = None"
  by (rule bright_menu_word [OF assms])

definition nobody :: peers where
  "nobody = \<lparr>fifo_exists = False, mkfifo_works = False, procs = None, fifo_opens = False, fifo_read = None\<rparr>"

theorem bright_menu_hangs_witness:
  "select_bright_menu (\<lambda>s. nobody) calm None None (''0'' @ [LF] @ ''light'') = None"
proof -
  have "bright_round (\<lambda>s. nobody) calm None None (''0'' @ [LF] @ ''light'') = Val (None, Some 0, None, LF # ''light'')"
    by code_simp
  then have "select_bright_menu (\<lambda>s. nobody) calm None None (''0'' @ [LF] @ ''light'') =
      select_bright_menu (\<lambda>s. nobody) calm (Some 0) None (LF # ''light'')"
    by (subst select_bright_menu.simps) simp
  then show ?thesis
    using bright_menu_hangs [of 0 "LF # ''light''" "CHR ''l''" "''ight''" "\<lambda>s. nobody" calm None]
    by (simp add: c_isspace_def is_digit_def)
qed

end
