(* ===== verification/Ultrasonic.thy ===== *)
theory Ultrasonic
  imports Procfs "HOL-Library.Signed_Division"
begin

text \<open>
  \<open>ultrasonic_wave/ultrasonic_wave.c\<close>: the process that measures the distance to the pupil,
  is to decide from ten samples whether somebody is studying, to switch the lamp and the study
  system and to keep the study time, which a signal asks for. Its array holds ten samples and
  the decision comes with the eleventh, so it never gets there.

  A run is a sequence of events: a round of the sampling loop, or the signal handler between
  two rounds. What the sensor, the clock, \<open>fork\<close> and \<open>fopen\<close> answer is part of the event.
\<close>

section \<open>State and events\<close>

definition STUDYING_NUM :: nat where "STUDYING_NUM = 10"

datatype effect = Light int string | Study_system int | Killed int | Minutes string

record ultra =
  studying_arr :: "int list"
  samples :: nat
  is_studying :: int
  light_pid :: int
  child_pid :: int
  tv_start :: int
  tv_end :: int
  total_sec :: int
  effects :: "effect list"

record sample =
  travel_time :: int
  s_now :: int
  s_fifo :: bool
  s_fork :: int

record query =
  q_end :: int
  q_start :: int
  q_fifo :: bool

datatype event = Sample sample | Query query

section \<open>Operations\<close>

text \<open>The program's own copy of the process lookup has the text of the other one.\<close>

definition ultra_get_process_id :: "dirent list option \<Rightarrow> string \<Rightarrow> int outcome" where
  "ultra_get_process_id proc_dir proc_name = get_process_id proc_dir proc_name"

text \<open>A message to the lamp: \<open>kill\<close> is not checked, so a pid of \<open>-1\<close> means every process.\<close>

definition send_sigusr1_and_fifo :: "bool \<Rightarrow> string \<Rightarrow> ultra \<Rightarrow> ultra outcome" where
  "send_sigusr1_and_fifo fifo msg st =
     (if fifo then Val (st\<lparr>effects := effects st @ [Light (light_pid st) msg]\<rparr>) else Exits 1)"

text \<open>\<open>total_sec += tv_end.tv_sec - tv_start.tv_sec\<close>, in 32 bits.\<close>

definition add_elapsed :: "ultra \<Rightarrow> ultra outcome" where
  "add_elapsed st =
     bind_out (as_int (tv_end st - tv_start st)) (\<lambda>d.
     bind_out (as_int (total_sec st + d)) (\<lambda>t. Val (st\<lparr>total_sec := t\<rparr>)))"

text \<open>
  Somebody is studying. After \<open>fork\<close> only the parent is followed: the child becomes the study
  system, or exits with 0.
\<close>

definition switch_on :: "sample \<Rightarrow> ultra \<Rightarrow> ultra outcome" where
  "switch_on sm st =
     bind_out (send_sigusr1_and_fifo (s_fifo sm) ''ON'' st) (\<lambda>st.
     if s_fork sm < 0 then Exits 1
     else if s_fork sm = 0 then Exits 0
     else Val (st\<lparr>child_pid := s_fork sm, tv_start := s_now sm,
                  effects := effects st @ [Study_system (s_fork sm)]\<rparr>))"

definition switch_off :: "sample \<Rightarrow> ultra \<Rightarrow> ultra outcome" where
  "switch_off sm st =
     bind_out (send_sigusr1_and_fifo (s_fifo sm) ''OFF'' st) (\<lambda>st.
     add_elapsed (st\<lparr>tv_end := s_now sm, effects := effects st @ [Killed (child_pid st)]\<rparr>))"

definition distance :: "sample \<Rightarrow> int" where
  "distance sm = travel_time sm sdiv 58"

text \<open>One round: the sample is stored first, at index \<open>cnt\<close>, whatever \<open>cnt\<close> is.\<close>

definition sense :: "sample \<Rightarrow> ultra \<Rightarrow> ultra outcome" where
  "sense sm st =
     bind_out (array_put (studying_arr st) (int (samples st)) (if distance sm < 80 then 1 else 0)) (\<lambda>a.
     let st = st\<lparr>studying_arr := a\<rparr> in
     if STUDYING_NUM \<le> samples st then
       (if int (STUDYING_NUM div 2) \<le> sum_list (take STUDYING_NUM a)
        then
          bind_out (if is_studying st = 0 then switch_on sm st else Val st) (\<lambda>st.
          Val (st\<lparr>is_studying := 1, samples := 0\<rparr>))
        else
          bind_out (if is_studying st = 1 then switch_off sm st else Val st) (\<lambda>st.
          Val (st\<lparr>is_studying := 0, samples := 0\<rparr>)))
     else Val (st\<lparr>samples := samples st + 1\<rparr>))"

definition sigusr1_handler :: "query \<Rightarrow> ultra \<Rightarrow> ultra outcome" where
  "sigusr1_handler q st =
     (if \<not> q_fifo q then Exits 1
      else
        bind_out (add_elapsed (st\<lparr>tv_end := q_end q\<rparr>)) (\<lambda>st.
        Val (st\<lparr>tv_start := q_start q,
                effects := effects st @ [Minutes (show_int0 0 (total_sec st sdiv 60))]\<rparr>)))"

primrec handle :: "event \<Rightarrow> ultra \<Rightarrow> ultra outcome" where
  "handle (Sample sm) st = sense sm st"
| "handle (Query q) st = sigusr1_handler q st"

primrec run_events :: "event list \<Rightarrow> ultra \<Rightarrow> ultra outcome" where
  "run_events [] st = Val st"
| "run_events (e # es) st = bind_out (handle e st) (run_events es)"

text \<open>The start: the fifos, the lamp's process, the board. The array has exactly ten elements.\<close>

record boot =
  fifos_ok :: bool
  proc_dir :: "dirent list option"
  wiring :: int

definition ultra_init :: "int \<Rightarrow> ultra" where
  "ultra_init pid =
     \<lparr>studying_arr = replicate STUDYING_NUM 0, samples = 0, is_studying = 0, light_pid = pid,
      child_pid = 0, tv_start = 0, tv_end = 0, total_sec = 0, effects = []\<rparr>"

definition ultra_main :: "boot \<Rightarrow> event list \<Rightarrow> ultra outcome" where
  "ultra_main b es =
     (if \<not> fifos_ok b then Exits 1
      else
        bind_out (ultra_get_process_id (proc_dir b) ''esp_lightWifiBu'') (\<lambda>pid.
        if wiring b = -1 then Exits 1 else run_events es (ultra_init pid)))"

lemma run_append: "run_events (xs @ ys) st = bind_out (run_events xs st) (run_events ys)"
  by (induction xs arbitrary: st) (auto simp: outcome_simps intro!: bind_out_cong)

section \<open>Steps\<close>

inductive ultra_step :: "ultra \<Rightarrow> event \<Rightarrow> ultra \<Rightarrow> bool" where
  sampled: "sense sm st = Val st' \<Longrightarrow> ultra_step st (Sample sm) st'"
| queried: "sigusr1_handler q st = Val st' \<Longrightarrow> ultra_step st (Query q) st'"

inductive_simps step_sample [simp]: "ultra_step st (Sample sm) st'"
inductive_simps step_query [simp]: "ultra_step st (Query q) st'"

lemma ultra_step_handle: "ultra_step st e st' \<longleftrightarrow> handle e st = Val st'"
  by (cases e) auto

inductive reachable :: "ultra \<Rightarrow> ultra \<Rightarrow> bool" for st0 where
  start: "reachable st0 st0"
| step: "reachable st0 st \<Longrightarrow> ultra_step st e st' \<Longrightarrow> reachable st0 st'"

lemma run_events_reachable: "run_events es st = Val st' \<Longrightarrow> reachable st0 st \<Longrightarrow> reachable st0 st'"
proof (induction es arbitrary: st)
  case (Cons e es)
  then obtain st1 where "handle e st = Val st1" "run_events es st1 = Val st'" by (auto simp: bind_out_Val_iff)
  with Cons reachable.step [of st0 st e st1] ultra_step_handle show ?case by blast
qed simp

text \<open>What the handler does.\<close>

lemma handler_effect:
  assumes "sigusr1_handler q st = Val st'"
  shows "total_sec st' = total_sec st + (q_end q - tv_start st)" "tv_start st' = q_start q"
    "effects st' = effects st @ [Minutes (show_int0 0 (total_sec st' sdiv 60))]"
    "is_studying st' = is_studying st" "samples st' = samples st" "studying_arr st' = studying_arr st"
  using assms
  by (auto simp: sigusr1_handler_def add_elapsed_def as_int_def bind_out_Val_iff split: if_splits)

section \<open>Collecting ten samples\<close>

definition near :: "sample \<Rightarrow> int" where
  "near sm = (if distance sm < 80 then 1 else 0)"

lemma collect_run:
  "samples st + length sms \<le> STUDYING_NUM \<Longrightarrow> STUDYING_NUM \<le> length (studying_arr st) \<Longrightarrow>
   run_events (map Sample sms) st =
     Val (st\<lparr>studying_arr := take (samples st) (studying_arr st) @ map near sms @
              drop (samples st + length sms) (studying_arr st),
            samples := samples st + length sms\<rparr>)"
proof (induction sms arbitrary: st)
  case (Cons sm sms)
  let ?i = "samples st" and ?a = "studying_arr st"
  let ?st = "st\<lparr>studying_arr := ?a[?i := near sm], samples := ?i + 1\<rparr>"
  have i: "?i < STUDYING_NUM" "?i < length ?a" using Cons.prems by auto
  then have "sense sm st = Val ?st" by (simp add: sense_def near_def Let_def)
  moreover have "take (Suc ?i) (?a[?i := near sm]) = take ?i ?a @ [near sm]"
    using i by (simp add: take_Suc_conv_app_nth)
  ultimately show ?case using Cons.IH [of ?st] Cons.prems i by simp
qed simp

section \<open>From the start\<close>

text \<open>
  With an array of ten the eleventh store leaves it, so no round ever reaches a decision:
  a round either collects a sample or is undefined.
\<close>

lemma sense_ten:
  assumes "length (studying_arr st) = 10" "samples st \<le> 10"
  shows "sense sm st =
    (if samples st < 10 then Val (st\<lparr>studying_arr := (studying_arr st)[samples st := near sm],
                                    samples := samples st + 1\<rparr>)
     else Undefined OutOfBounds)"
  using assms by (simp add: sense_def near_def Let_def STUDYING_NUM_def array_put_def)

definition undecided :: "ultra \<Rightarrow> bool" where
  "undecided st \<longleftrightarrow> length (studying_arr st) = 10 \<and> samples st \<le> 10 \<and> is_studying st = 0 \<and>
     (\<forall>e \<in> set (effects st). \<exists>m. e = Minutes m)"

lemma undecided_init: "undecided (ultra_init pid)"
  by (simp add: undecided_def ultra_init_def STUDYING_NUM_def)

lemma undecided_step: "undecided st \<Longrightarrow> ultra_step st e st' \<Longrightarrow> undecided st'"
proof (cases e)
  case (Sample sm)
  assume "undecided st" "ultra_step st e st'"
  with Sample sense_ten [of st sm] show ?thesis by (auto simp: undecided_def split: if_splits)
next
  case (Query q)
  assume "undecided st" "ultra_step st e st'"
  with Query have q: "undecided st" "sigusr1_handler q st = Val st'" by auto
  with handler_effect [OF q(2)] show ?thesis by (auto simp: undecided_def)
qed

text \<open>The questions and the samples of a run, and how the process is after them.\<close>

fun asked :: "event list \<Rightarrow> query list" where
  "asked [] = []"
| "asked (Query q # es) = q # asked es"
| "asked (Sample sm # es) = asked es"

fun sampled :: "event list \<Rightarrow> sample list" where
  "sampled [] = []"
| "sampled (Query q # es) = sampled es"
| "sampled (Sample sm # es) = sm # sampled es"

text \<open>A question that is answered, with both readings of the clock in one second.\<close>

definition prompt :: "query \<Rightarrow> bool" where
  "prompt q \<longleftrightarrow> q_fifo q \<and> q_start q = q_end q \<and> 0 \<le> q_end q \<and> q_end q < 2 ^ 31"

definition since_epoch :: "query \<Rightarrow> effect" where
  "since_epoch q = Minutes (show_int0 0 (q_end q sdiv 60))"

lemma handler_prompt:
  assumes "prompt q" "total_sec st = tv_start st" "0 \<le> tv_start st" "tv_start st < 2 ^ 31"
  shows "sigusr1_handler q st =
    Val (st\<lparr>tv_end := q_end q, total_sec := q_end q, tv_start := q_end q,
            effects := effects st @ [since_epoch q]\<rparr>)"
  using assms
  by (simp add: sigusr1_handler_def add_elapsed_def as_int_def prompt_def since_epoch_def)

lemma run_epoch:
  assumes "length (studying_arr st) = 10" "samples st \<le> 10" "is_studying st = 0"
    and "total_sec st = tv_start st" "0 \<le> tv_start st" "tv_start st < 2 ^ 31" "\<forall>q \<in> set (asked es). prompt q"
  shows "if samples st + length (sampled es) \<le> 10
    then \<exists>st'. run_events es st = Val st' \<and> samples st' = samples st + length (sampled es) \<and>
      is_studying st' = 0 \<and> effects st' = effects st @ map since_epoch (asked es)
    else run_events es st = Undefined OutOfBounds"
  using assms
proof (induction es arbitrary: st)
  case (Cons e es)
  show ?case
  proof (cases e)
    case (Sample sm)
    let ?st = "st\<lparr>studying_arr := (studying_arr st)[samples st := near sm], samples := samples st + 1\<rparr>"
    note run = sense_ten [OF Cons.prems(1,2), of sm]
    show ?thesis using Cons.IH [of ?st] Cons.prems run Sample by (cases "samples st < 10") auto
  next
    case (Query q)
    let ?st = "st\<lparr>tv_end := q_end q, total_sec := q_end q, tv_start := q_end q,
      effects := effects st @ [since_epoch q]\<rparr>"
    have "prompt q" using Cons.prems(7) Query by simp
    with handler_prompt [OF this Cons.prems(4-6)] Cons.IH [of ?st] Cons.prems Query show ?thesis
      by (auto simp: prompt_def)
  qed
qed simp

section \<open>Properties\<close>

text \<open>
  C31: the process writes past its array. From the start, ten rounds are in bounds; the
  eleventh stores at index 10 of an array of ten, whatever was measured.
\<close>

theorem ultra_overflow:
  "run_events (map Sample sms) (ultra_init pid) =
     (if length sms \<le> 10
      then Val ((ultra_init pid)\<lparr>studying_arr := map near sms @ replicate (10 - length sms) 0,
                                    samples := length sms\<rparr>)
      else Undefined OutOfBounds)"
proof (cases "length sms \<le> 10")
  case True
  with collect_run [of "ultra_init pid" sms] show ?thesis
    by (simp add: ultra_init_def STUDYING_NUM_def)
next
  case False
  then obtain sm rest where split: "drop 10 sms = sm # rest" by (cases "drop 10 sms") auto
  let ?st = "(ultra_init pid)\<lparr>studying_arr := map near (take 10 sms), samples := 10\<rparr>"
  have "run_events (map Sample (take 10 sms)) (ultra_init pid) = Val ?st"
    using collect_run [of "ultra_init pid" "take 10 sms"] False
    by (simp add: ultra_init_def STUDYING_NUM_def min_absorb2)
  moreover have "sense sm ?st = Undefined OutOfBounds"
    using False by (simp add: sense_def array_put_def min_absorb2)
  moreover have "map Sample sms = map Sample (take 10 sms) @ Sample sm # map Sample rest"
    using split by (metis append_take_drop_id list.simps(9) map_append)
  ultimately show ?thesis using False by (simp add: run_append)
qed

theorem ultra_overflow_witness:
  "run_events (map Sample (replicate 11 \<lparr>travel_time = 580, s_now = 0, s_fifo = True, s_fork = 7\<rparr>))
     (ultra_init 5) = Undefined OutOfBounds"
  using ultra_overflow [of "replicate 11 \<lparr>travel_time = 580, s_now = 0, s_fifo = True, s_fork = 7\<rparr>" 5]
  by simp



text \<open>
  C17: a whole run of the program. However samples and questions follow each other, with at
  most ten samples every question is answered with the minutes since 1970, because
  \<open>tv_start\<close> was never set, and an eleventh sample writes behind the array.
\<close>

theorem ultra_epoch:
  assumes "fifos_ok b" "get_process_id (proc_dir b) ''esp_lightWifiBu'' = Val pid" "wiring b \<noteq> -1"
    and "\<forall>q \<in> set (asked es). prompt q"
  shows "if length (sampled es) \<le> 10
    then \<exists>st. ultra_main b es = Val st \<and> samples st = length (sampled es) \<and> is_studying st = 0 \<and>
      effects st = map (\<lambda>q. Minutes (show_int0 0 (q_end q sdiv 60))) (asked es)
    else ultra_main b es = Undefined OutOfBounds"
proof -
  have start: "length (studying_arr (ultra_init pid)) = 10" "samples (ultra_init pid) = 0"
    "is_studying (ultra_init pid) = 0" "total_sec (ultra_init pid) = 0" "tv_start (ultra_init pid) = 0"
    "effects (ultra_init pid) = []"
    by (simp_all add: ultra_init_def STUDYING_NUM_def)
  moreover have "ultra_main b es = run_events es (ultra_init pid)"
    using assms(1-3) by (simp add: ultra_main_def ultra_get_process_id_def)
  ultimately show ?thesis
    using run_epoch [of "ultra_init pid" es] assms(4) by (auto simp: since_epoch_def)
qed

theorem ultra_epoch_witness:
  "\<exists>st. ultra_main \<lparr>fifos_ok = True, proc_dir = Some [], wiring = 0\<rparr>
      [Query \<lparr>q_end = 600, q_start = 600, q_fifo = True\<rparr>,
       Sample \<lparr>travel_time = 580, s_now = 0, s_fifo = True, s_fork = 7\<rparr>,
       Query \<lparr>q_end = 1260, q_start = 1260, q_fifo = True\<rparr>] = Val st \<and>
    effects st = [Minutes ''10'', Minutes ''21'']"
proof -
  let ?b = "\<lparr>fifos_ok = True, proc_dir = Some [], wiring = 0\<rparr>"
  have "get_process_id (proc_dir ?b) ''esp_lightWifiBu'' = Val (-1)" by code_simp
  moreover have "show_int0 0 (600 sdiv 60) = ''10''" "show_int0 0 (1260 sdiv 60) = ''21''" by code_simp+
  ultimately show ?thesis
    using ultra_epoch [of ?b "-1" "[Query \<lparr>q_end = 600, q_start = 600, q_fifo = True\<rparr>,
       Sample \<lparr>travel_time = 580, s_now = 0, s_fifo = True, s_fork = 7\<rparr>,
       Query \<lparr>q_end = 1260, q_start = 1260, q_fifo = True\<rparr>]"] by (auto simp: prompt_def)
qed

end
