(* ===== verification/Mesh.thy ===== *)
theory Mesh
  imports Recognizer Overview Bright Ultrasonic
begin

text \<open>
  The parts of the system together: what one device's recognizer sends, another device's
  receiver files and its screen shows; the study time that the sensor process keeps, as the
  study system asks for it and reports it; and the way of a subject from the keyboard to the
  report.
\<close>

section \<open>From one device to the screen of another\<close>

text \<open>What \<open>%lu\<close> shows of the 32 bits sent is the same on both targets.\<close>

lemma as_ulong_time_of_u32: "as_ulong a (time_of_u32 a w) = unat w"
proof (cases a)
  case ILP32
  have "sint w mod 2 ^ 32 = uint w" using uint_sint [of w] by (simp add: take_bit_eq_mod)
  with ILP32 show ?thesis by (simp add: as_ulong_def time_of_u32_def)
next
  case LP64
  have "uint w < 2 ^ 32" using uint_lt2p [of w] by simp
  with LP64 show ?thesis by (simp add: as_ulong_def time_of_u32_def)
qed

lemma receive_report:
  assumes b: "rx_ok st" and q: "packet_ok q" "cstring (pkt_name q) = Val s"
    and k: "pkt_index q = of_nat k" "1 \<le> k" "k \<le> 4"
  obtains st' r where "receive a (Datagram (packet_bytes q)) t st = Val st'" "infos st' = (infos st)[k := r]"
    "rx_time r = t" "info_time r = time_of_u32 a (ntohl (pkt_time q))" "c_str (subject_name r) = s"
proof -
  have whole: "recvfrom (Datagram (packet_bytes q)) (rcv_packet st) = q"
    using q(1) b by (subst recvfrom_whole) (auto simp: rx_ok_def)
  have idx: "unat (pkt_index q) = k" using k by (simp add: unat_of_nat)
  then have "acceptable q" using k q(2) by (auto simp: acceptable_def cstring_Val_iff)
  with receive_packet [OF b whole, of a t] idx obtain r where
    r: "receive a (Datagram (packet_bytes q)) t st =
        Val (st\<lparr>rcv_packet := q, rcv_info := r, infos := (infos st)[k := r]\<rparr>)" "reports a q t r" by auto
  from r(2) q(2) have "c_str (subject_name r) = s"
    by (auto simp: reports_def cstring_def c_str_def split: if_splits)
  with r that show ?thesis by (auto simp: reports_def)
qed

lemma screen_shows:
  assumes t: "table_ok a t" and k: "1 \<le> k" "k \<le> 4" and cur: "10 < cur" "cur \<le> rx_time (t ! k) + 10"
    and key: "wait_key v s = Val u"
  shows "\<exists>pre post. print_other_infos a v cur (\<lambda>i. t) s =
    Val (other_heading @ pre @ entry_row a k (t ! k) @ post, u)"
proof -
  have "k = 1 \<or> k = 2 \<or> k = 3 \<or> k = 4" using k by auto
  then have "k \<in> set (recent cur (\<lambda>i. t))" using cur(2) by (auto simp: recent_def)
  then obtain xs ys where "recent cur (\<lambda>i. t) = xs @ k # ys" by (auto dest: split_list)
  moreover have "\<forall>i < 256. table_ok a t" using t by simp
  ultimately show ?thesis using overview_run [of a "\<lambda>i. t" cur v s u] cur(1) key by auto
qed
text \<open>
  C2: the mesh, end to end. A device with index \<open>k\<close> finds its neighbours and sends each its
  report. A neighbour that gets the packet at time \<open>t\<close> files it, and for the next ten
  seconds its screen has the line with the sender's address, the subject that is current for
  the sender, and its study time modulo \<open>2 ^ 32\<close> - so \<open>-1\<close>, the sensor process not being
  there, shows as 4294967295 minutes.
\<close>

theorem mesh_report:
  assumes st: "rec_ok st" and due: "retrieve_time st + delay_time st \<le> r_check r"
    and fds: "open_fds (rec_proc st) + 2 \<le> fd_max (rec_proc st)" "fork_res (r_spawn r) = InParent pid"
    and h: "ascii h1" "ascii h2" "LF \<notin> set h1" "LF \<notin> set h2"
    and rows: "\<forall>w \<in> set rows. row_ok w \<and> mac2ip (addr w) \<noteq> None"
    and out: "pipe_chars (batctl_out (r_spawn r)) = print_batctl h1 h2 rows"
      "pipe_end (batctl_out (r_spawn r)) = 0"
    and own: "own_ok ((r_world r)\<lparr>self_idx := rec_idx st, scheds := rec_scheds st\<rparr>) es"
    and k: "rec_idx st = of_nat k" "1 \<le> k" "k \<le> 4"
    and to: "w \<in> set (take 256 rows)" "mac2ip (addr w) = Some dest"
    and b: "rx_ok stb" "table_ok a (infos stb)" "clock_ok a t"
    and screen: "10 < cur" "cur \<le> t + 10" "wait_key v inp = Val rest"
  shows "\<exists>st' ms bs stb' now s pre post.
    recognize sc r st = Val (Running, st', [(r_send r, ms)]) \<and> (dest, bs) \<in> set ms \<and>
    now_time (clock (r_world r)) = Val now \<and> current es now s \<and>
    receive a (Datagram bs) t stb = Val stb' \<and>
    print_other_infos a v cur (\<lambda>i. infos stb') inp =
      Val (other_heading @ pre @
        device_row k s (nat ((case total_min (r_world r) of Some m \<Rightarrow> m | None \<Rightarrow> 10) mod 2 ^ 32)) @ post,
        rest)"
proof -
  let ?m = "case total_min (r_world r) of Some m \<Rightarrow> m | None \<Rightarrow> 10"
  from recognize_sends [OF st due fds h rows out own, of sc] obtain now s q st' where
    sent: "now_time (clock (r_world r)) = Val now" "current es now s"
      "recognize sc r st = Val (Running, st',
        [(r_send r, map (\<lambda>w. (the (mac2ip (addr w)), packet_bytes q)) (take 256 rows))])"
    and q: "packet_ok q" "pkt_index q = ucast (rec_idx st)" "cstring (pkt_name q) = Val s"
      "ntohl (pkt_time q) = word_of_int ?m" by blast
  have "k = 1 \<or> k = 2 \<or> k = 3 \<or> k = 4" using k(2,3) by auto
  then have "pkt_index q = of_nat k" using q(2) k(1) by auto
  from receive_report [OF b(1) q(1,3) this k(2,3), of a t] q(4) obtain stb' i where
    got: "receive a (Datagram (packet_bytes q)) t stb = Val stb'" "infos stb' = (infos stb)[k := i]"
      "rx_time i = t" "info_time i = time_of_u32 a (word_of_int ?m)" "c_str (subject_name i) = s" by metis
  have "int (length (infos stb)) = DEVINFO_MAX" using b(2) by (simp add: table_ok_def)
  then have entry: "infos stb' ! k = i" using got(2) k by (simp add: DEVINFO_MAX_def)
  have "entry_row a k i = device_row k s (nat (?m mod 2 ^ 32))"
    using got(4,5) by (simp add: entry_row_def as_ulong_time_of_u32 unat_eq_nat_uint uint_word_of_int)
  with screen_shows [OF receive_table_ok [OF b got(1)] k(2,3) screen(1) _ screen(3)] entry got(3) screen(2)
  obtain pre post where "print_other_infos a v cur (\<lambda>i. infos stb') inp =
      Val (other_heading @ pre @ device_row k s (nat (?m mod 2 ^ 32)) @ post, rest)" by auto
  moreover have "(dest, packet_bytes q) \<in>
      set (map (\<lambda>w. (the (mac2ip (addr w)), packet_bytes q)) (take 256 rows))" using to by force
  ultimately show ?thesis using sent got(1) by blast
qed
definition fresh_rx :: rx where
  "fresh_rx =
     \<lparr>rcv_packet = \<lparr>pkt_index = 0, pkt_pad = [1, 2, 3], pkt_time = 0, pkt_name = replicate 20 (CHR ''x'')\<rparr>,
      rcv_info = blank_info, infos = replicate 256 blank_info\<rparr>"

lemma fresh_rx_ok: "rx_ok fresh_rx" "table_ok a (infos fresh_rx)"
proof -
  show "table_ok a (infos fresh_rx)" by (simp add: fresh_rx_def)
  show "rx_ok fresh_rx"
    by (simp add: fresh_rx_def rx_ok_def packet_ok_def info_ok_def blank_info_def SUBJECT_NAME_MAX_def
        DEVINFO_MAX_def)
qed

theorem mesh_report_witness:
  "\<exists>st' ms bs stb' pre post.
     recognize True
       (sample_round 100 101
         [Bytes (''head'' @ [LF] @ ''IF'' @ [LF] @ ''  wlan0 90:9f:33:ec:04:8a 0.190s'' @ [LF])])
       sample_recog = Val (Running, st', [(101, ms)]) \<and>
     (''192.168.2.1'', bs) \<in> set ms \<and> receive ILP32 (Datagram bs) 102 fresh_rx = Val stb' \<and>
     print_other_infos ILP32 calm 105 (\<lambda>i. infos stb') [LF] =
       Val (other_heading @ pre @ device_row 3 ''NOTHING'' 10 @ post, [])"
proof -
  let ?r = "sample_round 100 101
      [Bytes (''head'' @ [LF] @ ''IF'' @ [LF] @ ''  wlan0 90:9f:33:ec:04:8a 0.190s'' @ [LF])]"
  let ?w = "BatRow ''  '' ''wlan0'' '' '' ''90:9f:33:ec:04:8a'' '' 0.190s''"
  have own: "own_ok ((r_world ?r)\<lparr>self_idx := rec_idx sample_recog, scheds := rec_scheds sample_recog\<rparr>) []"
    by (simp add: own_ok_def tm_ok_def sample_round_def sample_recog_def sample_world_def)
  have key: "wait_key calm [LF] = Val []" by code_simp
  have clock: "clock_ok ILP32 102" by (simp add: clock_ok_def as_time_def)
  show ?thesis
    using mesh_report [OF sample_recog_ok _ _ _ _ _ _ _ _ _ _ own _ _ _ _ _ fresh_rx_ok clock _ _ key,
        of 77 "''head''" "''IF''" "[?w]" 3 ?w "''192.168.2.1''" 105 True]
    by (simp add: row_ok_def print_batctl_def print_row_def isspace_def mac2ip_def arptbl_def current_def
        sample_round_def sample_recog_def sample_world_def) blast
qed

section \<open>The study time on its way\<close>

text \<open>The text of a number of at most \<open>d\<close> digits.\<close>

lemma length_show_nat: "n < 10 ^ d \<Longrightarrow> 0 < d \<Longrightarrow> length (show_nat n) \<le> d"
proof (induction n arbitrary: d rule: show_nat.induct)
  case (1 n)
  show ?case
  proof (cases "n < 10")
    case True
    with 1(2,3) show ?thesis by (subst show_nat.simps) simp
  next
    case False
    with 1(2,3) obtain e where d: "d = Suc e" "0 < e" by (cases d; cases "d - 1") auto
    with 1(2,3) have "n div 10 < 10 ^ e" by auto
    from 1(1) [OF False this d(2)] False d(1) show ?thesis by (subst show_nat.simps) simp
  qed
qed

lemma atoi_show_int0: "as_int v = Val u \<Longrightarrow> atoi (show_int0 0 v) = Val v"
  using scan_int_show_int0 [of "show_int0 0 v" 0 v "[]"] skip_ws_show_int0 [of 0 v "[]"]
  by (auto simp: atoi_def as_int_def split: if_splits)

lemma fifo_text:
  assumes "as_int v = Val u"
  shows "length (show_int0 0 v) < 20" "NUL \<notin> set (show_int0 0 v)"
proof -
  have "nat \<bar>v\<bar> < 10 ^ 10" using assms by (auto simp: as_int_def split: if_splits)
  from length_show_nat [OF this] show "length (show_int0 0 v) < 20"
    by (auto simp: show_int0_def Let_def)
  show "NUL \<notin> set (show_int0 0 v)" using show_int0_chars [of NUL 0 v] by (auto simp: is_digit_def)
qed
lemma as_int_sdiv: "as_int v = Val u \<Longrightarrow> as_int (v sdiv 60) = Val (v sdiv 60)"
proof -
  assume "as_int v = Val u"
  then have v: "- (2 ^ 31) \<le> v" "v < 2 ^ 31" by (auto simp: as_int_def split: if_splits)
  have "v sdiv 60 = (if 0 \<le> v then v div 60 else - (- v div 60))"
    by (auto simp: signed_divide_int_def sgn_if)
  with v show ?thesis by (auto simp: as_int_def)
qed

text \<open>
  C16: the study time reaches the study system. When the sensor's handler has answered, with
  the time gone by since \<open>tv_start\<close> added, and the study system reads the text it wrote from
  the fifo, \<open>get_total_min\<close> returns exactly the whole minutes of the total.
\<close>

theorem study_time_reported:
  assumes run: "sigusr1_handler q st = Val st'"
    and w: "get_process_id (procs w) ''ultrasonic'' = Val pid" "0 \<le> pid" "fifo_opens w"
    and written: "effects st' = effects st @ [Minutes msg]" "fifo_read w = Some msg"
  shows "get_total_min w = Val ((total_sec st + (q_end q - tv_start st)) sdiv 60)"
proof -
  let ?v = "total_sec st' sdiv 60"
  have msg: "msg = show_int0 0 ?v" using handler_effect(3) [OF run] written(1) by simp
  have "as_int (total_sec st') = Val (total_sec st')"
    using run by (auto simp: sigusr1_handler_def add_elapsed_def as_int_def bind_out_Val_iff split: if_splits)
  note v = as_int_sdiv [OF this]
  note short = fifo_text [OF v]
  let ?n = "length msg"
  have "array_put (msg @ replicate (20 - ?n) NUL) (int ?n) NUL = Val (msg @ replicate (20 - ?n) NUL)"
    using short(1) by (simp add: msg array_put_int list_update_append)
      (metis diff_is_0_eq' length_replicate linorder_not_le list_update_id nth_replicate zero_less_diff)
  moreover have "c_str (msg @ replicate (20 - ?n) NUL) = msg"
    using short by (simp add: msg c_str_def takeWhile_append)
  ultimately have "get_total_min w = atoi msg"
    using w written(2) short(1) by (simp add: get_total_min_def Let_def msg)
  also have "\<dots> = Val ?v" unfolding msg by (rule atoi_show_int0 [OF v])
  finally show ?thesis using handler_effect(1) [OF run] by simp
qed
theorem study_time_reported_witness:
  "get_total_min
     \<lparr>fifo_exists = True, mkfifo_works = True,
      procs = Some [\<lparr>d_name = ''34'', status = Some (''Name:'' @ [TAB] @ ''ultrasonic'' @ [LF]), cmdline = None\<rparr>],
      fifo_opens = True, fifo_read = Some ''62''\<rparr> = Val 62"
proof -
  let ?st = "(ultra_init 7)\<lparr>total_sec := 3600, tv_start := 1000\<rparr>"
  let ?q = "\<lparr>q_end = 1130, q_start = 1130, q_fifo = True\<rparr>"
  let ?p = "\<lparr>d_name = ''34'', status = Some (''Name:'' @ [TAB] @ ''ultrasonic'' @ [LF]), cmdline = None\<rparr>"
  let ?w = "\<lparr>fifo_exists = True, mkfifo_works = True, procs = Some [?p], fifo_opens = True, fifo_read = Some ''62''\<rparr>"
  let ?st' = "?st\<lparr>tv_end := 1130, total_sec := 3730, tv_start := 1130, effects := [Minutes ''62'']\<rparr>"
  have run: "sigusr1_handler ?q ?st = Val ?st'" by code_simp
  have pid: "get_process_id (procs ?w) ''ultrasonic'' = Val 34" by code_simp
  have "effects ?st' = effects ?st @ [Minutes ''62'']" by (simp add: ultra_init_def)
  from study_time_reported [OF run pid _ _ this]
  have "get_total_min ?w = Val ((total_sec ?st + (q_end ?q - tv_start ?st)) sdiv 60)" by simp
  then show ?thesis by (simp add: signed_divide_int_def)
qed
section \<open>From the keyboard to the report\<close>

lemma own_ok_perm:
  assumes "own_ok (o1\<lparr>sched_file := Some (concat (map entry_line es))\<rparr>) es" "mset xs = mset es"
  shows "own_ok (o1\<lparr>sched_file := Some (concat (map entry_line xs))\<rparr>) xs"
proof -
  have "set xs = set es" "length xs = length es" using assms(2) mset_eq_setD mset_eq_length by auto
  with assms(1) show ?thesis by (auto simp: own_ok_def)
qed

text \<open>
  C15: what is registered is reported. When subjects are registered for a date beside the
  entries of the file, the device's next report, made from the file that registering left,
  carries the name of the subject that is current among the old and the new entries.
\<close>

theorem registered_is_reported:
  assumes d: "typed d" "length d = 6" and subs: "\<forall>p \<in> set subs. sub_ok p" "length subs < 2 ^ 31"
    and s: "s = d @ [LF] @ show_nat (length subs) @ [LF] @ concat (map sub_lines subs) @ rest"
    and es: "\<forall>e \<in> set es. sched_ok e" "file = Some (concat (map entry_line es)) \<or> file = None \<and> es = []"
    and v: "\<forall>t. can_open v ''a'' t \<and> can_open v ''r+'' t"
      "\<forall>t. roomy (stack v t) (es @ map (sub_entry d) subs)"
    and all: "all = es @ map (sub_entry d) subs"
    and own: "own_ok (o1\<lparr>sched_file := Some (concat (map entry_line all))\<rparr>) all" "info_ok info"
  shows "\<exists>file' s' info' o2 now c. register_sched v file s = Val (1, Some file', s') \<and>
    self_info (o1\<lparr>sched_file := Some file'\<rparr>) info = Val (info', o2) \<and>
    now_time (clock o1) = Val now \<and> cstring (subject_name info') = Val c \<and> current all now c"
proof -
  from register_sched_run [OF d subs s es v] obtain xs s' where
    xs: "register_sched v file s = Val (1, Some (concat (map entry_line xs)), s')" "mset xs = mset all"
    by (auto simp: all)
  let ?o = "o1\<lparr>sched_file := Some (concat (map entry_line xs))\<rparr>"
  from self_info_current [OF own_ok_perm [OF own(1) xs(2)] own(2)] obtain now c info' o2 where
    "self_info ?o info = Val (info', o2)" "now_time (clock ?o) = Val now"
    "current xs now c" "cstring (subject_name info') = Val c" by blast
  moreover have "current all now c = current xs now c"
    using mset_eq_setD [OF xs(2)] by (simp add: current_def)
  ultimately show ?thesis using xs(1) by auto
qed

theorem registered_is_reported_witness:
  "\<exists>file' s' info' o2. register_sched calm None
      (''170606'' @ [LF] @ ''1'' @ [LF] @ ''Art'' @ [LF] @ ''1500'' @ [LF]) = Val (1, Some file', s') \<and>
     self_info (sample_world\<lparr>scheds := [no_entry, no_entry], tmp_sched := [no_entry, no_entry],
        sched_time := [replicate 11 NUL], sched_file := Some file'\<rparr>) blank_info = Val (info', o2) \<and>
     cstring (subject_name info') = Val ''Art''"
proof -
  let ?e = "sub_entry ''170606'' (''Art'', ''1500'')"
  let ?o = "sample_world\<lparr>scheds := [no_entry, no_entry], tmp_sched := [no_entry, no_entry],
      sched_time := [replicate 11 NUL]\<rparr>"
  have sub: "sub_ok (''Art'', ''1500'')" "typed ''170606''" "length ''170606'' = 6"
    by (simp_all add: sub_ok_def typed_def c_isspace_def)
  have e: "dated ?e" by (simp add: dated_def sched_ok_def sub_entry_def c_isspace_def SUBJECT_NAME_MAX_def)
  then have own: "own_ok (?o\<lparr>sched_file := Some (concat (map entry_line [?e]))\<rparr>) [?e]"
    by (simp add: own_ok_def sample_world_def tm_ok_def no_entry_def sub_entry_def)
  have info: "info_ok blank_info" by (simp add: info_ok_def blank_info_def SUBJECT_NAME_MAX_def)
  have room: "roomy (stack calm t) ([] @ map (sub_entry ''170606'') [(''Art'', ''1500'')])" for t
    by (simp add: roomy_blank sub_entry_def)
  have now: "now_time (clock ?o) = Val ''1706061820''" by code_simp
  have line: "''170606'' @ [LF] @ ''1'' @ [LF] @ ''Art'' @ [LF] @ ''1500'' @ [LF] = ''170606'' @ [LF] @
      show_nat (length [(''Art'', ''1500'')]) @ [LF] @ concat (map sub_lines [(''Art'', ''1500'')]) @ []"
    by code_simp
  from registered_is_reported [OF sub(2,3) _ _ line _ _ _ _ refl _ info, of "[]" None calm ?o] sub(1) own room now
  show ?thesis by (auto simp: current_def stamp_def sub_entry_def)
qed

end
