(* ===== verification/Study_System.thy ===== *)
theory Study_System
  imports Mesh
begin

text \<open>
  The program of \<open>studysys/schedule.c\<close>: \<open>main\<close>, which starts the threads and then goes round
  its menu for ever, and the handler of \<open>SIGUSR1\<close> that ends it.

  The state of a session is the two files and the input left. What other processes and
  threads do meanwhile is an argument: \<open>w\<close> gives the peers, \<open>o1\<close> the time and the table of
  reports, when a given input is left.
\<close>

section \<open>The program\<close>

record session =
  ses_sched :: "string option"
  ses_bright :: "string option"
  ses_input :: string

record outside =
  out_peers :: "string \<Rightarrow> peers"
  out_time :: "string \<Rightarrow> int"
  out_tables :: "string \<Rightarrow> int \<Rightarrow> information list"

text \<open>
  One round of the loop in \<open>main\<close>; \<open>num\<close> in \<open>select_bright_menu\<close> is a fresh variable at every
  call. \<open>None\<close>, like \<open>Some Hangs\<close>, is a round that does not end.
\<close>

definition study_round :: "abi \<Rightarrow> env \<Rightarrow> outside \<Rightarrow> session \<Rightarrow> session outcome option" where
  "study_round a v w st =
     (case menu_sel (ses_input st) of
        Val (sel, s) \<Rightarrow>
          (if sel = 1 then
             Some (bind_out (menu_sched v (ses_sched st) s) (\<lambda>(file, s).
               Val (st\<lparr>ses_sched := file, ses_input := s\<rparr>)))
           else if sel = 2 then
             map_option (\<lambda>r. bind_out r (\<lambda>(res, file, s). Val (st\<lparr>ses_bright := file, ses_input := s\<rparr>)))
               (select_bright_menu (out_peers w) v None (ses_bright st) s)
           else if sel = 3 then
             Some (bind_out (print_other_infos a v (out_time w s) (out_tables w s) s) (\<lambda>(screen, s).
               Val (st\<lparr>ses_input := s\<rparr>)))
           else Some (Val (st\<lparr>ses_input := s\<rparr>)))
      | Undefined u \<Rightarrow> Some (Undefined u) | Hangs \<Rightarrow> Some Hangs
      | Exits k \<Rightarrow> Some (Exits k) | Aborts \<Rightarrow> Some Aborts)"

partial_function (option) main_loop ::
  "abi \<Rightarrow> env \<Rightarrow> outside \<Rightarrow> session \<Rightarrow> session outcome option"
where
  "main_loop a v w st =
     Option.bind (study_round a v w st) (\<lambda>r.
     case r of
       Val st \<Rightarrow> main_loop a v w st
     | Undefined u \<Rightarrow> Some (Undefined u) | Hangs \<Rightarrow> Some Hangs
     | Exits k \<Rightarrow> Some (Exits k) | Aborts \<Rightarrow> Some Aborts)"

definition study_main ::
  "abi \<Rightarrow> bool \<Rightarrow> ifaddr list option \<Rightarrow> threads \<Rightarrow> env \<Rightarrow> outside \<Rightarrow> session \<Rightarrow> session outcome option"
where
  "study_main a sc ifap th v w st =
     (case comm_init sc ifap th 0 of
        Val (res, idx) \<Rightarrow> if res < 0 then Some (Exits (-1)) else main_loop a v w st
      | Undefined u \<Rightarrow> Some (Undefined u) | Hangs \<Rightarrow> Some Hangs
      | Exits k \<Rightarrow> Some (Exits k) | Aborts \<Rightarrow> Some Aborts)"

text \<open>The handler: three screens a second apart, the farewell, and the end of the process.\<close>

fun countdown :: "nat \<Rightarrow> string" where
  "countdown 0 = []"
| "countdown (Suc cnt) = show_nat cnt @ '' second remain'' @ [LF] @ countdown cnt"

definition end_handler :: "int \<Rightarrow> string \<times> unit outcome" where
  "end_handler signo = (countdown 3 @ ''Bye bye'' @ [LF], Exits 1)"

section \<open>Steps of a session\<close>

inductive study_step :: "abi \<Rightarrow> env \<Rightarrow> outside \<Rightarrow> session \<Rightarrow> session \<Rightarrow> bool" for a v w where
  round: "study_round a v w st = Some (Val st') \<Longrightarrow> study_step a v w st st'"

inductive_simps study_step_iff [simp]: "study_step a v w st st'"

section \<open>What a call leaves of the input\<close>

definition rest_of :: "string \<Rightarrow> string \<Rightarrow> bool" where
  "rest_of s t \<longleftrightarrow> length t \<le> length s \<and> set t \<subseteq> set s"

lemma rest_of_refl [simp]: "rest_of s s"
  by (simp add: rest_of_def)

lemma rest_of_trans [trans]: "rest_of s t \<Longrightarrow> rest_of t u \<Longrightarrow> rest_of s u"
  by (auto simp: rest_of_def)

lemma scan_num_rest: "scan_num old s = Val (r, t) \<Longrightarrow> rest_of s t"
  using scan_int_shrinks scan_int_set
  by (fastforce simp: scan_num_def rest_of_def bind_out_Val_iff split: prod.splits option.splits)

lemma wait_key_rest_of: "wait_key v s = Val t \<Longrightarrow> rest_of s t"
  using wait_key_rest [of v s t] by (simp add: rest_of_def)

lemma scan_word_rest: "scan_word n s = Val (r, t) \<Longrightarrow> rest_of s t"
proof -
  assume r: "scan_word n s = Val (r, t)"
  have "set t \<subseteq> set s"
  proof (cases "scan_str None s")
    case (Some p)
    then obtain k where "t = drop k (skip_ws s)"
      using r by (auto simp: scan_word_def scan_str_def Let_def split: if_splits)
    moreover have "set (skip_ws s) \<subseteq> set s" by (auto simp: skip_ws_def dest: set_dropWhileD)
    ultimately show ?thesis using set_drop_subset [of k "skip_ws s"] by auto
  qed (use r in \<open>auto simp: scan_word_def\<close>)
  with scan_word_shrinks [OF r] show ?thesis by (simp add: rest_of_def)
qed

lemmas rest_ofs = scan_num_rest wait_key_rest_of scan_word_rest

lemma change_bright_loop_rest:
  "change_bright_loop v no i pos ls c s = Val (r, c', t) \<Longrightarrow> rest_of s t"
proof (induction v no i pos ls c s rule: change_bright_loop.induct)
  case (1 v no i pos ls c s)
  show ?case
  proof (cases "fgets BUF_SIZE ls")
    case None
    with "1.prems" show ?thesis by (subst (asm) change_bright_loop.simps) simp
  next
    case (Some p)
    obtain line rest where p: "p = (line, rest)" by fastforce
    show ?thesis
    proof (cases "i = no")
      case False
      have "change_bright_loop v no (i + 1) (pos + length line) rest c s = Val (r, c', t)"
        using "1.prems" Some p False by (subst (asm) change_bright_loop.simps) simp
      with "1.IH" Some p False show ?thesis by auto
    next
      case True
      with "1.prems" Some p obtain nb s1 where "scan_num None s = Val (nb, s1)" "wait_key v s1 = Val t"
        by (subst (asm) change_bright_loop.simps)
          (auto simp: bind_out_Val_iff Let_def split: option.splits if_splits)
      with rest_ofs rest_of_trans show ?thesis by blast
    qed
  qed
qed

lemma select_subject_rest:
  "select_subject_to_change_bright v file s = Val (r, rows, file', t) \<Longrightarrow> rest_of s t"
proof -
  assume r: "select_subject_to_change_bright v file s = Val (r, rows, file', t)"
  show ?thesis
  proof (cases "file")
    case (Some c)
    with r obtain num s1 no res c' where "scan_num None s = Val (num, s1)"
        "change_bright_loop v no 0 0 c c s1 = Val (res, c', t)"
      by (auto simp: select_subject_to_change_bright_def change_subject_bright_def bind_out_Val_iff
          split: option.splits)
    with change_bright_loop_rest have "scan_num None s = Val (num, s1)" "rest_of s1 t" by blast+
    with rest_ofs rest_of_trans show ?thesis by blast
  qed (use r in \<open>simp add: select_subject_to_change_bright_def\<close>)
qed

lemma set_current_rest: "set_current_light_bright w v s = Val (r, ms, t) \<Longrightarrow> rest_of s t"
proof -
  assume "set_current_light_bright w v s = Val (r, ms, t)"
  then obtain msg s1 where "scan_word 20 s = Val (msg, s1)" "wait_key v s1 = Val t"
    by (auto simp: set_current_light_bright_def bind_out_Val_iff split: if_splits option.splits)
  with rest_ofs rest_of_trans show ?thesis by blast
qed

lemma bright_round_rest: "bright_round w v num file s = Val (ret, num', file', t) \<Longrightarrow> rest_of s t"
proof -
  assume r: "bright_round w v num file s = Val (ret, num', file', t)"
  then obtain num1 s1 where s1: "scan_num num s = Val (num1, s1)" by (auto simp: bright_round_def bind_out_Val_iff)
  with r have "rest_of s1 t"
    by (auto simp: bright_round_def bind_out_Val_iff split: option.splits if_splits
        dest: select_subject_rest set_current_rest)
  with scan_num_rest [OF s1] show ?thesis by (rule rest_of_trans)
qed

text \<open>A call of the brightness menu that returns.\<close>

lemma select_bright_rest:
  assumes "select_bright_menu w v num file s = Some (Val (r, file', t))"
  shows "rest_of s t"
proof -
  have "\<forall>r file' t. y = Val (r, file', t) \<longrightarrow> rest_of s t" if "select_bright_menu w v num file s = Some y" for y
    using that
    by (rule select_bright_induct)
      (auto split: outcome.splits dest: bright_round_rest intro: rest_of_trans)
  with assms show ?thesis by blast
qed
lemma menu_sched_shrinks: "menu_sched v file s = Val (file', t) \<Longrightarrow> length t < length s"
proof (induction "length s" arbitrary: "file" s rule: less_induct)
  case less
  from less.prems obtain c u where c: "read_choice 6 s = Val (c, u)"
    by (subst (asm) menu_sched.simps) (auto simp: bind_out_Val_iff)
  then have u: "length u < length s" using read_choice_rest by blast
  note shrinks = register_sched_shrinks change_sched_shrinks delete_sched_shrinks check_sched_shrinks
    check_sched_date_shrinks
  from less.prems c have "t = u \<or> (\<exists>file1 u1. length u1 \<le> length u \<and> menu_sched v file1 u1 = Val (file', t))"
    by (subst (asm) menu_sched.simps) (auto simp: bind_out_Val_iff split: if_splits dest: shrinks)
  with u less.hyps show ?case by (meson le_less_trans order_less_trans)
qed

text \<open>What a round does, by the choice made.\<close>

lemma study_step_cases:
  assumes "study_round a v w st = Some (Val st')"
  obtains (schedule) s "file" t where "menu_sel (ses_input st) = Val (1, s)"
      "menu_sched v (ses_sched st) s = Val (file, t)" "st' = st\<lparr>ses_sched := file, ses_input := t\<rparr>"
  | (brightness) s r "file" t where "menu_sel (ses_input st) = Val (2, s)"
      "select_bright_menu (out_peers w) v None (ses_bright st) s = Some (Val (r, file, t))"
      "st' = st\<lparr>ses_bright := file, ses_input := t\<rparr>"
  | (others) s t where "menu_sel (ses_input st) = Val (3, s)" "wait_key v s = Val t"
      "st' = st\<lparr>ses_input := t\<rparr>"
proof -
  from assms obtain c s where c: "menu_sel (ses_input st) = Val (c, s)"
    by (auto simp: study_round_def split: outcome.splits)
  then have "1 \<le> c \<and> c \<le> 3" using read_choice_rest by (simp add: menu_sel_def)
  then consider "c = 1" | "c = 2" | "c = 3" by linarith
  then show thesis
    using assms c schedule brightness others
    by cases (auto simp: study_round_def print_other_infos_def bind_out_Val_iff)
qed

lemma menu_sel_rest: "menu_sel s = Val (c, t) \<Longrightarrow> length t < length s \<and> rest_of s t"
  using read_choice_rest [of 3 s c t] by (simp add: menu_sel_def rest_of_def)

lemma study_round_shrinks:
  assumes "study_round a v w st = Some (Val st')"
  shows "length (ses_input st') < length (ses_input st)"
  using assms
proof (cases rule: study_step_cases)
  case schedule
  with menu_sel_rest menu_sched_shrinks show ?thesis by fastforce
next
  case brightness
  with menu_sel_rest [OF brightness(1)] select_bright_rest show ?thesis by (fastforce simp: rest_of_def)
next
  case others
  with menu_sel_rest [OF others(1)] wait_key_rest_of show ?thesis by (fastforce simp: rest_of_def)
qed
lemma main_loop_unfold:
  "study_round a v w st = Some (Val st') \<Longrightarrow> main_loop a v w st = main_loop a v w st'"
  by (subst main_loop.simps) simp

section \<open>Properties\<close>

definition quiet :: outside where
  "quiet = \<lparr>out_peers = \<lambda>s. nobody, out_time = \<lambda>s. 1000, out_tables = \<lambda>s i. replicate 256 blank_info\<rparr>"

text \<open>A round in which a subject is registered.\<close>

lemma one_subject_session:
  "study_round LP64 small quiet \<lparr>ses_sched = None, ses_bright = None,
     ses_input = ''1'' @ [LF] @ ''1'' @ [LF] @ ''170313'' @ [LF] @ ''1'' @ [LF] @ ''Art'' @ [LF] @ ''1500'' @ [LF] @
       ''6'' @ [LF]\<rparr> =
   Some (Val \<lparr>ses_sched = Some (''170313 Art 1500'' @ [LF]), ses_bright = None, ses_input = [LF]\<rparr>)"
  by code_simp


text \<open>
  C36: the program starts all the same when its receiver does not. With a known address on
  \<open>bat0\<close>, an error number of \<open>pthread_create\<close> or \<open>pthread_detach\<close> is positive, and the test of
  \<open>main\<close> is for a negative one: the session runs exactly as if all four calls had succeeded. The
  loop has no exit, so \<open>main\<close> never returns.
\<close>

theorem main_ignores_thread_errors:
  assumes "\<forall>ifa \<in> set pre. \<exists>fam ad. ifa_addr ifa = Some (fam, ad) \<and> (fam \<noteq> AF_INET \<or> ifa_name ifa \<noteq> ''bat0'')"
    and "index2ip k = Val ad" "0 \<le> create_receiver th" "0 \<le> detach_receiver th"
    and "ifap = Some (pre @ \<lparr>ifa_name = ''bat0'', ifa_addr = Some (AF_INET, ad)\<rparr> # post)"
  shows "study_main a sc ifap th v w st =
      study_main a sc ifap
        \<lparr>create_receiver = 0, detach_receiver = 0, create_recognizer = 0, detach_recognizer = 0\<rparr> v w st \<and>
    study_main a sc ifap th v w st \<noteq> Some (Val st')"
proof
  have start: "study_main a sc ifap th v w st = main_loop a v w st"
    if "0 \<le> create_receiver th" "0 \<le> detach_receiver th" for th
    using comm_init_bat0 [OF assms(1,2)] that by (simp add: study_main_def assms(5))
  then show "study_main a sc ifap th v w st =
      study_main a sc ifap
        \<lparr>create_receiver = 0, detach_receiver = 0, create_recognizer = 0, detach_recognizer = 0\<rparr> v w st"
    using assms(3,4) by simp
  have "y \<noteq> Val st'" if "main_loop a v w st = Some y" for st y
  proof (rule main_loop.raw_induct [OF _ that, where P = "\<lambda>a v w st y. y \<noteq> Val st'"])
    fix f a v w st y
    assume IH: "\<And>a v w st y. f a v w st = Some y \<Longrightarrow> y \<noteq> Val st'"
      and "Option.bind (study_round a v w st) (\<lambda>r. case r of
         Val st \<Rightarrow> f a v w st | Undefined u \<Rightarrow> Some (Undefined u) | Hangs \<Rightarrow> Some Hangs
       | Exits k \<Rightarrow> Some (Exits k) | Aborts \<Rightarrow> Some Aborts) = Some y"
    moreover from this(2) obtain r where "study_round a v w st = Some r"
      by (cases "study_round a v w st") auto
    ultimately show "y \<noteq> Val st'" by (cases r) auto
  qed
  then show "study_main a sc ifap th v w st \<noteq> Some (Val st')" using start [OF assms(3,4)] by auto
qed

theorem main_ignores_thread_errors_witness:
  "study_main LP64 True (Some [\<lparr>ifa_name = ''bat0'', ifa_addr = Some (2, ''192.168.2.3'')\<rparr>])
      \<lparr>create_receiver = 11, detach_receiver = 0, create_recognizer = 11, detach_recognizer = 3\<rparr> calm quiet
      \<lparr>ses_sched = None, ses_bright = None, ses_input = ''3''\<rparr> =
    study_main LP64 True (Some [\<lparr>ifa_name = ''bat0'', ifa_addr = Some (2, ''192.168.2.3'')\<rparr>])
      \<lparr>create_receiver = 0, detach_receiver = 0, create_recognizer = 0, detach_recognizer = 0\<rparr> calm quiet
      \<lparr>ses_sched = None, ses_bright = None, ses_input = ''3''\<rparr>"
  using main_ignores_thread_errors [of "[]" 3 "''192.168.2.3''"
      "\<lparr>create_receiver = 11, detach_receiver = 0, create_recognizer = 11, detach_recognizer = 3\<rparr>" _ "[]"
      LP64 True calm quiet "\<lparr>ses_sched = None, ses_bright = None, ses_input = ''3''\<rparr>"]
  by (simp add: AF_INET_def index2ip_def arptbl_def array_get_def)

end
