(* ===== verification/Network.thy ===== *)
theory Network
  imports Mesh
begin

text \<open>
  The mesh as a whole: the four devices, each with its recognizer and its receiver, and the
  datagrams on their way. A step is a round of one device's recognizer, a datagram received
  by the device it is addressed to, a failed \<open>recvfrom\<close>, or a change of a device's delay. Datagrams stay on their
  way, so they may be lost, overtake each other and arrive more than once, as UDP lets them.
\<close>

section \<open>Devices and datagrams\<close>

record node =
  node_rec :: recog
  node_rx :: rx

text \<open>A datagram: the index of the device that sent it, the address, the bytes.\<close>

type_synonym datagram = "nat \<times> string \<times> 8 word list"

record net =
  nodes :: "nat \<Rightarrow> node"
  air :: "datagram list"

definition devices :: "nat set" where
  "devices = {1, 2, 3, 4}"

definition posted :: "nat \<Rightarrow> (int \<times> message list) list \<Rightarrow> datagram list" where
  "posted k log = map (Pair k) (concat (map snd log))"

definition set_rec :: "nat \<Rightarrow> recog \<Rightarrow> net \<Rightarrow> net" where
  "set_rec k st n = n\<lparr>nodes := (nodes n)(k := (nodes n k)\<lparr>node_rec := st\<rparr>)\<rparr>"

definition set_rx :: "nat \<Rightarrow> rx \<Rightarrow> net \<Rightarrow> net" where
  "set_rx k st n = n\<lparr>nodes := (nodes n)(k := (nodes n k)\<lparr>node_rx := st\<rparr>)\<rparr>"

text \<open>
  When \<open>recvfrom\<close> fails the receiver takes the packet on its stack again, which is the last one
  that came in; before the first one it is uninitialised and nothing can be said.
\<close>

inductive net_step :: "bool \<Rightarrow> abi \<Rightarrow> net \<Rightarrow> net \<Rightarrow> bool" for sc a where
  sends: "k \<in> devices \<Longrightarrow> recognize sc r (node_rec (nodes n k)) = Val (Running, st', log) \<Longrightarrow>
    net_step sc a n ((set_rec k st' n)\<lparr>air := air n @ posted k log\<rparr>)"
| receives: "j \<in> devices \<Longrightarrow> (k, dest, bs) \<in> set (air n) \<Longrightarrow> index2ip (int j) = Val dest \<Longrightarrow>
    receive a (Datagram bs) t (node_rx (nodes n j)) = Val st' \<Longrightarrow> net_step sc a n (set_rx j st' n)"
| stalls: "j \<in> devices \<Longrightarrow> (k, dest, bs) \<in> set (air n) \<Longrightarrow> index2ip (int j) = Val dest \<Longrightarrow>
    rcv_packet (node_rx (nodes n j)) = packet_of_bytes bs \<Longrightarrow>
    receive a RecvFails t (node_rx (nodes n j)) = Val st' \<Longrightarrow> net_step sc a n (set_rx j st' n)"
| delays: "k \<in> devices \<Longrightarrow>
    net_step sc a n (set_rec k (set_delay_time t (node_rec (nodes n k))) n)"

inductive net_reachable :: "bool \<Rightarrow> abi \<Rightarrow> net \<Rightarrow> net \<Rightarrow> bool" for sc a n0 where
  initial: "net_reachable sc a n0 n0"
| further: "net_reachable sc a n0 n \<Longrightarrow> net_step sc a n n' \<Longrightarrow> net_reachable sc a n0 n'"

text \<open>
  A device as it starts: its own index is what \<open>comm_init\<close> made of its interfaces, where
  \<open>bat0\<close> has the address of device \<open>k\<close>; its table is empty.
\<close>

definition boots :: "bool \<Rightarrow> nat \<Rightarrow> node \<Rightarrow> bool" where
  "boots sc k d \<longleftrightarrow>
     (\<exists>pre post ad th. index2ip (int k) = Val ad \<and>
        (\<forall>ifa \<in> set pre. \<exists>fam ad. ifa_addr ifa = Some (fam, ad) \<and> (fam \<noteq> AF_INET \<or> ifa_name ifa \<noteq> ''bat0'')) \<and>
        comm_init sc (Some (pre @ \<lparr>ifa_name = ''bat0'', ifa_addr = Some (AF_INET, ad)\<rparr> # post)) th 0 =
          Val (0, rec_idx (node_rec d))) \<and>
     rec_ok (node_rec d) \<and> rx_ok (node_rx d) \<and> infos (node_rx d) = replicate 256 blank_info"

definition net_starts :: "bool \<Rightarrow> net \<Rightarrow> bool" where
  "net_starts sc n \<longleftrightarrow> air n = [] \<and> (\<forall>k \<in> devices. boots sc k (nodes n k))"

section \<open>What a device sends\<close>

lemma send_loop_bytes:
  "send_loop i ndev devs p = Val ms \<Longrightarrow> (d, bs) \<in> set ms \<Longrightarrow> bs = packet_bytes p"
proof (induction i ndev devs p arbitrary: ms rule: send_loop.induct)
  case (1 i ndev devs p)
  show ?case
  proof (cases "i < ndev")
    case True
    with "1.prems"(1) obtain ad ms' where ms': "send_loop (i + 1) ndev devs p = Val ms'"
      "ms = (ad, packet_bytes p) # ms'"
      by (subst (asm) send_loop.simps) (auto simp: bind_out_Val_iff)
    with "1.IH" [OF True] "1.prems"(2) show ?thesis
      using "1.prems"(1) True by (subst (asm) send_loop.simps) (auto simp: bind_out_Val_iff)
  qed (use "1.prems" in \<open>subst (asm) send_loop.simps, simp\<close>)
qed

lemma pack_information_name:
  "pack_information info p = Val q \<Longrightarrow> pkt_index q = ucast (info_index info) \<and> NUL \<in> set (pkt_name q)"
  by (auto simp: pack_information_def strcpy_def strcpy_into_def bind_out_Val_iff split: if_splits)

lemma recognize_messages:
  assumes st: "rec_ok st" and run: "recognize sc r st = Val (Running, st', log)"
  shows "rec_ok st' \<and> rec_idx st' = rec_idx st \<and>
    (\<forall>(t, ms) \<in> set log. \<forall>(d, bs) \<in> set ms. \<exists>q. packet_ok q \<and> bs = packet_bytes q \<and>
      pkt_index q = ucast (rec_idx st) \<and> NUL \<in> set (pkt_name q))"
proof (cases "retrieve_time st + delay_time st \<le> r_check r")
  case False
  with recognize_early [of r st sc] run st show ?thesis by simp
next
  case True
  from recognize_due [OF st True run] have ok: "rec_ok st'" by auto
  let ?o = "(r_world r)\<lparr>self_idx := rec_idx st, scheds := rec_scheds st\<rparr>"
  from True run obtain g where
    g: "getdevinfo sc DEVINFO_MAX (devinfos st) (r_spawn r) (rec_kern st) (rec_proc st) = Val g"
    by (auto simp: recognize_def Let_def bind_out_Val_iff)
  with True run obtain n devs p kern where "g = Returns n devs p kern"
    by (cases g) (auto simp: recognize_def Let_def)
  with True run g obtain info o2 q ms where
    q: "self_info ?o (rec_info st) = Val (info, o2)" "pack_information info (rec_packet st) = Val q"
      "send_loop 0 n devs q = Val ms" "log = [(r_send r, ms)]" "rec_idx st' = rec_idx st"
    by (auto simp: recognize_def Let_def bind_out_Val_iff split: if_splits)
  have "info_index info = rec_idx st" using q(1) by (auto simp: self_info_def bind_out_Val_iff)
  with pack_information_name [OF q(2)] have "pkt_index q = ucast (rec_idx st)" "NUL \<in> set (pkt_name q)" by simp_all
  moreover have "packet_ok q" using pack_information_packet_ok [OF q(2)] st by (simp add: rec_ok_def)
  ultimately show ?thesis using ok q send_loop_bytes [OF q(3)] by auto
qed
section \<open>The invariant\<close>

definition genuine :: "datagram \<Rightarrow> bool" where
  "genuine g \<longleftrightarrow>
     (case g of (k, dest, bs) \<Rightarrow>
        k \<in> devices \<and> (\<exists>q. packet_ok q \<and> bs = packet_bytes q \<and> pkt_index q = of_nat k \<and> acceptable q))"

definition heard :: "abi \<Rightarrow> datagram list \<Rightarrow> nat \<Rightarrow> information \<Rightarrow> bool" where
  "heard a ds i r \<longleftrightarrow>
     r = blank_info \<or> (\<exists>dest bs t. (i, dest, bs) \<in> set ds \<and> reports a (packet_of_bytes bs) t r)"

definition node_inv :: "abi \<Rightarrow> datagram list \<Rightarrow> nat \<Rightarrow> node \<Rightarrow> bool" where
  "node_inv a ds k d \<longleftrightarrow>
     rec_ok (node_rec d) \<and> rec_idx (node_rec d) = of_nat k \<and> rx_ok (node_rx d) \<and>
     (\<forall>i < 256. heard a ds i (infos (node_rx d) ! i))"

definition net_inv :: "abi \<Rightarrow> net \<Rightarrow> bool" where
  "net_inv a n \<longleftrightarrow>
     (\<forall>g \<in> set (air n). genuine g) \<and> (\<forall>k \<in> devices. node_inv a (air n) k (nodes n k))"

lemma heard_more: "heard a ds i r \<Longrightarrow> heard a (ds @ es) i r"
  by (auto simp: heard_def)

lemma index_byte: "k \<in> devices \<Longrightarrow> (ucast (of_nat k :: 32 word) :: 8 word) = of_nat k \<and> unat (of_nat k :: 8 word) = k"
  by (auto simp: devices_def)

lemma genuine_posted:
  assumes "k \<in> devices" "rec_ok st" "rec_idx st = of_nat k" "recognize sc r st = Val (Running, st', log)"
  shows "\<forall>g \<in> set (posted k log). genuine g"
proof
  fix g assume "g \<in> set (posted k log)"
  then obtain t ms d bs where g: "g = (k, d, bs)" "(t, ms) \<in> set log" "(d, bs) \<in> set ms"
    by (auto simp: posted_def)
  with recognize_messages [OF assms(2,4)] obtain q where
    q: "packet_ok q" "bs = packet_bytes q" "pkt_index q = ucast (rec_idx st)" "NUL \<in> set (pkt_name q)" by fast
  then have idx: "pkt_index q = of_nat k" using assms(1,3) index_byte by simp
  with q(4) assms(1) index_byte [OF assms(1)] have "acceptable q" by (auto simp: acceptable_def devices_def)
  with q idx g(1) assms(1) show "genuine g" by (auto simp: genuine_def)
qed

lemma genuine_received:
  assumes "genuine (k, dest, bs)" "rx_ok st"
  obtains st' r where "receive a (Datagram bs) t st = Val st'" "rx_ok st'" "infos st' = (infos st)[k := r]"
    "reports a (packet_of_bytes bs) t r"
proof -
  from assms(1) obtain q where q: "packet_ok q" "bs = packet_bytes q" "pkt_index q = of_nat k" "acceptable q" "k \<in> devices"
    by (auto simp: genuine_def)
  have whole: "recvfrom (Datagram bs) (rcv_packet st) = q"
    using q(1,2) assms(2) by (subst recvfrom_whole) (auto simp: rx_ok_def)
  from receive_packet [OF assms(2) whole, of a t] q(3,4) index_byte [OF q(5)] obtain r where
    r: "receive a (Datagram bs) t st = Val (st\<lparr>rcv_packet := q, rcv_info := r, infos := (infos st)[k := r]\<rparr>)"
      "reports a q t r" by auto
  with receive_ok [OF assms(2) r(1)] q(1,2) that show ?thesis by simp
qed

lemma receive_again:
  assumes "genuine (k, dest, bs)" "rcv_packet st = packet_of_bytes bs"
  shows "receive a RecvFails t st = receive a (Datagram bs) t st"
proof -
  from assms obtain q where "packet_ok q" "bs = packet_bytes q" by (auto simp: genuine_def)
  with assms(2) have "recvfrom (Datagram bs) (rcv_packet st) = packet_of_bytes bs"
    by (intro recvfrom_whole) auto
  with assms(2) show ?thesis by (simp add: receive_def recvfrom_def)
qed

text \<open>A genuine datagram, stored in the table of a device.\<close>

lemma node_inv_received:
  assumes g: "(k, dest, bs) \<in> set ds" "genuine (k, dest, bs)" and j: "node_inv a ds j d"
    and st': "receive a (Datagram bs) t (node_rx d) = Val st'"
  shows "node_inv a ds j (d\<lparr>node_rx := st'\<rparr>)"
proof -
  have rx: "rx_ok (node_rx d)" using j by (simp add: node_inv_def)
  from genuine_received [OF g(2) this, of a t] st' obtain r where
    r: "rx_ok st'" "infos st' = (infos (node_rx d))[k := r]" "reports a (packet_of_bytes bs) t r"
    by (metis outcome.inject(1))
  have "heard a ds i (infos st' ! i)" if "i < 256" for i
  proof (cases "i = k")
    case True
    have "length (infos (node_rx d)) = 256" using rx by (auto simp: rx_ok_def DEVINFO_MAX_def)
    with True that r g(1) show ?thesis by (auto simp: heard_def)
  next
    case False
    with that r(2) j show ?thesis by (simp add: node_inv_def)
  qed
  with r(1) j show ?thesis by (simp add: node_inv_def)
qed

lemma boots_index: "boots sc k d \<Longrightarrow> rec_idx (node_rec d) = of_nat k"
proof -
  assume "boots sc k d"
  then obtain pre post ad th where "index2ip (int k) = Val ad"
    "\<forall>ifa \<in> set pre. \<exists>fam ad. ifa_addr ifa = Some (fam, ad) \<and> (fam \<noteq> AF_INET \<or> ifa_name ifa \<noteq> ''bat0'')"
    "comm_init sc (Some (pre @ \<lparr>ifa_name = ''bat0'', ifa_addr = Some (AF_INET, ad)\<rparr> # post)) th 0 =
      Val (0, rec_idx (node_rec d))" by (auto simp: boots_def)
  with comm_init_bat0 [of pre "int k" ad sc post th 0] show ?thesis by simp
qed

lemma net_inv_start: "net_starts sc n \<Longrightarrow> net_inv a n"
proof -
  have "node_inv a [] k d" if "boots sc k d" for k d
  proof -
    have "rec_ok (node_rec d)" "rx_ok (node_rx d)" "infos (node_rx d) = replicate 256 blank_info"
      using that by (simp_all add: boots_def)
    with boots_index [OF that] show ?thesis by (simp add: node_inv_def heard_def)
  qed
  then show "net_starts sc n \<Longrightarrow> net_inv a n" by (simp add: net_starts_def net_inv_def)
qed

lemma net_inv_step:
  assumes "net_inv a n" "net_step sc a n n'"
  shows "net_inv a n'"
  using assms(2)
proof (cases rule: net_step.cases)
  case (sends k r st' log)
  from assms(1) sends(2) have k: "node_inv a (air n) k (nodes n k)" by (simp add: net_inv_def)
  then have "\<forall>g \<in> set (posted k log). genuine g"
    using genuine_posted [OF sends(2) _ _ sends(3)] by (simp add: node_inv_def)
  moreover have "rec_ok st' \<and> rec_idx st' = of_nat k"
    using recognize_messages [OF _ sends(3)] k by (simp add: node_inv_def)
  ultimately show ?thesis
    using assms(1) sends(1) by (auto simp: net_inv_def node_inv_def set_rec_def heard_more)
next
  case (receives j k dest bs t st')
  from assms(1) receives(2,3) have g: "genuine (k, dest, bs)" and j: "node_inv a (air n) j (nodes n j)"
    by (auto simp: net_inv_def)
  from node_inv_received [OF receives(3) g j receives(5)] assms(1) receives(1) show ?thesis
    by (auto simp: net_inv_def set_rx_def)
next
  case (stalls j k dest bs t st')
  from assms(1) stalls(2,3) have g: "genuine (k, dest, bs)" and j: "node_inv a (air n) j (nodes n j)"
    by (auto simp: net_inv_def)
  from stalls(6) receive_again [OF g stalls(5)]
  have "receive a (Datagram bs) t (node_rx (nodes n j)) = Val st'" by simp
  from node_inv_received [OF stalls(3) g j this] assms(1) stalls(1) show ?thesis
    by (auto simp: net_inv_def set_rx_def)
next
  case (delays k t)
  with assms(1) show ?thesis
    by (auto simp: net_inv_def node_inv_def set_rec_def set_delay_time_def rec_ok_def)
qed

lemma net_inv_reachable: "net_reachable sc a n0 n \<Longrightarrow> net_inv a n0 \<Longrightarrow> net_inv a n"
  by (induction rule: net_reachable.induct) (auto intro: net_inv_step)
section \<open>Properties\<close>

text \<open>
  C3: the mesh is safe and honest. When all four devices have started, and however their
  rounds, their datagrams, failed calls of \<open>recvfrom\<close> and the changes of their delays
  interleave: no datagram on its way
  can make any device's receiver leave an array, and whatever a device's table holds under an
  index was sent by the device with that index.
\<close>

theorem network_honest:
  assumes "net_starts sc n0" "net_reachable sc a n0 n"
  shows "(\<forall>(k, dest, bs) \<in> set (air n). \<forall>j \<in> devices. \<forall>t.
      \<exists>st'. receive a (Datagram bs) t (node_rx (nodes n j)) = Val st') \<and>
    (\<forall>j \<in> devices. \<forall>i < 256. heard a (air n) i (infos (node_rx (nodes n j)) ! i))"
proof -
  have inv: "net_inv a n" using net_inv_reachable [OF assms(2)] net_inv_start [OF assms(1)] by blast
  have "\<exists>st'. receive a (Datagram bs) t (node_rx (nodes n j)) = Val st'"
    if "(k, dest, bs) \<in> set (air n)" "j \<in> devices" for k dest bs j t
  proof -
    from inv that have "genuine (k, dest, bs)" "rx_ok (node_rx (nodes n j))"
      by (auto simp: net_inv_def node_inv_def)
    then show ?thesis by (rule genuine_received [of k dest bs _ a t]) blast
  qed
  with inv show ?thesis by (auto simp: net_inv_def node_inv_def)
qed

text \<open>Four devices that have just started, and the first round of the third.\<close>

definition new_net :: net where
  "new_net =
     \<lparr>nodes = \<lambda>k. \<lparr>node_rec = sample_recog\<lparr>rec_idx := of_nat k\<rparr>, node_rx = fresh_rx\<rparr>, air = []\<rparr>"

lemma new_net_starts: "net_starts True new_net"
proof -
  have "boots True k (nodes new_net k)" if "k \<in> devices" for k
  proof -
    from that obtain ad where ad: "index2ip (int k) = Val ad"
      by (auto simp: devices_def index2ip_def array_get_def arptbl_def)
    let ?th = "\<lparr>create_receiver = 0, detach_receiver = 0, create_recognizer = 0, detach_recognizer = 0\<rparr>"
    have "comm_init True (Some ([] @ \<lparr>ifa_name = ''bat0'', ifa_addr = Some (AF_INET, ad)\<rparr> # [])) ?th 0 =
        Val (0, of_nat k)" using comm_init_bat0 [of "[]" "int k" ad True "[]" ?th 0] ad by simp
    moreover have "rec_ok (sample_recog\<lparr>rec_idx := of_nat k\<rparr>)" using sample_recog_ok by (simp add: rec_ok_def)
    moreover have "rx_ok fresh_rx" "infos fresh_rx = replicate 256 blank_info"
      using fresh_rx_ok by (simp_all add: fresh_rx_def)
    ultimately show ?thesis
      using ad unfolding boots_def new_net_def
      by (intro conjI exI [of _ "[]"] exI [of _ ad] exI [of _ ?th]) simp_all
  qed
  then show ?thesis by (simp add: net_starts_def new_net_def)
qed
lemma third_sends:
  "\<exists>st' bs. recognize True
     (sample_round 100 101
       [Bytes (''head'' @ [LF] @ ''IF'' @ [LF] @ ''  wlan0 90:9f:33:ec:04:8a 0.190s'' @ [LF])])
     (node_rec (nodes new_net 3)) = Val (Running, st', [(101, [(''192.168.2.1'', bs)])])"
proof -
  let ?r = "sample_round 100 101
      [Bytes (''head'' @ [LF] @ ''IF'' @ [LF] @ ''  wlan0 90:9f:33:ec:04:8a 0.190s'' @ [LF])]"
  have same: "node_rec (nodes new_net 3) = sample_recog" by (simp add: new_net_def sample_recog_def)
  have own: "own_ok ((r_world ?r)\<lparr>self_idx := rec_idx sample_recog, scheds := rec_scheds sample_recog\<rparr>) []"
    by (simp add: own_ok_def tm_ok_def sample_round_def sample_recog_def sample_world_def)
  show ?thesis unfolding same
    using recognize_sends [OF sample_recog_ok, of ?r 77 "''head''" "''IF''"
        "[BatRow ''  '' ''wlan0'' '' '' ''90:9f:33:ec:04:8a'' '' 0.190s'']" "[]" True] own
    by (auto simp: row_ok_def print_batctl_def print_row_def isspace_def mac2ip_def arptbl_def
        sample_round_def sample_recog_def sample_world_def)
qed

theorem network_honest_witness:
  "\<exists>n bs st'. net_reachable True LP64 new_net n \<and> (3, ''192.168.2.1'', bs) \<in> set (air n) \<and>
     receive LP64 (Datagram bs) 102 (node_rx (nodes n 1)) = Val st' \<and>
     heard LP64 (air n) 3 (infos (node_rx (nodes n 1)) ! 3)"
proof -
  obtain st' bs where run: "recognize True
     (sample_round 100 101
       [Bytes (''head'' @ [LF] @ ''IF'' @ [LF] @ ''  wlan0 90:9f:33:ec:04:8a 0.190s'' @ [LF])])
     (node_rec (nodes new_net 3)) = Val (Running, st', [(101, [(''192.168.2.1'', bs)])])"
    using third_sends by blast
  let ?n = "(set_rec 3 st' new_net)\<lparr>air := air new_net @ posted 3 [(101, [(''192.168.2.1'', bs)])]\<rparr>"
  have "net_step True LP64 new_net ?n" by (rule sends [OF _ run]) (simp add: devices_def)
  then have reach: "net_reachable True LP64 new_net ?n" by (rule further [OF initial])
  have sent: "(3, ''192.168.2.1'', bs) \<in> set (air ?n)" by (simp add: posted_def)
  have one: "1 \<in> devices" by (simp add: devices_def)
  note honest = network_honest [OF new_net_starts reach]
  from bspec [OF bspec [OF conjunct1 [OF honest] sent, simplified prod.case] one] obtain st2 where
    got: "receive LP64 (Datagram bs) 102 (node_rx (nodes ?n 1)) = Val st2" by blast
  have "heard LP64 (air ?n) 3 (infos (node_rx (nodes ?n 1)) ! 3)"
    using bspec [OF conjunct2 [OF honest] one] by simp
  with reach sent got show ?thesis by (intro exI conjI)
qed

end
